(* ===== verification/Prelude.thy ===== *)
theory Prelude
  imports Main "HOL-Library.Word" "HOL-Library.Multiset" "HOL-Library.AList"
begin

text \<open>
  Shared vocabulary of the development: Go's zero values (the class \<open>default\<close>), the
  outcome of a step that can panic or block, the two collections of facts the component
  proofs use (\<open>model_defs\<close> for definitions that are unfolded, \<open>keeps\<close> for
  invariant preservation), and list lemmas that several components need.
\<close>

named_theorems model_defs "definitions of the model that component proofs unfold"
named_theorems keeps "every operation preserves the invariant of its component"

section \<open>Go's zero values\<close>

text \<open>
  The zero value of a Go type is the \<open>default\<close> of the type that models it: 0, false,
  the empty string and the nil slice are the ones the program relies on.
\<close>

instantiation int :: default
begin
definition default_int :: int where "default_int = 0"
instance ..
end

instantiation bool :: default
begin
definition default_bool :: bool where "default_bool = False"
instance ..
end

instantiation list :: (type) default
begin
definition default_list :: "'a list" where "default_list = []"
instance ..
end

instantiation option :: (type) default
begin
definition default_option :: "'a option" where "default_option = None"
instance ..
end

lemmas zero_values = default_int_def default_bool_def default_list_def default_option_def

section \<open>Steps that can fail\<close>

text \<open>
  \<open>Panic\<close> is a run-time panic (nil dereference, failed type assertion, minimum of an
  empty slice): Go unwinds the goroutine. \<open>Blocked\<close> is a send on a full channel whose
  only receiver is the sending goroutine: the goroutine never continues.
\<close>

datatype fault = Panic | Blocked

type_synonym 'a outcome = "fault + 'a"

definition and_then :: "'a outcome \<Rightarrow> ('a \<Rightarrow> 'b outcome) \<Rightarrow> 'b outcome" where
  "and_then r f = (case r of Inl e \<Rightarrow> Inl e | Inr a \<Rightarrow> f a)"

lemma and_then_simps [simp]:
  "and_then (Inl e) f = Inl e"
  "and_then (Inr a) f = f a"
  by (simp_all add: and_then_def)

lemma and_then_Inr_iff: "and_then r f = Inr b \<longleftrightarrow> (\<exists>a. r = Inr a \<and> f a = Inr b)"
  by (cases r) auto

section \<open>Lists updated by index\<close>

definition list_swap :: "'a list \<Rightarrow> nat \<Rightarrow> nat \<Rightarrow> 'a list" where
  "list_swap xs i j = xs[i := xs ! j, j := xs ! i]"

lemma length_list_swap [simp]: "length (list_swap xs i j) = length xs"
  by (simp add: list_swap_def)

lemma nth_list_swap:
  "i < length xs \<Longrightarrow> j < length xs \<Longrightarrow>
   list_swap xs i j ! k = (if k = i then xs ! j else if k = j then xs ! i else xs ! k)"
  by (auto simp: list_swap_def nth_list_update)

lemma mset_list_swap:
  "i < length xs \<Longrightarrow> j < length xs \<Longrightarrow> mset (list_swap xs i j) = mset xs"
  by (auto simp: list_swap_def mset_swap)

lemma set_list_swap:
  "i < length xs \<Longrightarrow> j < length xs \<Longrightarrow> set (list_swap xs i j) = set xs"
  by (metis mset_list_swap set_mset_mset)

text \<open>A list sorted by an injective key is determined by its elements.\<close>

lemma sort_key_cong_mset:
  assumes "mset xs = mset ys" and "inj_on f (set xs)"
  shows "sort_key f xs = sort_key f ys"
  using assms by (intro sort_key_inj_key_eq) simp_all

text \<open>Dropping position \<open>i\<close> by moving the last element there.\<close>

lemma mset_take_move_last:
  assumes "length xs = Suc l" and "i < Suc l"
  shows "mset (take l (xs[i := xs ! l])) = mset xs - {#xs ! i#}"
proof -
  obtain ys z where xs: "xs = ys @ [z]" and l: "l = length ys"
    using assms(1) by (cases xs rule: rev_cases) auto
  show ?thesis
  proof (cases "i = l")
    case False
    then have "i < length ys" using assms(2) l by simp
    then show ?thesis using xs l by (simp add: list_update_append nth_append mset_update)
  qed (simp add: xs l)
qed

lemma distinct_take_move_last:
  assumes "distinct xs" and "length xs = Suc l" and "i < l"
  shows "distinct (take l (xs[i := xs ! l]))"
proof -
  obtain ys z where xs: "xs = ys @ [z]" and l: "l = length ys"
    using assms(2) by (cases xs rule: rev_cases) auto
  have "distinct (ys[i := z])"
    using assms(1) xs by (intro distinct_list_update) auto
  then show ?thesis using assms(3) xs l by (simp add: list_update_append)
qed

text \<open>The last \<open>c\<close> elements, after one more element arrives.\<close>

lemma drop_snoc_window:
  "drop (Suc (length (drop (length ys - c) ys)) - c) (drop (length ys - c) ys @ [x]) =
   drop (Suc (length ys) - c) (ys @ [x])"
proof (cases "length ys < c")
  case False
  then have "drop (length ys - c) ys @ [x] = drop (length ys - c) (ys @ [x])" by simp
  then show ?thesis using False by (simp add: Suc_diff_le)
qed simp

section \<open>Counters below the word size\<close>

lemma of_nat_word64_less:
  "s < 2 ^ 64 \<Longrightarrow> t < 2 ^ 64 \<Longrightarrow> (of_nat s :: 64 word) < of_nat t \<longleftrightarrow> s < t"
  by (simp add: word_less_nat_alt unat_of_nat take_bit_nat_eq_self)

lemma of_nat_word64_le:
  "s < 2 ^ 64 \<Longrightarrow> t < 2 ^ 64 \<Longrightarrow> (of_nat s :: 64 word) \<le> of_nat t \<longleftrightarrow> s \<le> t"
  by (simp add: word_le_nat_alt unat_of_nat take_bit_nat_eq_self)

lemma unat_max_word64: "unat (- 1 :: 64 word) = 2 ^ 64 - 1"
  by (simp add: unsigned_minus_1_eq_mask mask_eq_exp_minus_1)

lemma less_Suc_word64:
  assumes "x \<noteq> (- 1 :: 64 word)"
  shows "y < x + 1 \<longleftrightarrow> y \<le> x"
proof -
  have "unat x \<noteq> unat (- 1 :: 64 word)" using assms unsigned_word_eqI by blast
  moreover have "unat x < 2 ^ LENGTH(64)" by (rule unsigned_less)
  ultimately have "unat x + 1 < 2 ^ 64" by (simp add: unat_max_word64)
  then have "unat (x + 1) = unat x + 1" by (simp add: unat_word_ariths)
  then show ?thesis by (simp add: word_less_nat_alt word_le_nat_alt less_Suc_eq_le)
qed

section \<open>Sorting by an injective key\<close>

lemma sort_key_snoc:
  assumes "\<forall>x \<in> set xs. f x < f y" and "inj_on f (set xs)"
  shows "sort_key f (xs @ [y]) = sort_key f xs @ [y]"
proof (rule sort_key_inj_key_eq)
  show "inj_on f (set (xs @ [y]))" using assms by (auto simp: inj_on_def)
  show "sorted (map f (sort_key f xs @ [y]))" using assms(1) by (auto simp: sorted_append less_imp_le)
qed simp

lemma sort_key_remove1:
  assumes "mset ys = mset xs - {#x#}" and "inj_on f (set xs)"
  shows "sort_key f ys = remove1 x (sort_key f xs)"
proof (rule sort_key_inj_key_eq)
  show "inj_on f (set ys)"
    using assms(2) by (rule inj_on_subset) (metis assms(1) in_diffD set_mset_mset subsetI)
  show "sorted (map f (remove1 x (sort_key f xs)))" by (simp add: sorted_map_remove1)
qed (simp add: assms(1) mset_remove1)

lemma sort_key_map_same:
  assumes "\<And>x. f (g x) = f x" and "inj_on f (set xs)"
  shows "sort_key f (map g xs) = map g (sort_key f xs)"
proof (rule sort_key_inj_key_eq)
  show "inj_on f (set (map g xs))" using assms by (auto simp: inj_on_def)
  show "sorted (map f (map g (sort_key f xs)))" by (simp add: assms(1) o_def)
qed (simp add: mset_map)

lemma sort_key_Nil_iff: "sort_key f xs = [] \<longleftrightarrow> xs = []"
  by (metis length_0_conv length_sort)

section \<open>Operation sequences and refinement\<close>

text \<open>
  Running a list of operations on a state, collecting what each returns. A component refines
  its abstract specification when one operation does; \<open>inv n s\<close> is the component's
  invariant with room for \<open>n\<close> more operations (a counter or an index that must not
  overflow), constant where nothing bounds the run.
\<close>

fun run_ops :: "('op \<Rightarrow> 's \<Rightarrow> 's \<times> 'r) \<Rightarrow> 's \<Rightarrow> 'op list \<Rightarrow> 's \<times> 'r list" where
  "run_ops exec s [] = (s, [])"
| "run_ops exec s (op # ops) =
     (let (s', r) = exec op s; (s'', rs) = run_ops exec s' ops in (s'', r # rs))"

lemma run_ops_Cons:
  "run_ops exec s (op # ops) =
     (fst (run_ops exec (fst (exec op s)) ops), snd (exec op s) # snd (run_ops exec (fst (exec op s)) ops))"
  by (simp split: prod.split)

locale refines =
  fixes inv :: "nat \<Rightarrow> 's \<Rightarrow> bool"
    and abs :: "'s \<Rightarrow> 'a"
    and exec :: "'op \<Rightarrow> 's \<Rightarrow> 's \<times> 'r"
    and spec :: "'op \<Rightarrow> 'a \<Rightarrow> 'a \<times> 'r"
  assumes exec_inv: "inv (Suc n) s \<Longrightarrow> inv n (fst (exec op s))"
    and exec_abs: "inv (Suc n) s \<Longrightarrow> abs (fst (exec op s)) = fst (spec op (abs s))"
    and exec_out: "inv (Suc n) s \<Longrightarrow> snd (exec op s) = snd (spec op (abs s))"
begin

lemma run_refines:
  "inv (n + length ops) s \<Longrightarrow>
   inv n (fst (run_ops exec s ops)) \<and>
   abs (fst (run_ops exec s ops)) = fst (run_ops spec (abs s) ops) \<and>
   snd (run_ops exec s ops) = snd (run_ops spec (abs s) ops)"
proof (induction ops arbitrary: s)
  case (Cons op ops)
  then have inv: "inv (Suc (n + length ops)) s" by simp
  show ?case
    using Cons.IH [OF exec_inv [OF inv, of op]] exec_abs [OF inv, of op] exec_out [OF inv, of op]
    by (simp add: run_ops_Cons del: run_ops.simps(2))
qed simp

end

end
