(* ===== verification/Containers.thy ===== *)
theory Containers
  imports Prelude
begin

text \<open>
  The small containers of structs/: \<open>Map\<close> (map.go), \<open>Set\<close> (set.go), \<open>Status\<close>
  (status.go), \<open>BoolValue\<close> (bool_value.go) and \<open>SyncMap\<close> (sync_map.go, used
  sequentially). A Go map is an association list with distinct keys, or nil (None) for a map
  that was never made. Go leaves the iteration order of a map open: an operation that ranges
  over one takes a priority \<open>pri\<close> on the keys and visits them by increasing priority,
  so that a statement for all \<open>pri\<close> is one for all iteration orders.
\<close>

section \<open>Map (structs/map.go)\<close>

type_synonym ('k, 'v) gomap = "('k \<times> 'v) list option"

definition NewMap :: "('k, 'v) gomap" where
  "NewMap = Some []"

fun map_AddOrUpdate :: "'k \<Rightarrow> 'v \<Rightarrow> ('k, 'v) gomap \<Rightarrow> ('k, 'v) gomap" where
  "map_AddOrUpdate key value None = Some [(key, value)]"
| "map_AddOrUpdate key value (Some m) = Some (AList.update key value m)"

fun map_AddIfNotExist :: "'k \<Rightarrow> 'v \<Rightarrow> ('k, 'v) gomap \<Rightarrow> ('k, 'v) gomap" where
  "map_AddIfNotExist key value None = Some [(key, value)]"
| "map_AddIfNotExist key value (Some m) =
     (case map_of m key of None \<Rightarrow> Some (AList.update key value m) | Some _ \<Rightarrow> Some m)"

fun map_Exist :: "'k \<Rightarrow> ('k, 'v) gomap \<Rightarrow> bool" where
  "map_Exist key None = False"
| "map_Exist key (Some m) = (map_of m key \<noteq> None)"

fun map_Length :: "('k, 'v) gomap \<Rightarrow> nat" where
  "map_Length None = 0"
| "map_Length (Some m) = length m"

fun map_Get :: "('k, 'v) gomap \<Rightarrow> 'k \<Rightarrow> 'v option" where
  "map_Get None key = None"
| "map_Get (Some m) key = map_of m key"

definition map_GetDefault :: "('k, 'v::default) gomap \<Rightarrow> 'k \<Rightarrow> 'v" where
  "map_GetDefault m key = (case map_Get m key of None \<Rightarrow> default | Some v \<Rightarrow> v)"

fun map_Del :: "'k \<Rightarrow> ('k, 'v) gomap \<Rightarrow> ('k, 'v) gomap" where
  "map_Del key None = None"
| "map_Del key (Some m) = Some (AList.delete key m)"

text \<open>\<open>Map\<close> makes a nil map before it returns it, for the caller to range over.\<close>

fun map_Map :: "('k, 'v) gomap \<Rightarrow> ('k, 'v) gomap \<times> ('k \<times> 'v) list" where
  "map_Map None = (Some [], [])"
| "map_Map (Some m) = (Some m, m)"

fun map_entries :: "('k, 'v) gomap \<Rightarrow> ('k \<times> 'v) list" where
  "map_entries None = []"
| "map_entries (Some m) = m"

lemma snd_map_Map [simp]: "snd (map_Map m) = map_entries m"
  by (cases m) simp_all

definition map_Keys :: "('k \<Rightarrow> nat) \<Rightarrow> ('k, 'v) gomap \<Rightarrow> 'k list" where
  "map_Keys pri m = sort_key pri (map fst (map_entries m))"

definition map_wf :: "('k, 'v) gomap \<Rightarrow> bool" where
  "map_wf m \<longleftrightarrow> distinct (map fst (map_entries m))"

text \<open>Every operation is characterised by what \<open>Get\<close> returns afterwards.\<close>

lemma map_Get_NewMap [simp]: "map_Get NewMap k = None"
  by (simp add: NewMap_def)

lemma map_Get_AddOrUpdate [simp]:
  "map_Get (map_AddOrUpdate k v m) k' = (if k' = k then Some v else map_Get m k')"
  by (cases m) (auto simp: update_conv')

lemma map_Get_AddIfNotExist [simp]:
  "map_Get (map_AddIfNotExist k v m) k' =
     (if k' = k \<and> map_Get m k = None then Some v else map_Get m k')"
  by (cases m) (auto simp: update_conv' split: option.splits)

lemma map_Get_Del [simp]:
  "map_Get (map_Del k m) k' = (if k' = k then None else map_Get m k')"
  by (cases m) (auto simp: delete_conv')

lemma map_Exist_iff [simp]: "map_Exist k m \<longleftrightarrow> map_Get m k \<noteq> None"
  by (cases m) auto

lemma map_wf_NewMap [simp, keeps]: "map_wf NewMap"
  by (simp add: map_wf_def NewMap_def)

lemma map_wf_AddOrUpdate [simp, keeps]: "map_wf m \<Longrightarrow> map_wf (map_AddOrUpdate k v m)"
  by (cases m) (auto simp: map_wf_def distinct_update)

lemma map_wf_AddIfNotExist [simp, keeps]: "map_wf m \<Longrightarrow> map_wf (map_AddIfNotExist k v m)"
  by (cases m) (auto simp: map_wf_def distinct_update split: option.splits)

lemma map_wf_Del [simp, keeps]: "map_wf m \<Longrightarrow> map_wf (map_Del k m)"
  by (cases m) (auto simp: map_wf_def distinct_delete)

lemma set_map_Keys: "set (map_Keys pri m) = {k. map_Get m k \<noteq> None}"
  by (cases m) (auto simp: map_Keys_def map_of_eq_None_iff image_iff)

lemma in_map_Keys [simp]: "k \<in> set (map_Keys pri m) \<longleftrightarrow> map_Get m k \<noteq> None"
  by (simp add: set_map_Keys)

lemma distinct_map_Keys: "map_wf m \<Longrightarrow> distinct (map_Keys pri m)"
  by (simp add: map_Keys_def map_wf_def)

lemma finite_map_dom [simp]: "finite {k. map_Get m k \<noteq> None}"
  by (metis List.finite_set set_map_Keys)

lemma map_Length_eq_0 [simp]: "map_Length m = 0 \<longleftrightarrow> (\<forall>k. map_Get m k = None)"
proof (cases m)
  case (Some al)
  then show ?thesis by (cases al) auto
qed simp

lemma map_Length_card:
  assumes "map_wf m"
  shows "map_Length m = card {k. map_Get m k \<noteq> None}"
proof -
  have "map_Length m = length (map_Keys (\<lambda>_. 0) m)"
    by (cases m) (simp_all add: map_Keys_def)
  also have "\<dots> = card (set (map_Keys (\<lambda>_. 0) m))"
    using distinct_map_Keys [OF assms] by (rule distinct_card [symmetric])
  finally show ?thesis by (simp only: set_map_Keys)
qed

section \<open>Set (structs/set.go)\<close>

type_synonym 'a goset = "'a list"

definition NewSet :: "'a goset" where
  "NewSet = []"

definition set_Add :: "'a \<Rightarrow> 'a goset \<Rightarrow> 'a goset" where
  "set_Add key s = (if key \<in> set s then s else s @ [key])"

definition set_Del :: "'a \<Rightarrow> 'a goset \<Rightarrow> 'a goset" where
  "set_Del key s = removeAll key s"

definition set_Has :: "'a \<Rightarrow> 'a goset \<Rightarrow> bool" where
  "set_Has key s \<longleftrightarrow> key \<in> set s"

definition set_Len :: "'a goset \<Rightarrow> nat" where
  "set_Len s = length s"

definition set_All :: "('a \<Rightarrow> nat) \<Rightarrow> 'a goset \<Rightarrow> 'a list" where
  "set_All pri s = sort_key pri s"

definition set_Clear :: "'a goset \<Rightarrow> 'a goset" where
  "set_Clear s = []"

lemma set_NewSet [simp]: "set NewSet = {}"
  by (simp add: NewSet_def)

lemma set_set_Add [simp]: "set (set_Add k s) = insert k (set s)"
  by (auto simp: set_Add_def)

lemma set_set_Del [simp]: "set (set_Del k s) = set s - {k}"
  by (auto simp: set_Del_def)

lemma set_Has_iff [simp]: "set_Has k s \<longleftrightarrow> k \<in> set s"
  by (simp add: set_Has_def)

lemma set_set_All [simp]: "set (set_All pri s) = set s"
  by (simp add: set_All_def)

lemma set_Clear_Nil [simp]: "set_Clear s = []"
  by (simp add: set_Clear_def)

lemma set_Len_eq_0 [simp]: "set_Len s = 0 \<longleftrightarrow> set s = {}"
  by (simp add: set_Len_def)

lemma distinct_set_Add [simp, keeps]: "distinct s \<Longrightarrow> distinct (set_Add k s)"
  by (simp add: set_Add_def)

lemma distinct_set_Del [simp, keeps]: "distinct s \<Longrightarrow> distinct (set_Del k s)"
  by (simp add: set_Del_def distinct_removeAll)

section \<open>Status (structs/status.go)\<close>

record 'a status =
  status :: 'a

definition NewStatus :: "'a \<Rightarrow> 'a status" where
  "NewStatus initStatus = \<lparr>status = initStatus\<rparr>"

definition SetStatus :: "'a \<Rightarrow> 'a status \<Rightarrow> 'a status" where
  "SetStatus st s = s\<lparr>status := st\<rparr>"

definition GetStatus :: "'a status \<Rightarrow> 'a" where
  "GetStatus s = status s"

definition IsStatus :: "'a status \<Rightarrow> 'a \<Rightarrow> bool" where
  "IsStatus s st \<longleftrightarrow> status s = st"

definition IsInStatus :: "'a status \<Rightarrow> 'a list \<Rightarrow> bool" where
  "IsInStatus s sts = (if length sts = 0 then False
                       else if \<not> List.member sts (status s) then False else True)"

definition ChangeStatus :: "'a status \<Rightarrow> 'a \<Rightarrow> 'a list \<Rightarrow> 'a status \<times> bool" where
  "ChangeStatus s nextStatus prevStatus =
     (if \<not> IsInStatus s prevStatus then (s, False) else (s\<lparr>status := nextStatus\<rparr>, True))"

text \<open>A change of status is a guarded transition: it happens exactly from the listed ones.\<close>

lemma ChangeStatus_eq:
  "ChangeStatus s n ps = (if status s \<in> set ps then (\<lparr>status = n\<rparr>, True) else (s, False))"
  by (cases s) (auto simp: ChangeStatus_def IsInStatus_def)

section \<open>BoolValue (structs/bool_value.go)\<close>

record 'a bool_value =
  enabled :: bool
  bvalue :: 'a

definition NewBoolValue :: "'a::default bool_value" where
  "NewBoolValue = \<lparr>enabled = False, bvalue = default\<rparr>"

definition IsEnabled :: "'a bool_value \<Rightarrow> bool" where
  "IsEnabled v = enabled v"

definition bv_Get :: "'a bool_value \<Rightarrow> 'a \<times> bool" where
  "bv_Get v = (bvalue v, enabled v)"

definition Enable :: "'a \<Rightarrow> 'a bool_value \<Rightarrow> 'a bool_value" where
  "Enable value v = (if enabled v then v else v\<lparr>enabled := True, bvalue := value\<rparr>)"

definition UpdateEnable :: "'a \<Rightarrow> 'a bool_value \<Rightarrow> 'a bool_value" where
  "UpdateEnable value v = v\<lparr>enabled := True, bvalue := value\<rparr>"

definition Disable :: "'a bool_value \<Rightarrow> 'a bool_value" where
  "Disable v = v\<lparr>enabled := False\<rparr>"

lemmas bool_value_defs [model_defs] =
  NewBoolValue_def IsEnabled_def bv_Get_def Enable_def UpdateEnable_def Disable_def

text \<open>The first \<open>Enable\<close> wins until \<open>Disable\<close>; \<open>UpdateEnable\<close> always wins.\<close>

lemma Enable_first_wins: "Enable w (Enable v (Disable b)) = UpdateEnable v b"
  by (simp add: bool_value_defs)

section \<open>SyncMap (structs/sync_map.go), used from one goroutine\<close>

definition syncmap_Add :: "('v \<Rightarrow> string) \<Rightarrow> 'v \<Rightarrow> (string \<times> 'v) list \<Rightarrow> (string \<times> 'v) list" where
  "syncmap_Add id_of item m = AList.update (id_of item) item m"

definition syncmap_Get :: "(string \<times> 'v::default) list \<Rightarrow> string \<Rightarrow> 'v \<times> bool" where
  "syncmap_Get m i = (case map_of m i of None \<Rightarrow> (default, False) | Some v \<Rightarrow> (v, True))"

definition syncmap_Del :: "string \<Rightarrow> (string \<times> 'v) list \<Rightarrow> (string \<times> 'v) list" where
  "syncmap_Del i m = AList.delete i m"

definition syncmap_GetAll :: "(string \<Rightarrow> nat) \<Rightarrow> (string \<times> 'v) list \<Rightarrow> 'v list" where
  "syncmap_GetAll pri m = map snd (sort_key (pri \<circ> fst) m)"

end
