(* ===== verification/Ring.thy ===== *)
theory Ring
  imports Containers
begin

text \<open>
  structs/ring.go: the fixed-capacity FIFO ring buffer. A pointer to a ring is an option
  (None is Go's nil receiver, which every method tests first). \<open>ring_list\<close> reads the
  contents from the oldest to the newest value; the interface \<open>bounded_fifo\<close> says what a
  client may rely on, and is interpreted on the ring below.
\<close>

section \<open>The buffer and its operations\<close>

record 'a ring =
  ring_items :: "'a list"
  ring_head :: nat
  ring_size :: nat

type_synonym 'a ring_ptr = "'a ring option"

definition NewRing :: "int \<Rightarrow> 'a::default ring_ptr" where
  "NewRing capacity =
     (let capacity = (if capacity < 0 then 0 else capacity)
      in Some \<lparr>ring_items = replicate (nat capacity) default, ring_head = 0, ring_size = 0\<rparr>)"

fun ring_Len :: "'a ring_ptr \<Rightarrow> nat" where
  "ring_Len None = 0"
| "ring_Len (Some r) = ring_size r"

fun ring_Cap :: "'a ring_ptr \<Rightarrow> nat" where
  "ring_Cap None = 0"
| "ring_Cap (Some r) = length (ring_items r)"

fun ring_Full :: "'a ring_ptr \<Rightarrow> bool" where
  "ring_Full None = False"
| "ring_Full (Some r) = (ring_size r = length (ring_items r) \<and> length (ring_items r) > 0)"

fun ring_Push :: "'a ring_ptr \<Rightarrow> 'a::default \<Rightarrow> 'a ring_ptr \<times> 'a \<times> bool" where
  "ring_Push None v = (None, default, False)"
| "ring_Push (Some r) v =
     (if length (ring_items r) = 0 then (Some r, default, False)
      else if ring_size r = length (ring_items r) then
        (Some (r\<lparr>ring_items := (ring_items r)[ring_head r := v],
                  ring_head := (ring_head r + 1) mod length (ring_items r)\<rparr>), ring_items r ! ring_head r, True)
      else
        (Some (r\<lparr>ring_items := (ring_items r)[(ring_head r + ring_size r) mod length (ring_items r) := v],
                  ring_size := ring_size r + 1\<rparr>), default, False))"

fun ring_Peek :: "'a ring_ptr \<Rightarrow> 'a::default \<times> bool" where
  "ring_Peek None = (default, False)"
| "ring_Peek (Some r) = (if ring_size r = 0 then (default, False) else (ring_items r ! ring_head r, True))"

fun ring_Pop :: "'a ring_ptr \<Rightarrow> 'a ring_ptr \<times> 'a::default \<times> bool" where
  "ring_Pop None = (None, default, False)"
| "ring_Pop (Some r) =
     (if ring_size r = 0 then (Some r, default, False)
      else let value = ring_items r ! ring_head r;
               r = r\<lparr>ring_items := (ring_items r)[ring_head r := default],
                     ring_head := (ring_head r + 1) mod length (ring_items r), ring_size := ring_size r - 1\<rparr>
           in (Some (if ring_size r = 0 then r\<lparr>ring_head := 0\<rparr> else r), value, True))"

fun ring_At :: "'a ring_ptr \<Rightarrow> int \<Rightarrow> 'a::default \<times> bool" where
  "ring_At None off = (default, False)"
| "ring_At (Some r) off =
     (if off < 0 \<or> off \<ge> int (ring_size r) then (default, False)
      else (ring_items r ! ((ring_head r + nat off) mod length (ring_items r)), True))"

fun ring_Values :: "'a ring_ptr \<Rightarrow> 'a list" where
  "ring_Values None = []"
| "ring_Values (Some r) =
     (if ring_size r = 0 then []
      else map (\<lambda>i. ring_items r ! ((ring_head r + i) mod length (ring_items r))) [0..<ring_size r])"

fun ring_Clear :: "'a ring_ptr \<Rightarrow> 'a::default ring_ptr" where
  "ring_Clear None = None"
| "ring_Clear (Some r) =
     Some (r\<lparr>ring_items := map (\<lambda>_. default) (ring_items r), ring_head := 0, ring_size := 0\<rparr>)"

section \<open>Well-formedness and contents\<close>

definition ring_list :: "'a ring_ptr \<Rightarrow> 'a list" where
  "ring_list p = (case p of None \<Rightarrow> []
     | Some r \<Rightarrow> map (\<lambda>i. ring_items r ! ((ring_head r + i) mod length (ring_items r))) [0..<ring_size r])"

definition ring_inv :: "'a ring_ptr \<Rightarrow> bool" where
  "ring_inv p = (case p of None \<Rightarrow> True
     | Some r \<Rightarrow> ring_size r \<le> length (ring_items r) \<and>
         (if length (ring_items r) = 0 then ring_head r = 0 else ring_head r < length (ring_items r)))"

lemma ring_slot_less:
  assumes "(h + i) mod n = (h + j) mod n" and "i \<le> j" and "j < (n::nat)"
  shows "i = j"
proof -
  have "n dvd (h + j) - (h + i)"
    using assms mod_eq_dvd_iff_nat [of "h + i" "h + j" n] by simp
  then have "n dvd j - i" by simp
  with assms(2,3) show ?thesis by (auto dest!: dvd_imp_le)
qed

lemma ring_slot_inj:
  assumes "(h + i) mod n = (h + j) mod n" and "i < n" and "j < (n::nat)"
  shows "i = j"
  using assms by (cases "i \<le> j") (metis ring_slot_less linear)+

lemma ring_list_None [simp]: "ring_list None = []"
  by (simp add: ring_list_def)

lemma ring_inv_None [simp]: "ring_inv None"
  by (simp add: ring_inv_def)

lemma length_ring_list [simp]: "length (ring_list (Some r)) = ring_size r"
  by (simp add: ring_list_def)

lemma ring_Len_list: "ring_Len p = length (ring_list p)"
  by (cases p) simp_all

lemma ring_Values_list [simp]: "ring_Values p = ring_list p"
  by (cases p) (simp_all add: ring_list_def)

lemma ring_Full_iff:
  "ring_Full p \<longleftrightarrow> 0 < ring_Cap p \<and> length (ring_list p) = ring_Cap p"
  by (cases p) auto

lemma ring_Len_le_Cap: "ring_inv p \<Longrightarrow> length (ring_list p) \<le> ring_Cap p"
  by (cases p) (auto simp: ring_inv_def)

lemma nth_ring_list:
  "i < ring_size r \<Longrightarrow> ring_list (Some r) ! i = ring_items r ! ((ring_head r + i) mod length (ring_items r))"
  by (simp add: ring_list_def)

lemma ring_NewRing [simp, keeps]:
  "ring_inv (NewRing c)" "ring_list (NewRing c) = []" "ring_Cap (NewRing c) = nat c"
  by (auto simp: NewRing_def ring_inv_def ring_list_def Let_def)

lemma ring_Clear_facts [simp, keeps]:
  "ring_inv p \<Longrightarrow> ring_inv (ring_Clear p)" "ring_list (ring_Clear p) = []"
  "ring_Cap (ring_Clear p) = ring_Cap p"
  by (cases p; auto simp: ring_inv_def ring_list_def)+

section \<open>Push and Pop on the contents\<close>

lemma ring_Cap_Push [simp]: "ring_Cap (fst (ring_Push p v)) = ring_Cap p"
  by (cases p) simp_all

lemma ring_Cap_Pop [simp]: "ring_Cap (fst (ring_Pop p)) = ring_Cap p"
  by (cases p) (simp_all add: Let_def)

lemma ring_inv_Push [simp, keeps]: "ring_inv p \<Longrightarrow> ring_inv (fst (ring_Push p v))"
  by (cases p) (auto simp: ring_inv_def)

lemma ring_inv_Pop [simp, keeps]: "ring_inv p \<Longrightarrow> ring_inv (fst (ring_Pop p))"
  by (cases p) (auto simp: ring_inv_def Let_def)

lemma ring_Push_room:
  assumes "ring_inv p" and "\<not> ring_Full p" and "0 < ring_Cap p"
  shows "ring_list (fst (ring_Push p v)) = ring_list p @ [v]"
proof (cases p)
  case (Some r)
  let ?n = "length (ring_items r)"
  let ?r = "r\<lparr>ring_items := (ring_items r)[(ring_head r + ring_size r) mod ?n := v], ring_size := ring_size r + 1\<rparr>"
  have sz: "ring_size r < ?n" and hr: "ring_head r < ?n"
    using assms Some by (auto simp: ring_inv_def split: if_splits)
  have push: "fst (ring_Push p v) = Some ?r" using Some sz by (cases "ring_items r") simp_all
  have "ring_list (Some ?r) = ring_list (Some r) @ [v]"
  proof (rule nth_equalityI)
    fix i assume "i < length (ring_list (Some ?r))"
    then have i: "i < Suc (ring_size r)" by simp
    have "(ring_head r + i) mod ?n \<noteq> (ring_head r + ring_size r) mod ?n" if "i < ring_size r"
      using ring_slot_inj [of "ring_head r" i ?n "ring_size r"] that sz by auto
    moreover have "(ring_head r + ring_size r) mod ?n < ?n" using sz by (intro mod_less_divisor) auto
    ultimately show "ring_list (Some ?r) ! i = (ring_list (Some r) @ [v]) ! i"
      using i sz hr by (cases "i = ring_size r") (auto simp: nth_ring_list nth_append)
  qed simp
  then show ?thesis using push Some by simp
qed (use assms in simp)

lemma ring_Push_full:
  assumes "ring_inv p" and "ring_Full p"
  shows "snd (ring_Push p v) = (hd (ring_list p), True)"
    and "ring_list (fst (ring_Push p v)) = tl (ring_list p) @ [v]"
proof -
  obtain r where p: "p = Some r" using assms by (cases p) auto
  let ?n = "length (ring_items r)"
  let ?r = "r\<lparr>ring_items := (ring_items r)[ring_head r := v], ring_head := (ring_head r + 1) mod ?n\<rparr>"
  have sz: "ring_size r = ?n" "0 < ?n" and hr: "ring_head r < ?n"
    using assms p by (auto simp: ring_inv_def split: if_splits)
  show "snd (ring_Push p v) = (hd (ring_list p), True)"
    using p sz hr by (simp add: hd_conv_nth ring_list_def)
  have push: "fst (ring_Push p v) = Some ?r" using p sz by simp
  have "ring_list (Some ?r) = tl (ring_list (Some r)) @ [v]"
  proof (rule nth_equalityI)
    fix i assume "i < length (ring_list (Some ?r))"
    then have i: "i < ?n" using sz by simp
    have slot: "((ring_head r + 1) mod ?n + i) mod ?n = (ring_head r + Suc i) mod ?n"
      by (simp add: mod_simps)
    have "(ring_head r + Suc i) mod ?n \<noteq> ring_head r" if "Suc i < ?n"
      using ring_slot_inj [of "ring_head r" "Suc i" ?n 0] that sz hr by auto
    then show "ring_list (Some ?r) ! i = (tl (ring_list (Some r)) @ [v]) ! i"
      using i sz hr slot by (cases "Suc i = ?n") (auto simp: nth_ring_list nth_append nth_tl)
  qed (use sz in simp)
  then show "ring_list (fst (ring_Push p v)) = tl (ring_list p) @ [v]" using push p by simp
qed

lemma ring_Pop_empty: "ring_list p = [] \<Longrightarrow> ring_Pop p = (p, default, False)"
  by (cases p) (auto simp: ring_list_def)

lemma ring_Pop_list:
  assumes "ring_inv p" and "ring_list p \<noteq> []"
  shows "snd (ring_Pop p) = (hd (ring_list p), True)"
    and "ring_list (fst (ring_Pop p)) = tl (ring_list p)"
proof -
  obtain r where p: "p = Some r" using assms by (cases p) auto
  let ?n = "length (ring_items r)"
  have sz: "0 < ring_size r" "ring_size r \<le> ?n" and hr: "ring_head r < ?n"
    using assms p by (auto simp: ring_inv_def ring_list_def split: if_splits)
  show "snd (ring_Pop p) = (hd (ring_list p), True)"
    using p sz hr by (simp add: hd_conv_nth ring_list_def Let_def)
  show "ring_list (fst (ring_Pop p)) = tl (ring_list p)"
  proof (rule nth_equalityI)
    fix i assume "i < length (ring_list (fst (ring_Pop p)))"
    then have i: "Suc i < ring_size r" using p sz by (auto simp: Let_def split: if_splits)
    have "(ring_head r + Suc i) mod ?n \<noteq> ring_head r"
      using ring_slot_inj [of "ring_head r" "Suc i" ?n 0] i sz hr by (metis Nat.add_0_right
        less_le_trans mod_less nat.distinct(1) order_less_trans)
    then show "ring_list (fst (ring_Pop p)) ! i = tl (ring_list p) ! i"
      using i p sz hr by (simp add: Let_def nth_ring_list nth_tl mod_simps)
  qed (use p sz in \<open>auto simp: Let_def\<close>)
qed

section \<open>The interface a client of the ring relies on\<close>

text \<open>
  A queue that holds at most \<open>cap\<close> values: \<open>full\<close> tells when it is at capacity, a push
  below capacity appends, a push at capacity drops the oldest value, a pop takes the oldest.
\<close>

locale bounded_fifo =
  fixes inv :: "'q \<Rightarrow> bool"
    and cont :: "'q \<Rightarrow> 'a list"
    and cap :: "'q \<Rightarrow> nat"
    and full :: "'q \<Rightarrow> bool"
    and push :: "'q \<Rightarrow> 'a \<Rightarrow> 'q"
    and pop :: "'q \<Rightarrow> 'q"
    and oldest :: "'q \<Rightarrow> 'a"
  assumes cont_bound: "inv q \<Longrightarrow> length (cont q) \<le> cap q"
    and full_iff: "inv q \<Longrightarrow> full q \<longleftrightarrow> 0 < cap q \<and> length (cont q) = cap q"
    and push_inv: "inv q \<Longrightarrow> inv (push q x)"
    and push_cap: "cap (push q x) = cap q"
    and push_room: "inv q \<Longrightarrow> length (cont q) < cap q \<Longrightarrow> cont (push q x) = cont q @ [x]"
    and push_full: "inv q \<Longrightarrow> full q \<Longrightarrow> cont (push q x) = tl (cont q) @ [x]"
    and pop_inv: "inv q \<Longrightarrow> inv (pop q)"
    and pop_cap: "cap (pop q) = cap q"
    and pop_cont: "inv q \<Longrightarrow> cont q \<noteq> [] \<Longrightarrow> cont (pop q) = tl (cont q)"
    and pop_oldest: "inv q \<Longrightarrow> cont q \<noteq> [] \<Longrightarrow> oldest q = hd (cont q)"
begin

text \<open>Pushing keeps the newest \<open>cap\<close> values, whether or not the queue was full.\<close>

lemma push_cont:
  assumes "inv q" and "0 < cap q"
  shows "cont (push q x) = drop (Suc (length (cont q)) - cap q) (cont q @ [x])"
proof (cases "length (cont q) < cap q")
  case True
  then show ?thesis using assms by (simp add: push_room)
next
  case False
  then have len: "length (cont q) = cap q" using cont_bound assms(1) by force
  then have "cont q \<noteq> []" using assms(2) by auto
  then show ?thesis using assms len by (simp add: push_full full_iff drop_Suc tl_append2)
qed

lemma push_all_cap: "cap (foldl push q xs) = cap q"
  by (induction xs arbitrary: q) (simp_all add: push_cap)

lemma push_all_inv: "inv q \<Longrightarrow> inv (foldl push q xs)"
  by (induction xs arbitrary: q) (simp_all add: push_inv)

lemma push_all:
  assumes "inv q" and "0 < cap q"
  shows "cont (foldl push q xs) = drop (length (cont q) + length xs - cap q) (cont q @ xs)"
proof (induction xs rule: rev_induct)
  case Nil
  then show ?case using cont_bound [OF assms(1)] by simp
next
  case (snoc x xs)
  let ?q = "foldl push q xs"
  have "cont (push ?q x) = drop (Suc (length (cont ?q)) - cap ?q) (cont ?q @ [x])"
    using assms by (intro push_cont) (simp_all add: push_all_inv push_all_cap)
  also have "\<dots> = drop (Suc (length (cont q @ xs)) - cap q) ((cont q @ xs) @ [x])"
    using snoc drop_snoc_window [of "cont q @ xs" "cap q" x] by (simp add: push_all_cap)
  finally show ?case by simp
qed

text \<open>Making room before a push: what a client that reads the evicted value does.\<close>

lemma evict_then_push:
  assumes "inv q" and "full q"
  shows "inv (push (pop q) x)" and "cont (push (pop q) x) = tl (cont q) @ [x]"
    and "oldest q = hd (cont q)"
proof -
  have len: "0 < cap q" "length (cont q) = cap q" using assms by (simp_all add: full_iff)
  then have ne: "cont q \<noteq> []" by auto
  show "inv (push (pop q) x)" using assms by (simp add: push_inv pop_inv)
  show "cont (push (pop q) x) = tl (cont q) @ [x]"
    using assms(1) ne len by (simp add: push_room pop_inv pop_cap pop_cont)
  show "oldest q = hd (cont q)" using assms(1) ne by (rule pop_oldest)
qed

end

interpretation rq: bounded_fifo ring_inv ring_list ring_Cap ring_Full
  "\<lambda>q x. fst (ring_Push q x)" "\<lambda>q. fst (ring_Pop q)" "\<lambda>q. fst (ring_Peek q)"
proof (unfold_locales, goal_cases)
  case (10 q)
  then show ?case by (cases q) (auto simp: ring_list_def hd_conv_nth ring_inv_def split: if_splits)
qed (simp_all add: ring_Full_iff ring_Push_full ring_Push_room ring_Len_le_Cap ring_Pop_list)

section \<open>Every sequence of operations\<close>

datatype 'a ring_op = OpPush 'a | OpPop | OpPeek | OpAt int | OpClear

fun ring_exec :: "'a::default ring_op \<Rightarrow> 'a ring_ptr \<Rightarrow> 'a ring_ptr \<times> 'a \<times> bool" where
  "ring_exec (OpPush v) p = ring_Push p v"
| "ring_exec OpPop p = ring_Pop p"
| "ring_exec OpPeek p = (p, ring_Peek p)"
| "ring_exec (OpAt i) p = (p, ring_At p i)"
| "ring_exec OpClear p = (ring_Clear p, default, False)"

text \<open>The same operations on the plain list of a queue that keeps its newest \<open>c\<close> values.\<close>

fun fifo_spec :: "nat \<Rightarrow> 'a::default ring_op \<Rightarrow> 'a list \<Rightarrow> 'a list \<times> 'a \<times> bool" where
  "fifo_spec c (OpPush v) l =
     (if c = 0 then (l, default, False)
      else if length l = c then (tl l @ [v], hd l, True)
      else (l @ [v], default, False))"
| "fifo_spec c OpPop l = (case l of [] \<Rightarrow> ([], default, False) | x # xs \<Rightarrow> (xs, x, True))"
| "fifo_spec c OpPeek l = (l, case l of [] \<Rightarrow> (default, False) | x # _ \<Rightarrow> (x, True))"
| "fifo_spec c (OpAt i) l =
     (l, if 0 \<le> i \<and> i < int (length l) then (l ! nat i, True) else (default, False))"
| "fifo_spec c OpClear l = ([], default, False)"

lemma ring_Push_disabled: "ring_Cap p = 0 \<Longrightarrow> ring_Push p v = (p, default, False)"
  by (cases p) simp_all

lemma ring_Push_out:
  assumes "ring_inv p" and "\<not> ring_Full p"
  shows "snd (ring_Push p v) = (default, False)"
  using assms by (cases p) auto

lemma ring_At_list:
  assumes "ring_inv p"
  shows "ring_At p i = (if 0 \<le> i \<and> i < int (length (ring_list p))
    then (ring_list p ! nat i, True) else (default, False))"
  by (cases p) (simp_all add: nth_ring_list nat_less_iff)

lemma ring_Peek_list:
  assumes "ring_inv p"
  shows "ring_Peek p = (case ring_list p of [] \<Rightarrow> (default, False) | x # _ \<Rightarrow> (x, True))"
proof (cases p)
  case (Some r)
  have "ring_head r mod length (ring_items r) = ring_head r"
    using assms Some by (cases "length (ring_items r) = 0") (auto simp: ring_inv_def)
  moreover have "[0..<ring_size r] = 0 # [1..<ring_size r]" if "0 < ring_size r"
    using that by (simp add: upt_conv_Cons)
  ultimately show ?thesis
    using Some by (cases "ring_size r = 0") (simp_all add: ring_list_def)
qed simp

lemma ring_exec_spec:
  assumes "ring_inv p" and "ring_Cap p = c"
  shows "ring_inv (fst (ring_exec op p)) \<and> ring_Cap (fst (ring_exec op p)) = c"
    and "ring_list (fst (ring_exec op p)) = fst (fifo_spec c op (ring_list p))"
    and "snd (ring_exec op p) = snd (fifo_spec c op (ring_list p))"
proof -
  show "ring_inv (fst (ring_exec op p)) \<and> ring_Cap (fst (ring_exec op p)) = c"
    using assms by (cases op) simp_all
  have full: "ring_Full p \<longleftrightarrow> 0 < c \<and> length (ring_list p) = c"
    using assms(2) by (simp add: ring_Full_iff)
  have "ring_list (fst (ring_exec op p)) = fst (fifo_spec c op (ring_list p)) \<and>
    snd (ring_exec op p) = snd (fifo_spec c op (ring_list p))"
  proof (cases op)
    case (OpPush v)
    consider "c = 0" | "0 < c" "ring_Full p" | "0 < c" "\<not> ring_Full p" by blast
    then show ?thesis
      using assms OpPush full ring_Push_disabled [of p v] ring_Push_full [OF assms(1), of v]
        ring_Push_room [OF assms(1), of v] ring_Push_out [OF assms(1), of v]
      by cases simp_all
  next
    case OpPop
    then show ?thesis
      using ring_Pop_empty [of p] ring_Pop_list [OF assms(1)] by (cases "ring_list p") simp_all
  qed (use assms in \<open>simp_all add: ring_Peek_list ring_At_list\<close>)
  then show "ring_list (fst (ring_exec op p)) = fst (fifo_spec c op (ring_list p))"
    and "snd (ring_exec op p) = snd (fifo_spec c op (ring_list p))" by blast+
qed

text \<open>The capacity never changes, so it is part of the abstract state.\<close>

definition fifo_spec_cap ::
  "'a::default ring_op \<Rightarrow> nat \<times> 'a list \<Rightarrow> (nat \<times> 'a list) \<times> 'a \<times> bool" where
  "fifo_spec_cap op s = (let (l, r) = fifo_spec (fst s) op (snd s) in ((fst s, l), r))"

interpretation rf: refines "\<lambda>_. ring_inv" "\<lambda>p. (ring_Cap p, ring_list p)" ring_exec fifo_spec_cap
  by unfold_locales
    (simp_all add: ring_exec_spec [OF _ refl] fifo_spec_cap_def split: prod.split)

text \<open>
  C14: the ring buffer is a FIFO queue that keeps its newest \<open>c\<close> values. For every
  capacity (a non-positive one gives a ring that keeps nothing) and every sequence of
  \<open>Push\<close>, \<open>Pop\<close>, \<open>Peek\<close>, \<open>At\<close> and \<open>Clear\<close>, the wrapped-around array
  returns exactly what the plain list returns, value by value, evicted values included.
\<close>

theorem ring_is_bounded_fifo:
  "snd (run_ops ring_exec (NewRing c) ops) = snd (run_ops fifo_spec_cap (nat c, []) ops) \<and>
   ring_Values (fst (run_ops ring_exec (NewRing c) ops)) =
     snd (fst (run_ops fifo_spec_cap (nat c, []) ops))"
proof -
  have "ring_Cap (NewRing c :: 'a ring_ptr) = nat c" "ring_list (NewRing c :: 'a ring_ptr) = []"
    by simp_all
  then show ?thesis using rf.run_refines [of "NewRing c" ops] by (simp add: prod_eq_iff)
qed

end
