(* ===== verification/Dedup.thy ===== *)
theory Dedup
  imports Ring
begin

text \<open>
  core/dedup.go: the bounded window of message ids an actor has already processed, a ring of
  ids in arrival order together with the set of the same ids. The set answers \<open>Has\<close>, the
  ring says which id to forget when the window is full.
\<close>

record dedup =
  queue :: "string ring_ptr"
  queued :: "string goset"

definition NewDedup :: "int \<Rightarrow> dedup" where
  "NewDedup limit = \<lparr>queue = NewRing limit, queued = NewSet\<rparr>"

definition dedup_Add :: "dedup \<Rightarrow> string \<Rightarrow> dedup \<times> bool" where
  "dedup_Add d i =
     (if set_Has i (queued d) then (d, False)
      else
        let d = (if ring_Full (queue d) then
                   let (q, value, ok) = ring_Pop (queue d);
                       d = d\<lparr>queue := q\<rparr>
                   in if ok then d\<lparr>queued := set_Del value (queued d)\<rparr> else d
                 else d);
            d = d\<lparr>queue := fst (ring_Push (queue d) i)\<rparr>
        in (d\<lparr>queued := set_Add i (queued d)\<rparr>, True))"

definition dedup_Has :: "dedup \<Rightarrow> string \<Rightarrow> bool" where
  "dedup_Has d i = set_Has i (queued d)"

definition dedup_Reset :: "dedup \<Rightarrow> dedup" where
  "dedup_Reset d = d\<lparr>queue := ring_Clear (queue d), queued := set_Clear (queued d)\<rparr>"

definition dedup_Ids :: "dedup \<Rightarrow> string list" where
  "dedup_Ids d = ring_Values (queue d)"

definition dedup_Restore :: "dedup \<Rightarrow> string list \<Rightarrow> dedup" where
  "dedup_Restore d ids = foldl (\<lambda>d i. fst (dedup_Add d i)) (dedup_Reset d) ids"

definition dedup_inv :: "dedup \<Rightarrow> bool" where
  "dedup_inv d \<longleftrightarrow> ring_inv (queue d) \<and> 0 < ring_Cap (queue d) \<and>
     distinct (ring_list (queue d)) \<and> set (queued d) = set (ring_list (queue d))"

definition dedup_Cap :: "dedup \<Rightarrow> nat" where
  "dedup_Cap d = ring_Cap (queue d)"

lemma dedup_Has_Ids: "dedup_inv d \<Longrightarrow> dedup_Has d i \<longleftrightarrow> i \<in> set (dedup_Ids d)"
  by (simp add: dedup_inv_def dedup_Has_def dedup_Ids_def)

lemma dedup_Cap_Add [simp]: "dedup_Cap (fst (dedup_Add d i)) = dedup_Cap d"
  by (simp add: dedup_Cap_def dedup_Add_def Let_def split: prod.split)
     (metis fst_conv ring_Cap_Pop ring_Cap_Push)

lemma dedup_Cap_Reset [simp]: "dedup_Cap (dedup_Reset d) = dedup_Cap d"
  by (simp add: dedup_Cap_def dedup_Reset_def)

lemma dedup_inv_New [keeps]: "0 < limit \<Longrightarrow> dedup_inv (NewDedup limit)"
  by (simp add: dedup_inv_def NewDedup_def)

lemma dedup_inv_Reset [keeps]: "dedup_inv d \<Longrightarrow> dedup_inv (dedup_Reset d)"
  by (simp add: dedup_inv_def dedup_Reset_def)

lemma dedup_Ids_Reset [simp]: "dedup_Ids (dedup_Reset d) = []"
  by (simp add: dedup_Ids_def dedup_Reset_def)

text \<open>Adding an id that the window holds changes nothing; a new one enters at the end.\<close>

lemma dedup_Add_old: "dedup_Has d i \<Longrightarrow> dedup_Add d i = (d, False)"
  by (simp add: dedup_Add_def dedup_Has_def)

lemma dedup_Add_new:
  assumes "dedup_inv d" and "\<not> dedup_Has d i"
  shows "dedup_inv (fst (dedup_Add d i))" and "snd (dedup_Add d i)"
    and "dedup_Ids (fst (dedup_Add d i)) =
      (if length (dedup_Ids d) = dedup_Cap d then tl (dedup_Ids d) else dedup_Ids d) @ [i]"
proof -
  let ?ids = "ring_list (queue d)"
  have inv: "ring_inv (queue d)" "0 < ring_Cap (queue d)" "distinct ?ids"
    "set (queued d) = set ?ids" and new: "i \<notin> set ?ids"
    using assms by (simp_all add: dedup_inv_def dedup_Has_def)
  have full: "ring_Full (queue d) \<longleftrightarrow> length ?ids = ring_Cap (queue d)"
    using inv by (simp add: rq.full_iff)
  show "snd (dedup_Add d i)"
    using assms by (simp add: dedup_Add_def dedup_Has_def Let_def split: prod.split)
  show "dedup_inv (fst (dedup_Add d i))" and "dedup_Ids (fst (dedup_Add d i)) =
      (if length (dedup_Ids d) = dedup_Cap d then tl (dedup_Ids d) else dedup_Ids d) @ [i]"
  proof (atomize (full), cases "ring_Full (queue d)")
    case True
    then have "?ids \<noteq> []" using full inv(2) by auto
    then obtain v vs where ids: "?ids = v # vs" by (cases ?ids) auto
    obtain q where pop: "ring_Pop (queue d) = (q, v, True)"
      using ring_Pop_list(1) [OF inv(1)] ids by (cases "ring_Pop (queue d)") auto
    have q: "ring_inv q" "ring_Cap q = ring_Cap (queue d)" "ring_list q = vs"
      using ring_inv_Pop [OF inv(1)] ring_Cap_Pop [of "queue d"] ring_Pop_list(2) [OF inv(1)]
        pop ids by simp_all
    have "length vs < ring_Cap q" using full True ids q(2) by simp
    then have push: "ring_list (fst (ring_Push q i)) = vs @ [i]"
      using rq.push_room [OF q(1)] q(3) by simp
    have "fst (dedup_Add d i) =
        d\<lparr>queue := fst (ring_Push q i), queued := set_Add i (set_Del v (queued d))\<rparr>"
      using new inv(4) True pop by (simp add: dedup_Add_def Let_def)
    then show "dedup_inv (fst (dedup_Add d i)) \<and> dedup_Ids (fst (dedup_Add d i)) =
      (if length (dedup_Ids d) = dedup_Cap d then tl (dedup_Ids d) else dedup_Ids d) @ [i]"
      using full True inv new ids q push
      by (auto simp: dedup_inv_def dedup_Ids_def dedup_Cap_def)
  next
    case False
    then have "length ?ids < ring_Cap (queue d)"
      using full rq.cont_bound [OF inv(1)] by linarith
    then show "dedup_inv (fst (dedup_Add d i)) \<and> dedup_Ids (fst (dedup_Add d i)) =
      (if length (dedup_Ids d) = dedup_Cap d then tl (dedup_Ids d) else dedup_Ids d) @ [i]"
      using False full new inv rq.push_room [OF inv(1)] rq.push_inv [OF inv(1)]
      by (auto simp: dedup_Add_def dedup_inv_def dedup_Ids_def dedup_Cap_def Let_def)
  qed
qed

lemma dedup_inv_Add [keeps]: "dedup_inv d \<Longrightarrow> dedup_inv (fst (dedup_Add d i))"
  by (cases "dedup_Has d i") (simp_all add: dedup_Add_old dedup_Add_new)

lemma dedup_Ids_bounded: "dedup_inv d \<Longrightarrow> length (dedup_Ids d) \<le> dedup_Cap d"
  by (simp add: dedup_inv_def dedup_Ids_def dedup_Cap_def ring_Len_le_Cap)

lemma dedup_Cap_pos: "dedup_inv d \<Longrightarrow> 0 < dedup_Cap d"
  by (simp add: dedup_inv_def dedup_Cap_def)

lemma dedup_distinct_Ids: "dedup_inv d \<Longrightarrow> distinct (dedup_Ids d)"
  by (simp add: dedup_inv_def dedup_Ids_def)

section \<open>The window as an interface\<close>

text \<open>
  A client of the window relies on: a bounded list of distinct ids, an added id is held, and
  an id leaves only when \<open>cap\<close> other ids have been added after it.
\<close>

locale id_window =
  fixes inv :: "'w \<Rightarrow> bool"
    and ids :: "'w \<Rightarrow> string list"
    and cap :: "'w \<Rightarrow> nat"
    and add :: "'w \<Rightarrow> string \<Rightarrow> 'w"
  assumes ids_bound: "inv w \<Longrightarrow> length (ids w) \<le> cap w"
    and ids_distinct: "inv w \<Longrightarrow> distinct (ids w)"
    and cap_pos: "inv w \<Longrightarrow> 0 < cap w"
    and add_inv: "inv w \<Longrightarrow> inv (add w i)"
    and add_cap: "cap (add w i) = cap w"
    and add_known: "inv w \<Longrightarrow> i \<in> set (ids w) \<Longrightarrow> add w i = w"
    and add_fresh: "inv w \<Longrightarrow> i \<notin> set (ids w) \<Longrightarrow>
      ids (add w i) = (if length (ids w) = cap w then tl (ids w) else ids w) @ [i]"
begin

lemma add_holds: "inv w \<Longrightarrow> i \<in> set (ids (add w i))"
  by (cases "i \<in> set (ids w)") (simp_all add: add_known add_fresh)

lemma adds_inv: "inv w \<Longrightarrow> inv (foldl add w is)"
  by (induction "is" arbitrary: w) (simp_all add: add_inv)

lemma adds_cap: "cap (foldl add w is) = cap w"
  by (induction "is" arbitrary: w) (simp_all add: add_cap)

text \<open>Distinct fresh ids that fit are all appended, so a saved window is restored exactly.\<close>

lemma adds_fresh:
  "inv w \<Longrightarrow> distinct is \<Longrightarrow> set is \<inter> set (ids w) = {} \<Longrightarrow>
   length (ids w) + length is \<le> cap w \<Longrightarrow> ids (foldl add w is) = ids w @ is"
proof (induction "is" arbitrary: w)
  case (Cons i "is")
  then have "ids (add w i) = ids w @ [i]" by (simp add: add_fresh)
  with Cons show ?case by (simp add: add_inv add_cap)
qed simp

text \<open>An id at position \<open>p\<close> survives any additions that are fewer than its lead.\<close>

lemma add_window:
  assumes "inv w" and "ids w = us @ i # vs" and "length vs + 1 < cap w"
  shows "\<exists>us' vs'. ids (add w j) = us' @ i # vs' \<and> length vs' \<le> length vs + 1"
proof (cases "j \<in> set (ids w)")
  case True
  then have "ids (add w j) = us @ i # vs" using assms by (simp add: add_known)
  then show ?thesis by (intro exI conjI) (assumption, simp)
next
  case False
  have "us \<noteq> []" if "length (ids w) = cap w" using that assms(2,3) by auto
  then have "ids (add w j) = (if length (ids w) = cap w then tl us else us) @ i # (vs @ [j])"
    using False assms(1,2) by (simp add: add_fresh)
  then show ?thesis by (intro exI conjI) (assumption, simp)
qed

lemma adds_window:
  "inv w \<Longrightarrow> ids w = us @ i # vs \<Longrightarrow> length vs + length is < cap w \<Longrightarrow>
   i \<in> set (ids (foldl add w is))"
proof (induction "is" arbitrary: w us vs)
  case (Cons j "is")
  obtain us' vs' where "ids (add w j) = us' @ i # vs'" "length vs' \<le> length vs + 1"
    using add_window [of w us i vs j] Cons.prems by auto
  then show ?case using Cons.IH [of "add w j" us' vs'] Cons.prems by (simp add: add_inv add_cap)
qed simp

text \<open>A fresh id is remembered through the next \<open>cap - 1\<close> additions.\<close>

lemma remembers:
  assumes "inv w" and "i \<notin> set (ids w)" and "length is < cap w"
  shows "i \<in> set (ids (foldl add (add w i) is))"
proof -
  have "\<exists>us. ids (add w i) = us @ i # []" using add_fresh [OF assms(1,2)] by simp
  then show ?thesis
    using adds_window [of "add w i" _ i "[]" "is"] assms by (auto simp: add_inv add_cap)
qed

end

interpretation dw: id_window dedup_inv dedup_Ids dedup_Cap "\<lambda>d i. fst (dedup_Add d i)"
  by unfold_locales
    (simp_all add: dedup_Ids_bounded dedup_distinct_Ids dedup_inv_Add dedup_Cap_pos
      dedup_Add_old dedup_Add_new dedup_Has_Ids)

section \<open>Save and restore\<close>

text \<open>An actor's snapshot stores \<open>Ids\<close>; a restarted actor rebuilds its window from them.\<close>

lemma dedup_Restore_Ids:
  assumes "dedup_inv d" and "distinct is" and "length is \<le> dedup_Cap d"
  shows "dedup_Ids (dedup_Restore d is) = is"
  using dw.adds_fresh [of "dedup_Reset d" "is"] assms
  by (simp add: dedup_Restore_def dedup_inv_Reset)

lemma dedup_inv_Restore [keeps]: "dedup_inv d \<Longrightarrow> dedup_inv (dedup_Restore d is)"
  by (simp add: dedup_Restore_def dw.adds_inv dedup_inv_Reset)

section \<open>Every sequence of operations\<close>

datatype dedup_op = DAdd string | DHas string | DIds | DReset | DRestore "string list"

fun dedup_exec :: "dedup_op \<Rightarrow> dedup \<Rightarrow> dedup \<times> bool \<times> string list" where
  "dedup_exec (DAdd i) d = (fst (dedup_Add d i), snd (dedup_Add d i), [])"
| "dedup_exec (DHas i) d = (d, dedup_Has d i, [])"
| "dedup_exec DIds d = (d, False, dedup_Ids d)"
| "dedup_exec DReset d = (dedup_Reset d, False, [])"
| "dedup_exec (DRestore is) d = (dedup_Restore d is, False, [])"

text \<open>The window as a list of at most \<open>c\<close> distinct ids, oldest first.\<close>

definition window_add :: "nat \<Rightarrow> string list \<Rightarrow> string \<Rightarrow> string list" where
  "window_add c l i = (if i \<in> set l then l else (if length l = c then tl l else l) @ [i])"

fun window_spec :: "nat \<Rightarrow> dedup_op \<Rightarrow> string list \<Rightarrow> string list \<times> bool \<times> string list" where
  "window_spec c (DAdd i) l = (window_add c l i, i \<notin> set l, [])"
| "window_spec c (DHas i) l = (l, i \<in> set l, [])"
| "window_spec c DIds l = (l, False, l)"
| "window_spec c DReset l = ([], False, [])"
| "window_spec c (DRestore is) l = (foldl (window_add c) [] is, False, [])"

definition window_spec_cap ::
  "dedup_op \<Rightarrow> nat \<times> string list \<Rightarrow> (nat \<times> string list) \<times> bool \<times> string list" where
  "window_spec_cap op s = (let (l, r) = window_spec (fst s) op (snd s) in ((fst s, l), r))"

lemma dedup_Add_window:
  assumes "dedup_inv d"
  shows "dedup_Ids (fst (dedup_Add d i)) = window_add (dedup_Cap d) (dedup_Ids d) i"
    and "snd (dedup_Add d i) \<longleftrightarrow> i \<notin> set (dedup_Ids d)"
  using assms dedup_Has_Ids [OF assms, of i]
  by (cases "dedup_Has d i"; simp add: dedup_Add_old dedup_Add_new window_add_def)+

lemma dedup_Adds_window:
  "dedup_inv d \<Longrightarrow> dedup_Ids (foldl (\<lambda>d i. fst (dedup_Add d i)) d is) =
     foldl (window_add (dedup_Cap d)) (dedup_Ids d) is"
proof (induction "is" arbitrary: d)
  case (Cons i "is")
  then show ?case
    using Cons.IH [OF dedup_inv_Add [OF Cons.prems, of i]] by (simp add: dedup_Add_window)
qed simp

lemma dedup_Restore_window:
  "dedup_inv d \<Longrightarrow> dedup_Ids (dedup_Restore d is) = foldl (window_add (dedup_Cap d)) [] is"
  unfolding dedup_Restore_def using dedup_Adds_window [OF dedup_inv_Reset, of d "is"] by simp

lemma dedup_Cap_Restore [simp]: "dedup_Cap (dedup_Restore d is) = dedup_Cap d"
  by (simp add: dedup_Restore_def dw.adds_cap)

lemma dedup_exec_spec:
  assumes "dedup_inv d"
  shows "dedup_inv (fst (dedup_exec op d))"
    and "dedup_Cap (fst (dedup_exec op d)) = dedup_Cap d"
    and "dedup_Ids (fst (dedup_exec op d)) = fst (window_spec (dedup_Cap d) op (dedup_Ids d))"
    and "snd (dedup_exec op d) = snd (window_spec (dedup_Cap d) op (dedup_Ids d))"
  using dedup_inv_Add [OF assms] dedup_Add_window [OF assms]
  by (cases op; simp add: assms dedup_inv_Reset dedup_inv_Restore dedup_Restore_window
      dedup_Has_Ids)+

interpretation df: refines "\<lambda>_. dedup_inv" "\<lambda>d. (dedup_Cap d, dedup_Ids d)" dedup_exec window_spec_cap
  by unfold_locales (simp_all add: dedup_exec_spec window_spec_cap_def split: prod.split)

text \<open>
  C13: the deduplication window of an actor is the list of the last distinct ids. Over any
  sequence of \<open>Add\<close>, \<open>Has\<close>, \<open>Ids\<close>, \<open>Reset\<close> and \<open>Restore\<close> on a window created with a
  positive limit, the ring and the set together answer what a list of at most \<open>limit\<close>
  distinct ids answers: an id is new exactly when the list does not hold it, and a full list
  forgets its oldest id only when a new one comes.
\<close>

theorem dedup_is_window:
  assumes "0 < limit"
  shows "snd (run_ops dedup_exec (NewDedup limit) ops) =
      snd (run_ops window_spec_cap (nat limit, []) ops) \<and>
    dedup_inv (fst (run_ops dedup_exec (NewDedup limit) ops))"
proof -
  have "dedup_Cap (NewDedup limit) = nat limit" "dedup_Ids (NewDedup limit) = []"
    by (simp_all add: dedup_Cap_def dedup_Ids_def NewDedup_def)
  then show ?thesis
    using df.run_refines [OF dedup_inv_New [OF assms], of ops] by simp_all
qed

theorem dedup_is_window_witness:
  "snd (run_ops dedup_exec (NewDedup 2) [DAdd ''a'', DAdd ''b'', DAdd ''a'', DAdd ''c'', DHas ''a'', DIds]) =
     [(True, []), (True, []), (False, []), (True, []), (False, []), (False, [''b'', ''c''])]"
  by (subst dedup_is_window [THEN conjunct1]) (simp_all add: window_spec_cap_def window_add_def)

text \<open>
  A processed message is recognised as a duplicate for as long as the window promises.
  After \<open>Add\<close> of an id the window did not hold, the id is still held after any further
  \<open>Cap - 1\<close> additions, known or new.
\<close>

theorem dedup_remembers:
  assumes "dedup_inv d" and "\<not> dedup_Has d i" and "length is < dedup_Cap d"
  shows "dedup_Has (foldl (\<lambda>d i. fst (dedup_Add d i)) (fst (dedup_Add d i)) is) i"
  using dw.remembers [OF assms(1), of i "is"] assms
  by (simp add: dedup_Has_Ids dw.adds_inv dedup_inv_Add)

theorem dedup_remembers_witness:
  "dedup_Has (foldl (\<lambda>d i. fst (dedup_Add d i)) (fst (dedup_Add (NewDedup 3) ''m''))
     [''x'', ''y'']) ''m''"
  by (rule dedup_remembers [OF dedup_inv_New])
    (simp_all add: dedup_Cap_def NewDedup_def dedup_Has_def NewSet_def set_Has_def)

text \<open>
  Saving and restoring a window is the identity. \<open>Restore\<close> of the ids that \<open>Ids\<close> of
  any well-formed window returned gives, on an actor whose window is at least as large, a
  window with the same ids in the same order.
\<close>

theorem dedup_save_restore:
  assumes "dedup_inv saved" and "dedup_inv d" and "dedup_Cap saved \<le> dedup_Cap d"
  shows "dedup_Ids (dedup_Restore d (dedup_Ids saved)) = dedup_Ids saved"
  using dedup_Restore_Ids [OF assms(2) dedup_distinct_Ids [OF assms(1)]]
    dedup_Ids_bounded [OF assms(1)] assms(3) by simp

theorem dedup_save_restore_witness:
  "dedup_Ids (dedup_Restore (NewDedup 4) (dedup_Ids (fst (dedup_Add (NewDedup 2) ''m'')))) =
     dedup_Ids (fst (dedup_Add (NewDedup 2) ''m''))"
  by (rule dedup_save_restore)
    (simp_all add: dedup_inv_New dedup_inv_Add, simp add: dedup_Cap_def NewDedup_def)

end
