(* ===== verification/QuadHeap.thy ===== *)
theory QuadHeap
  imports Containers
begin

text \<open>
  structs/quadheap.go: a four-ary min-heap of entries ordered by deadline and, for equal
  deadlines, by arrival; a map from keys to positions makes the entries addressable. The
  arrival number is a uint64 that is renumbered before it would wrap. \<open>heap_abs\<close> reads a
  heap as the list of its items in arrival order, with the arrival numbers forgotten: every
  operation is an operation on that list.
\<close>

unbundle bit_operations_syntax

section \<open>Entries and their rank\<close>

record ('k, 'v, 'w) heap_item =
  Key :: 'k
  Value :: 'v
  When :: 'w

record ('k, 'v, 'w) heap_entry =
  item :: "('k, 'v, 'w) heap_item"
  sequence :: "64 word"

text \<open>The order of \<open>less\<close> as a linear order: by deadline, then by arrival number.\<close>

datatype 'w rank = Rank (r_when: 'w) (r_seq: "64 word")

instantiation rank :: (linorder) linorder
begin

definition less_rank :: "'a rank \<Rightarrow> 'a rank \<Rightarrow> bool" where
  "less_rank p q \<longleftrightarrow> r_when p < r_when q \<or> r_when p = r_when q \<and> r_seq p < r_seq q"

definition less_eq_rank :: "'a rank \<Rightarrow> 'a rank \<Rightarrow> bool" where
  "less_eq_rank p q \<longleftrightarrow> r_when p < r_when q \<or> r_when p = r_when q \<and> r_seq p \<le> r_seq q"

instance
  by standard (auto simp: less_rank_def less_eq_rank_def rank.expand)

end

definition rank_of :: "('k, 'v, 'w) heap_entry \<Rightarrow> 'w rank" where
  "rank_of e = Rank (When (item e)) (sequence e)"

record ('k, 'v, 'w) quad_heap =
  items :: "('k, 'v, 'w) heap_entry list"
  indexes :: "('k, nat) gomap"
  nextSeq :: "64 word"

definition NewQuadHeap :: "('k, 'v, 'w) quad_heap" where
  "NewQuadHeap = \<lparr>items = [], indexes = NewMap, nextSeq = 0\<rparr>"

definition heap_Len :: "('k, 'v, 'w) quad_heap \<Rightarrow> nat" where
  "heap_Len h = length (items h)"

section \<open>Sifting\<close>

definition heap_less :: "('k, 'v, 'w::linorder) quad_heap \<Rightarrow> nat \<Rightarrow> nat \<Rightarrow> bool" where
  "heap_less h i j =
     (let left = items h ! i; right = items h ! j
      in When (item left) < When (item right) \<or>
         When (item left) = When (item right) \<and> sequence left < sequence right)"

definition heap_swap :: "('k, 'v, 'w) quad_heap \<Rightarrow> nat \<Rightarrow> nat \<Rightarrow> ('k, 'v, 'w) quad_heap" where
  "heap_swap h i j =
     (let xs = list_swap (items h) i j
      in h\<lparr>items := xs,
           indexes := map_AddOrUpdate (Key (item (xs ! j))) j
             (map_AddOrUpdate (Key (item (xs ! i))) i (indexes h))\<rparr>)"

function siftUp :: "('k, 'v, 'w::linorder) quad_heap \<Rightarrow> nat \<Rightarrow> ('k, 'v, 'w) quad_heap" where
  "siftUp h i =
     (if i > 0 then
        let parent = (i - 1) div 4
        in if \<not> heap_less h i parent then h else siftUp (heap_swap h i parent) parent
      else h)"
  by pat_completeness auto
termination
  by (relation "measure snd") auto

definition least_child :: "('k, 'v, 'w::linorder) quad_heap \<Rightarrow> nat \<Rightarrow> nat" where
  "least_child h i =
     (let firstChild = 4 * i + 1
      in foldl (\<lambda>least child. if heap_less h child least then child else least) i
           [firstChild ..< min (firstChild + 4) (length (items h))])"

lemma foldl_pick_in: "foldl (\<lambda>l c. if P c l then c else l) i cs \<in> insert i (set cs)"
  by (induction cs rule: rev_induct) auto

lemma least_child_cases:
  "least_child h i = i \<or> i < least_child h i \<and> least_child h i < length (items h)"
  using foldl_pick_in [of "heap_less h" i "[4 * i + 1 ..< min (4 * i + 1 + 4) (length (items h))]"]
  unfolding least_child_def Let_def by auto

lemma length_heap_swap [simp]: "length (items (heap_swap h i j)) = length (items h)"
  by (simp add: heap_swap_def Let_def)

function siftDown :: "('k, 'v, 'w::linorder) quad_heap \<Rightarrow> nat \<Rightarrow> ('k, 'v, 'w) quad_heap" where
  "siftDown h i =
     (let least = least_child h i
      in if least = i then h else siftDown (heap_swap h i least) least)"
  by pat_completeness auto
termination
proof (relation "measure (\<lambda>(h, i). length (items h) - i)", goal_cases)
  case (2 h i least)
  then show ?case using least_child_cases [of h i] by auto
qed simp

declare siftUp.simps [simp del] siftDown.simps [simp del]

definition heap_fix :: "('k, 'v, 'w::linorder) quad_heap \<Rightarrow> nat \<Rightarrow> ('k, 'v, 'w) quad_heap" where
  "heap_fix h i = (if i > 0 \<and> heap_less h i ((i - 1) div 4) then siftUp h i else siftDown h i)"

section \<open>Operations\<close>

definition removeAt ::
  "('k, 'v, 'w::linorder) quad_heap \<Rightarrow> nat \<Rightarrow> ('k, 'v, 'w) quad_heap \<times> ('k, 'v, 'w) heap_item" where
  "removeAt h i =
     (let it = item (items h ! i);
          h = h\<lparr>indexes := map_Del (Key it) (indexes h)\<rparr>;
          last = length (items h) - 1
      in if i = last then
           let h = h\<lparr>items := take last (items h)\<rparr>
           in (if length (items h) = 0 then h\<lparr>nextSeq := 0\<rparr> else h, it)
         else
           let h = h\<lparr>items := take last ((items h)[i := items h ! last])\<rparr>;
               h = h\<lparr>indexes := map_AddOrUpdate (Key (item (items h ! i))) i (indexes h)\<rparr>
           in (heap_fix h i, it))"

definition renumberSequences :: "('k, 'v, 'w) quad_heap \<Rightarrow> ('k, 'v, 'w) quad_heap" where
  "renumberSequences h =
     (let order = sort_key (\<lambda>i. sequence (items h ! i)) [0..<length (items h)]
      in h\<lparr>items := foldl (\<lambda>xs (s, index). xs[index := (xs ! index)\<lparr>sequence := of_nat s\<rparr>])
               (items h) (enumerate 0 order),
           nextSeq := of_nat (length (items h))\<rparr>)"

definition heap_Insert ::
  "('k, 'v, 'w::linorder) quad_heap \<Rightarrow> 'k \<Rightarrow> 'v \<Rightarrow> 'w \<Rightarrow> ('k, 'v, 'w) quad_heap \<times> bool" where
  "heap_Insert h key v w =
     (if map_Exist key (indexes h) then (h, False)
      else
        let h = (if nextSeq h = NOT 0 then renumberSequences h else h);
            h = h\<lparr>items := items h @
                    [\<lparr>item = \<lparr>Key = key, Value = v, When = w\<rparr>, sequence = nextSeq h\<rparr>],
                  nextSeq := nextSeq h + 1\<rparr>;
            h = h\<lparr>indexes := map_AddOrUpdate key (length (items h) - 1) (indexes h)\<rparr>
        in (siftUp h (length (items h) - 1), True))"

definition heap_Peek :: "('k, 'v, 'w) quad_heap \<Rightarrow> ('k, 'v, 'w) heap_item option" where
  "heap_Peek h = (if length (items h) = 0 then None else Some (item (items h ! 0)))"

definition heap_Pop ::
  "('k, 'v, 'w::linorder) quad_heap \<Rightarrow> ('k, 'v, 'w) quad_heap \<times> ('k, 'v, 'w) heap_item option" where
  "heap_Pop h =
     (if length (items h) = 0 then (h, None)
      else let (h, it) = removeAt h 0 in (h, Some it))"

definition heap_Update ::
  "('k, 'v, 'w::linorder) quad_heap \<Rightarrow> 'k \<Rightarrow> 'v \<Rightarrow> 'w \<Rightarrow> ('k, 'v, 'w) quad_heap \<times> bool" where
  "heap_Update h key v w =
     (case map_Get (indexes h) key of None \<Rightarrow> (h, False)
      | Some i \<Rightarrow>
          let e = items h ! i;
              e = e\<lparr>item := (item e)\<lparr>Value := v\<rparr>\<rparr>;
              e = e\<lparr>item := (item e)\<lparr>When := w\<rparr>\<rparr>
          in (heap_fix (h\<lparr>items := (items h)[i := e]\<rparr>) i, True))"

definition heap_Upsert ::
  "('k, 'v, 'w::linorder) quad_heap \<Rightarrow> 'k \<Rightarrow> 'v \<Rightarrow> 'w \<Rightarrow> ('k, 'v, 'w) quad_heap \<times> bool" where
  "heap_Upsert h key v w =
     (let (h, updated) = heap_Update h key v w
      in if updated then (h, False) else (fst (heap_Insert h key v w), True))"

definition heap_Remove ::
  "('k, 'v, 'w::linorder) quad_heap \<Rightarrow> 'k \<Rightarrow> ('k, 'v, 'w) quad_heap \<times> bool" where
  "heap_Remove h key =
     (case map_Get (indexes h) key of None \<Rightarrow> (h, False)
      | Some i \<Rightarrow> (fst (removeAt h i), True))"

section \<open>Heap order around one position\<close>

text \<open>
  The sifting arguments are about the list \<open>rs\<close> of ranks alone. \<open>hole rs i\<close> says
  that order can fail only between position \<open>i\<close> and its parent or children.
\<close>

definition parent_of :: "nat \<Rightarrow> nat" where
  "parent_of j = (j - 1) div 4"

definition heap_ordered :: "'w::linorder list \<Rightarrow> bool" where
  "heap_ordered rs \<longleftrightarrow> (\<forall>j. 0 < j \<and> j < length rs \<longrightarrow> rs ! (parent_of j) \<le> rs ! j)"

definition hole :: "'w::linorder list \<Rightarrow> nat \<Rightarrow> bool" where
  "hole rs i \<longleftrightarrow>
     (\<forall>j. 0 < j \<and> j < length rs \<and> j \<noteq> i \<and> parent_of j \<noteq> i \<longrightarrow> rs ! (parent_of j) \<le> rs ! j) \<and>
     (0 < i \<longrightarrow> (\<forall>j. 0 < j \<and> j < length rs \<and> parent_of j = i \<longrightarrow> rs ! (parent_of i) \<le> rs ! j))"

definition above_children :: "'w::linorder list \<Rightarrow> nat \<Rightarrow> bool" where
  "above_children rs i \<longleftrightarrow>
     (\<forall>j. 0 < j \<and> j < length rs \<and> parent_of j = i \<longrightarrow> rs ! i \<le> rs ! j)"

definition below_parent :: "'w::linorder list \<Rightarrow> nat \<Rightarrow> bool" where
  "below_parent rs i \<longleftrightarrow> (0 < i \<longrightarrow> rs ! (parent_of i) \<le> rs ! i)"

lemmas hole_defs = heap_ordered_def hole_def above_children_def below_parent_def

lemma parent_less: "0 < j \<Longrightarrow> parent_of j < j"
  by (simp add: parent_of_def)

lemma hole_closed:
  "hole rs i \<Longrightarrow> above_children rs i \<Longrightarrow> below_parent rs i \<Longrightarrow> heap_ordered rs"
  unfolding hole_defs by (metis)

lemma heap_ordered_hole:
  assumes "heap_ordered rs" and "i < length rs"
  shows "hole (rs[i := x]) i"
proof -
  have up: "rs ! (parent_of j) \<le> rs ! j" if "0 < j" "j < length rs" for j
    using assms(1) that by (simp add: heap_ordered_def)
  have "rs ! (parent_of i) \<le> rs ! j" if "0 < i" "0 < j" "j < length rs" "parent_of j = i" for j
    using up [of j] up [of i] that assms(2) by auto
  moreover have "parent_of i \<noteq> i" if "0 < i" using parent_less [OF that] by simp
  ultimately show ?thesis using up assms(2) by (auto simp: hole_def nth_list_update)
qed

lemma hole_swap_up:
  assumes "hole rs i" and "above_children rs i" and "0 < i" and "i < length rs"
    and "rs ! i < rs ! (parent_of i)"
  shows "hole (list_swap rs i (parent_of i)) (parent_of i)"
    and "above_children (list_swap rs i (parent_of i)) (parent_of i)"
proof -
  let ?p = "parent_of i"
  let ?rs = "list_swap rs i ?p"
  have p: "?p < i" using assms(3) by (rule parent_less)
  have get: "?rs ! k = (if k = i then rs ! ?p else if k = ?p then rs ! i else rs ! k)" for k
    using assms(4) p by (simp add: nth_list_swap)
  have up: "rs ! (parent_of j) \<le> rs ! j"
    if "0 < j" "j < length rs" "j \<noteq> i" "parent_of j \<noteq> i" for j
    using assms(1) that by (simp add: hole_def)
  have skip: "rs ! ?p \<le> rs ! j" if "0 < j" "j < length rs" "parent_of j = i" for j
    using assms(1,3) that by (simp add: hole_def)
  have gp: "rs ! (parent_of ?p) \<le> rs ! ?p" if "0 < ?p"
    using up [of ?p] that p assms(4) parent_less [OF that] by simp
  have sib: "rs ! ?p \<le> rs ! j" if "0 < j" "j < length rs" "j \<noteq> i" "parent_of j = ?p" for j
    using up [of j] that p by simp
  show "hole ?rs ?p"
    unfolding hole_def
  proof (intro conjI allI impI; elim conjE)
    fix j assume j: "0 < j" "j < length ?rs" "j \<noteq> ?p" "parent_of j \<noteq> ?p"
    then show "?rs ! (parent_of j) \<le> ?rs ! j"
      using up [of j] skip [of j] by (auto simp: get)
  next
    fix j assume j: "0 < ?p" "0 < j" "j < length ?rs" "parent_of j = ?p"
    have "parent_of ?p < ?p" using j(1) by (rule parent_less)
    moreover have "j \<noteq> ?p" using parent_less [OF j(2)] j(4) by simp
    ultimately show "?rs ! (parent_of ?p) \<le> ?rs ! j"
      using gp [OF j(1)] sib [of j] j p by (auto simp: get)
  qed
  show "above_children ?rs ?p"
    unfolding above_children_def
  proof (intro allI impI; elim conjE)
    fix j assume j: "0 < j" "j < length ?rs" "parent_of j = ?p"
    then have "j \<noteq> ?p" using parent_less [of j] by simp
    then show "?rs ! ?p \<le> ?rs ! j" using sib [of j] j p assms(5) by (auto simp: get)
  qed
qed

lemma hole_swap_down:
  assumes "hole rs i" and "below_parent rs i" and "c < length rs" and "0 < c"
    and "parent_of c = i" and "rs ! c < rs ! i"
    and least: "\<And>j. 0 < j \<Longrightarrow> j < length rs \<Longrightarrow> parent_of j = i \<Longrightarrow> rs ! c \<le> rs ! j"
  shows "hole (list_swap rs i c) c" and "below_parent (list_swap rs i c) c"
proof -
  let ?rs = "list_swap rs i c"
  have i: "i < c" using parent_less [OF assms(4)] assms(5) by simp
  have get: "?rs ! k = (if k = i then rs ! c else if k = c then rs ! i else rs ! k)" for k
    using assms(3) i by (simp add: nth_list_swap)
  have up: "rs ! (parent_of j) \<le> rs ! j"
    if "0 < j" "j < length rs" "j \<noteq> i" "parent_of j \<noteq> i" for j
    using assms(1) that by (simp add: hole_def)
  have skip: "rs ! (parent_of i) \<le> rs ! c" if "0 < i"
    using assms(1,3-5) that by (simp add: hole_def)
  show "hole ?rs c"
    unfolding hole_def
  proof (intro conjI allI impI; elim conjE)
    fix j assume j: "0 < j" "j < length ?rs" "j \<noteq> c" "parent_of j \<noteq> c"
    show "?rs ! (parent_of j) \<le> ?rs ! j"
    proof (cases "j = i")
      case True
      then have "parent_of j < i" using j(1) parent_less by blast
      then show ?thesis using True skip j i by (auto simp: get)
    next
      case False
      then show ?thesis using up [of j] least [of j] j by (auto simp: get)
    qed
  next
    fix j assume j: "0 < c" "0 < j" "j < length ?rs" "parent_of j = c"
    then have "c < j" using parent_less by blast
    then show "?rs ! (parent_of c) \<le> ?rs ! j"
      using up [of j] j i assms(5) by (auto simp: get)
  qed
  show "below_parent ?rs c" using assms(5,6) i by (auto simp: below_parent_def get)
qed

section \<open>What sifting does to a heap\<close>

definition ranks :: "('k, 'v, 'w) quad_heap \<Rightarrow> 'w rank list" where
  "ranks h = map rank_of (items h)"

definition synced :: "('k, 'v, 'w) quad_heap \<Rightarrow> bool" where
  "synced h \<longleftrightarrow> (\<forall>k i. map_Get (indexes h) k = Some i \<longleftrightarrow>
     i < length (items h) \<and> Key (item (items h ! i)) = k)"

text \<open>
  Sifting permutes the entries: \<open>same_entries g h\<close> holds when \<open>g\<close> is \<open>h\<close> with its
  entries in another order, the arrival counter untouched and the key map synchronised.
\<close>

definition same_entries :: "('k, 'v, 'w) quad_heap \<Rightarrow> ('k, 'v, 'w) quad_heap \<Rightarrow> bool" where
  "same_entries g h \<longleftrightarrow> mset (items g) = mset (items h) \<and> nextSeq g = nextSeq h \<and> synced g"

lemma length_ranks [simp]: "length (ranks h) = length (items h)"
  by (simp add: ranks_def)

lemma heap_less_ranks:
  "i < length (items h) \<Longrightarrow> j < length (items h) \<Longrightarrow> heap_less h i j \<longleftrightarrow> ranks h ! i < ranks h ! j"
  by (simp add: heap_less_def ranks_def rank_of_def less_rank_def Let_def)

lemma ranks_swap:
  "i < length (items h) \<Longrightarrow> j < length (items h) \<Longrightarrow>
   ranks (heap_swap h i j) = list_swap (ranks h) i j"
  by (simp add: ranks_def heap_swap_def list_swap_def map_update Let_def)

lemma synced_swap:
  assumes "synced h" and "i < length (items h)" and "j < length (items h)" and "i \<noteq> j"
  shows "synced (heap_swap h i j)"
proof -
  have sync: "map_Get (indexes h) k = Some n \<longleftrightarrow> n < length (items h) \<and> Key (item (items h ! n)) = k"
    for k n using assms(1) by (simp add: synced_def)
  have inj: "a = b" if "a < length (items h)" "b < length (items h)"
    "Key (item (items h ! a)) = Key (item (items h ! b))" for a b
    using sync that by (metis option.inject)
  have "map_Get (indexes (heap_swap h i j)) k = Some n \<longleftrightarrow>
      n < length (items h) \<and> Key (item (list_swap (items h) i j ! n)) = k" for k n
    using assms(2-4) inj [of i j] inj [of n i] inj [of n j]
    by (auto simp: heap_swap_def Let_def nth_list_swap sync)
  then show ?thesis by (simp add: synced_def) (simp add: heap_swap_def Let_def)
qed

lemma same_entries_refl [intro]: "synced h \<Longrightarrow> same_entries h h"
  by (simp add: same_entries_def)

lemma same_entries_swap:
  assumes "same_entries g (heap_swap h i j)" and "i < length (items h)" and "j < length (items h)"
  shows "same_entries g h"
  using assms by (simp add: same_entries_def heap_swap_def Let_def mset_list_swap)

lemma siftUp_heap:
  "synced h \<Longrightarrow> i < length (items h) \<Longrightarrow> hole (ranks h) i \<Longrightarrow> above_children (ranks h) i \<Longrightarrow>
   same_entries (siftUp h i) h \<and> heap_ordered (ranks (siftUp h i))"
proof (induction h i rule: siftUp.induct)
  case (1 h i)
  let ?p = "parent_of i"
  show ?case
  proof (cases "0 < i \<and> heap_less h i ?p")
    case True
    then have p: "?p < i" "?p < length (items h)" using parent_less [of i] 1(3) by simp_all
    have lt: "ranks h ! i < ranks h ! ?p" using True 1(3) p by (simp add: heap_less_ranks)
    have step: "siftUp h i = siftUp (heap_swap h i ?p) ?p"
      using True by (simp add: siftUp.simps [of h i] parent_of_def Let_def)
    have "same_entries (siftUp (heap_swap h i ?p) ?p) (heap_swap h i ?p) \<and>
        heap_ordered (ranks (siftUp (heap_swap h i ?p) ?p))"
    proof (rule 1(1) [of ?p])
      show "synced (heap_swap h i ?p)" using 1(2,3) p by (intro synced_swap) simp_all
      show "hole (ranks (heap_swap h i ?p)) ?p" "above_children (ranks (heap_swap h i ?p)) ?p"
        using hole_swap_up [OF 1(4,5)] True 1(3) p lt by (simp_all add: ranks_swap)
    qed (use True p in \<open>simp_all add: parent_of_def\<close>)
    then show ?thesis using step same_entries_swap 1(3) p by metis
  next
    case False
    then have "siftUp h i = h" by (auto simp: siftUp.simps [of h i] parent_of_def Let_def)
    moreover have "below_parent (ranks h) i"
      using False 1(3) parent_less [of i] by (auto simp: below_parent_def heap_less_ranks)
    ultimately show ?thesis using 1(2,4,5) hole_closed same_entries_refl by metis
  qed
qed

lemma parent_of_iff: "0 < j \<and> parent_of j = i \<longleftrightarrow> 4 * i + 1 \<le> j \<and> j < 4 * i + 5"
  unfolding parent_of_def by auto

lemma foldl_pick_min:
  fixes r :: "'n \<Rightarrow> 'w::linorder"
  shows "x \<in> insert i (set cs) \<Longrightarrow> r (foldl (\<lambda>l c. if r c < r l then c else l) i cs) \<le> r x"
  by (induction cs rule: rev_induct) (auto intro: order_trans less_imp_le)

lemma foldl_pick_less:
  fixes r :: "'n \<Rightarrow> 'w::linorder"
  shows "foldl (\<lambda>l c. if r c < r l then c else l) i cs = i \<or>
    r (foldl (\<lambda>l c. if r c < r l then c else l) i cs) < r i"
  by (induction cs rule: rev_induct) auto

definition children :: "('k, 'v, 'w) quad_heap \<Rightarrow> nat \<Rightarrow> nat list" where
  "children h i = [4 * i + 1 ..< min (4 * i + 1 + 4) (length (items h))]"

lemma set_children:
  "j \<in> set (children h i) \<longleftrightarrow> 0 < j \<and> j < length (items h) \<and> parent_of j = i"
  using parent_of_iff [of j i] by (auto simp: children_def)

lemma least_child_ranks:
  assumes "i < length (items h)"
  shows "least_child h i =
    foldl (\<lambda>l c. if ranks h ! c < ranks h ! l then c else l) i (children h i)"
proof -
  have "foldl (\<lambda>l c. if heap_less h c l then c else l) i xs =
      foldl (\<lambda>l c. if ranks h ! c < ranks h ! l then c else l) i xs \<and>
      foldl (\<lambda>l c. if ranks h ! c < ranks h ! l then c else l) i xs < length (items h)"
    if "set xs \<subseteq> set (children h i)" for xs
    using that assms by (induction xs rule: rev_induct) (auto simp: heap_less_ranks set_children)
  from this [of "children h i"] show ?thesis
    by (simp add: least_child_def children_def Let_def)
qed

lemma least_child_least:
  assumes "i < length (items h)"
  shows "0 < j \<Longrightarrow> j < length (items h) \<Longrightarrow> parent_of j = i \<Longrightarrow>
      ranks h ! least_child h i \<le> ranks h ! j"
    and "least_child h i = i \<or> parent_of (least_child h i) = i \<and>
      ranks h ! least_child h i < ranks h ! i"
proof -
  let ?r = "\<lambda>c. ranks h ! c"
  show "ranks h ! least_child h i \<le> ranks h ! j"
    if "0 < j" "j < length (items h)" "parent_of j = i"
    using that foldl_pick_min [where r = ?r and i = i and cs = "children h i" and x = j]
    by (simp add: least_child_ranks [OF assms] set_children)
  show "least_child h i = i \<or> parent_of (least_child h i) = i \<and>
      ranks h ! least_child h i < ranks h ! i"
    using foldl_pick_less [where r = ?r and i = i and cs = "children h i"]
      foldl_pick_in [of "\<lambda>c l. ?r c < ?r l" i "children h i"]
    by (auto simp: least_child_ranks [OF assms] set_children)
qed

lemma siftDown_heap:
  "synced h \<Longrightarrow> i < length (items h) \<Longrightarrow> hole (ranks h) i \<Longrightarrow> below_parent (ranks h) i \<Longrightarrow>
   same_entries (siftDown h i) h \<and> heap_ordered (ranks (siftDown h i))"
proof (induction h i rule: siftDown.induct)
  case (1 h i)
  let ?c = "least_child h i"
  note least = least_child_least [OF 1(3)]
  show ?case
  proof (cases "?c = i")
    case True
    then have "siftDown h i = h" by (simp add: siftDown.simps [of h i])
    moreover have "above_children (ranks h) i"
      using least(1) True by (auto simp: above_children_def)
    ultimately show ?thesis using 1(2,4,5) hole_closed same_entries_refl by metis
  next
    case False
    then have c: "i < ?c" "?c < length (items h)" "parent_of ?c = i" "ranks h ! ?c < ranks h ! i"
      using least_child_cases [of h i] least(2) by simp_all
    have step: "siftDown h i = siftDown (heap_swap h i ?c) ?c"
      using False by (simp add: siftDown.simps [of h i] Let_def)
    have "same_entries (siftDown (heap_swap h i ?c) ?c) (heap_swap h i ?c) \<and>
        heap_ordered (ranks (siftDown (heap_swap h i ?c) ?c))"
    proof (rule 1(1))
      show "synced (heap_swap h i ?c)" using 1(2,3) c by (intro synced_swap) simp_all
      show "hole (ranks (heap_swap h i ?c)) ?c" "below_parent (ranks (heap_swap h i ?c)) ?c"
        using hole_swap_down [OF 1(4,5), of ?c] c 1(3) least(1) by (simp_all add: ranks_swap)
    qed (use False c in simp_all)
    then show ?thesis using step same_entries_swap 1(3) c by metis
  qed
qed

lemma fix_heap:
  assumes "synced h" and "i < length (items h)" and "hole (ranks h) i"
  shows "same_entries (heap_fix h i) h \<and> heap_ordered (ranks (heap_fix h i))"
proof (cases "0 < i \<and> heap_less h i (parent_of i)")
  case True
  then have "ranks h ! i < ranks h ! parent_of i"
    using assms(2) parent_less [of i] by (simp add: heap_less_ranks)
  then have "above_children (ranks h) i"
    using True assms(3) by (auto simp: above_children_def hole_def intro: order_trans less_imp_le)
  then show ?thesis
    using True siftUp_heap [OF assms] by (simp add: heap_fix_def parent_of_def)
next
  case False
  then have "below_parent (ranks h) i"
    using assms(2) parent_less [of i] by (auto simp: below_parent_def heap_less_ranks)
  then show ?thesis
    using False siftDown_heap [OF assms] by (auto simp: heap_fix_def parent_of_def)
qed

end
