(* ===== verification/QuadHeapSpec.thy ===== *)
theory QuadHeapSpec
  imports QuadHeap
begin

text \<open>
  The correctness of the heap of structs/quadheap.go: the invariant that every operation keeps
  and the effect of every operation on \<open>heap_abs\<close>, the items in arrival order.
\<close>

section \<open>Invariant and abstraction\<close>

definition seqs_ok :: "('k, 'v, 'w) quad_heap \<Rightarrow> bool" where
  "seqs_ok h \<longleftrightarrow> distinct (map sequence (items h)) \<and> (\<forall>e \<in> set (items h). sequence e < nextSeq h)"

definition heap_inv :: "('k, 'v, 'w::linorder) quad_heap \<Rightarrow> bool" where
  "heap_inv h \<longleftrightarrow> synced h \<and> heap_ordered (ranks h) \<and> seqs_ok h"

definition heap_abs :: "('k, 'v, 'w) quad_heap \<Rightarrow> ('k, 'v, 'w) heap_item list" where
  "heap_abs h = map item (sort_key sequence (items h))"

lemma set_heap_abs: "set (heap_abs h) = item ` set (items h)"
  by (simp add: heap_abs_def)

lemma length_heap_abs [simp]: "length (heap_abs h) = length (items h)"
  by (simp add: heap_abs_def)

lemma seqs_inj: "seqs_ok h \<Longrightarrow> inj_on sequence (set (items h))"
  by (simp add: seqs_ok_def distinct_map)

lemma same_entries_inv:
  assumes "same_entries g h" and "heap_ordered (ranks g)" and "seqs_ok h"
  shows "heap_inv g" and "heap_abs g = heap_abs h"
proof -
  have m: "mset (items g) = mset (items h)" and n: "nextSeq g = nextSeq h" and "synced g"
    using assms(1) by (simp_all add: same_entries_def)
  have "mset (map sequence (items g)) = mset (map sequence (items h))" using m by simp
  then have "distinct (map sequence (items g))"
    using assms(3) by (metis mset_eq_imp_distinct_iff seqs_ok_def)
  then have "seqs_ok g"
    using assms(3) n mset_eq_setD [OF m] by (simp add: seqs_ok_def)
  then show "heap_inv g" using \<open>synced g\<close> assms(2) by (simp add: heap_inv_def)
  show "heap_abs g = heap_abs h"
    using sort_key_cong_mset [OF m seqs_inj [OF \<open>seqs_ok g\<close>]] by (simp add: heap_abs_def)
qed

lemma synced_distinct_keys: "synced h \<Longrightarrow> distinct (map (Key \<circ> item) (items h))"
  unfolding synced_def distinct_conv_nth by (simp, metis option.inject)

lemma heap_abs_keys:
  assumes "heap_inv h"
  shows "distinct (map Key (heap_abs h))"
    and "k \<in> Key ` set (heap_abs h) \<longleftrightarrow> map_Get (indexes h) k \<noteq> None"
proof -
  have sync: "synced h" using assms by (simp add: heap_inv_def)
  have "mset (map Key (heap_abs h)) = mset (map (Key \<circ> item) (items h))"
    by (simp add: heap_abs_def)
  then show "distinct (map Key (heap_abs h))"
    using synced_distinct_keys [OF sync] by (metis mset_eq_imp_distinct_iff)
  show "k \<in> Key ` set (heap_abs h) \<longleftrightarrow> map_Get (indexes h) k \<noteq> None"
    using sync unfolding set_heap_abs synced_def
    by (auto simp: in_set_conv_nth image_iff) (metis nth_mem)
qed

lemma heap_inv_New [keeps]: "heap_inv NewQuadHeap"
  by (simp add: heap_inv_def synced_def heap_ordered_def seqs_ok_def NewQuadHeap_def)

lemma heap_abs_New [simp]: "heap_abs NewQuadHeap = []"
  by (simp add: heap_abs_def NewQuadHeap_def)

section \<open>Update and removal\<close>

lemma heap_Update_absent:
  "map_Get (indexes h) k = None \<Longrightarrow> heap_Update h k v w = (h, False)"
  by (simp add: heap_Update_def)

lemma heap_Update_present:
  assumes "heap_inv h" and "map_Get (indexes h) k = Some i"
  shows "heap_inv (fst (heap_Update h k v w))"
    and "heap_abs (fst (heap_Update h k v w)) =
      map (\<lambda>x. if Key x = k then x\<lparr>Value := v, When := w\<rparr> else x) (heap_abs h)"
proof -
  let ?upd = "\<lambda>x. if Key x = k then x\<lparr>Value := v, When := w\<rparr> else x"
  let ?g = "\<lambda>e. e\<lparr>item := ?upd (item e)\<rparr>"
  let ?h = "h\<lparr>items := (items h)[i := (items h ! i)\<lparr>item := (item (items h ! i))\<lparr>Value := v, When := w\<rparr>\<rparr>]\<rparr>"
  have sync: "synced h" and ord: "heap_ordered (ranks h)" and seqs: "seqs_ok h"
    using assms(1) by (simp_all add: heap_inv_def)
  have i: "i < length (items h)" "Key (item (items h ! i)) = k"
    using sync assms(2) by (auto simp: synced_def)
  have keys: "Key (item (items h ! j)) = k \<longleftrightarrow> j = i" if "j < length (items h)" for j
    using sync assms(2) i that by (auto simp: synced_def) (metis option.inject)
  have items: "items ?h = map ?g (items h)"
    using i keys by (intro nth_equalityI) (auto simp: nth_list_update)
  have fix_eq: "heap_Update h k v w = (heap_fix ?h i, True)"
    using assms(2) by (simp add: heap_Update_def Let_def)
  have "synced ?h" using sync i by (auto simp: synced_def nth_list_update)
  moreover have "ranks ?h = (ranks h)[i := rank_of (items ?h ! i)]"
    using i by (simp add: ranks_def map_update)
  ultimately have fixed: "same_entries (heap_fix ?h i) ?h" "heap_ordered (ranks (heap_fix ?h i))"
    using fix_heap [of ?h i] heap_ordered_hole [OF ord, of i] i by simp_all
  have seq_g: "sequence (?g e) = sequence e" for e by simp
  have "seqs_ok ?h" using seqs unfolding seqs_ok_def items by (simp add: o_def)
  note res = same_entries_inv [OF fixed this]
  show "heap_inv (fst (heap_Update h k v w))" using res fix_eq by simp
  have "heap_abs ?h = map item (map ?g (sort_key sequence (items h)))"
    using sort_key_map_same [of sequence ?g, OF seq_g seqs_inj [OF seqs]]
    unfolding heap_abs_def items by simp
  then show "heap_abs (fst (heap_Update h k v w)) = map ?upd (heap_abs h)"
    using res(2) fix_eq by (simp add: heap_abs_def o_def)
qed

text \<open>Removing position \<open>i\<close> removes exactly that item, wherever the last entry lands.\<close>

lemma heap_abs_remove:
  assumes "heap_inv h" and "e \<in> set (items h)" and "mset (items g) = mset (items h) - {#e#}"
  shows "heap_abs g = filter (\<lambda>x. Key x \<noteq> Key (item e)) (heap_abs h)"
proof -
  have inj: "inj_on sequence (set (items h))"
    using assms(1) seqs_inj [of h] by (simp add: heap_inv_def)
  let ?es = "sort_key sequence (items h)"
  have g: "heap_abs g = map item (remove1 e ?es)"
    using sort_key_remove1 [OF assms(3) inj] by (simp add: heap_abs_def)
  have "e \<in> set ?es" using assms(2) by simp
  then obtain us vs where split: "?es = us @ e # vs" "e \<notin> set us"
    by (meson split_list_first)
  have dist: "distinct (map (Key \<circ> item) (us @ e # vs))"
    using heap_abs_keys(1) [OF assms(1)] split(1) by (simp only: heap_abs_def map_map)
  have "(Key \<circ> item) e \<notin> (Key \<circ> item) ` (set us \<union> set vs)"
    using dist unfolding image_Un by (auto simp del: comp_apply)
  then have ne: "Key (item x) \<noteq> Key (item e)" if "x \<in> set us \<union> set vs" for x
    using that by (metis comp_apply image_eqI)
  then show ?thesis
    using split unfolding g by (simp add: heap_abs_def remove1_append filter_id_conv)
qed

lemma synced_key_eq:
  assumes "synced h" and "a < length (items h)" and "b < length (items h)"
  shows "Key (item (items h ! a)) = Key (item (items h ! b)) \<longleftrightarrow> a = b"
  using assms by (metis option.inject synced_def)

lemma synced_remove_last:
  assumes "synced h" and "length (items h) = Suc l"
  shows "synced (h\<lparr>indexes := map_Del (Key (item (items h ! l))) (indexes h),
    items := take l (items h), nextSeq := s\<rparr>)"
proof -
  have "map_Get (indexes h) k = Some n \<longleftrightarrow> n < Suc l \<and> Key (item (items h ! n)) = k" for k n
    using assms by (simp add: synced_def)
  moreover have "Key (item (items h ! n)) = Key (item (items h ! l)) \<longleftrightarrow> n = l" if "n < Suc l" for n
    using synced_key_eq [OF assms(1), of n l] assms(2) that by simp
  ultimately show ?thesis using assms(2) by (auto simp: synced_def less_Suc_eq)
qed

lemma synced_remove_move:
  assumes "synced h" and "length (items h) = Suc l" and "i < l"
  shows "synced (h\<lparr>indexes := map_AddOrUpdate (Key (item (items h ! l))) i
      (map_Del (Key (item (items h ! i))) (indexes h)),
    items := take l ((items h)[i := items h ! l])\<rparr>)"
proof -
  let ?k = "\<lambda>n. Key (item (items h ! n))"
  have sync: "map_Get (indexes h) k = Some n \<longleftrightarrow> n < Suc l \<and> ?k n = k" for k n
    using assms by (simp add: synced_def)
  have eq: "?k a = ?k b \<longleftrightarrow> a = b" if "a < Suc l" "b < Suc l" for a b
    using synced_key_eq [OF assms(1), of a b] assms(2) that by simp
  show ?thesis
    unfolding synced_def
  proof (intro allI)
    fix k n
    have entry: "Key (item (take l ((items h)[i := items h ! l]) ! n)) = (if n = i then ?k l else ?k n)"
      if "n < l" using that assms(2,3) by simp
    have "(if k = ?k l then Some i else if k = ?k i then None else map_Get (indexes h) k) = Some n
        \<longleftrightarrow> n < l \<and> (if n = i then ?k l else ?k n) = k"
      using assms(3) sync [of k n] eq [of n l] eq [of n i] eq [of i l] by auto
    then show "(map_Get (indexes (h\<lparr>indexes := map_AddOrUpdate (?k l) i (map_Del (?k i) (indexes h)),
          items := take l ((items h)[i := items h ! l])\<rparr>)) k = Some n) =
        (n < length (items (h\<lparr>indexes := map_AddOrUpdate (?k l) i (map_Del (?k i) (indexes h)),
          items := take l ((items h)[i := items h ! l])\<rparr>)) \<and>
         Key (item (items (h\<lparr>indexes := map_AddOrUpdate (?k l) i (map_Del (?k i) (indexes h)),
          items := take l ((items h)[i := items h ! l])\<rparr>) ! n)) = k)"
      using entry assms(2) by (simp cong: if_cong) (metis entry)
  qed
qed

lemma heap_ordered_take: "heap_ordered rs \<Longrightarrow> heap_ordered (take l rs)"
  unfolding heap_ordered_def by (auto dest: parent_less)

lemma hole_take:
  assumes "hole rs i" and "i < l"
  shows "hole (take l rs) i"
proof -
  have "parent_of i < l" if "0 < i" using parent_less [OF that] assms(2) by simp
  then show ?thesis using assms unfolding hole_def by (auto dest: parent_less)
qed

lemma removeAt_item: "snd (removeAt h i) = item (items h ! i)"
  by (simp add: removeAt_def Let_def)

lemma removeAt_last:
  assumes "heap_inv h" and "length (items h) = Suc l"
  shows "heap_inv (fst (removeAt h l)) \<and>
    mset (items (fst (removeAt h l))) = mset (items h) - {#items h ! l#}"
proof -
  let ?h = "h\<lparr>indexes := map_Del (Key (item (items h ! l))) (indexes h),
    items := take l (items h), nextSeq := if l = 0 then 0 else nextSeq h\<rparr>"
  have sync: "synced h" and ord: "heap_ordered (ranks h)" and seqs: "seqs_ok h"
    using assms(1) by (simp_all add: heap_inv_def)
  have r: "fst (removeAt h l) = ?h"
    using assms(2) by (auto simp: removeAt_def Let_def)
  have "seqs_ok ?h"
    using seqs by (auto simp: seqs_ok_def take_map [symmetric] dest: in_set_takeD)
  moreover have "ranks ?h = take l (ranks h)" by (simp add: ranks_def take_map)
  ultimately show ?thesis
    using synced_remove_last [OF sync assms(2)] ord mset_take_move_last [OF assms(2), of l]
    by (simp add: r heap_inv_def heap_ordered_take)
qed

lemma removeAt_move:
  assumes "heap_inv h" and "length (items h) = Suc l" and "i < l"
  shows "heap_inv (fst (removeAt h i)) \<and>
    mset (items (fst (removeAt h i))) = mset (items h) - {#items h ! i#}"
proof -
  let ?h = "h\<lparr>indexes := map_AddOrUpdate (Key (item (items h ! l))) i
      (map_Del (Key (item (items h ! i))) (indexes h)),
    items := take l ((items h)[i := items h ! l])\<rparr>"
  have sync: "synced h" and ord: "heap_ordered (ranks h)" and seqs: "seqs_ok h"
    using assms(1) by (simp_all add: heap_inv_def)
  have eta: "heap_fix ?h i = heap_fix (h\<lparr>items := take l ((items h)[i := items h ! l]),
      indexes := map_AddOrUpdate (Key (item (items h ! l))) i
        (map_Del (Key (item (items h ! i))) (indexes h))\<rparr>) i"
    by (rule arg_cong [where f = "\<lambda>g. heap_fix g i"]) simp
  have r: "fst (removeAt h i) = heap_fix ?h i"
    unfolding eta using assms(2,3) by (simp add: removeAt_def Let_def)
  have m: "mset (items ?h) = mset (items h) - {#items h ! i#}"
    using mset_take_move_last [OF assms(2), of i] assms(3) by simp
  have "ranks ?h = take l ((ranks h)[i := rank_of (items h ! l)])"
    by (simp add: ranks_def take_map [symmetric] map_update)
  then have "hole (ranks ?h) i"
    using hole_take [OF heap_ordered_hole [OF ord], of i l] assms(2,3) by simp
  then have fixed: "same_entries (heap_fix ?h i) ?h" "heap_ordered (ranks (heap_fix ?h i))"
    using fix_heap [of ?h i] synced_remove_move [OF sync assms(2,3)] assms(2,3) by simp_all
  have "map sequence (items ?h) =
      take l ((map sequence (items h))[i := map sequence (items h) ! l])"
    using assms(2) by (simp add: take_map [symmetric] map_update)
  then have "distinct (map sequence (items ?h))"
    using distinct_take_move_last [of "map sequence (items h)" l i] seqs assms(2,3)
    by (simp add: seqs_ok_def)
  moreover have "\<forall>e \<in> set (items ?h). sequence e < nextSeq h"
    using seqs m by (metis in_diffD seqs_ok_def set_mset_mset)
  ultimately have "seqs_ok ?h" by (simp add: seqs_ok_def)
  then show ?thesis
    using same_entries_inv [OF fixed] fixed(1) m by (simp add: r same_entries_def)
qed

lemma removeAt_heap:
  assumes "heap_inv h" and "i < length (items h)"
  shows "heap_inv (fst (removeAt h i))"
    and "heap_abs (fst (removeAt h i)) =
      filter (\<lambda>x. Key x \<noteq> Key (item (items h ! i))) (heap_abs h)"
proof -
  obtain l where l: "length (items h) = Suc l" using assms(2) by (cases "length (items h)") auto
  have "heap_inv (fst (removeAt h i)) \<and>
      mset (items (fst (removeAt h i))) = mset (items h) - {#items h ! i#}"
    using removeAt_last [OF assms(1) l] removeAt_move [OF assms(1) l, of i] assms(2) l
    by (cases "i = l") auto
  then show "heap_inv (fst (removeAt h i))" and "heap_abs (fst (removeAt h i)) =
      filter (\<lambda>x. Key x \<noteq> Key (item (items h ! i))) (heap_abs h)"
    using heap_abs_remove [OF assms(1) nth_mem [OF assms(2)]] by auto
qed

lemma heap_Remove_absent: "map_Get (indexes h) k = None \<Longrightarrow> heap_Remove h k = (h, False)"
  by (simp add: heap_Remove_def)

lemma heap_Remove_abs:
  assumes "heap_inv h"
  shows "heap_inv (fst (heap_Remove h k))"
    and "heap_abs (fst (heap_Remove h k)) = filter (\<lambda>x. Key x \<noteq> k) (heap_abs h)"
    and "snd (heap_Remove h k) \<longleftrightarrow> k \<in> Key ` set (heap_abs h)"
proof -
  have known: "k \<in> Key ` set (heap_abs h) \<longleftrightarrow> map_Get (indexes h) k \<noteq> None"
    using assms by (rule heap_abs_keys)
  then show "snd (heap_Remove h k) \<longleftrightarrow> k \<in> Key ` set (heap_abs h)"
    by (simp add: heap_Remove_def split: option.split)
  show "heap_inv (fst (heap_Remove h k))"
    and "heap_abs (fst (heap_Remove h k)) = filter (\<lambda>x. Key x \<noteq> k) (heap_abs h)"
  proof (atomize (full), cases "map_Get (indexes h) k")
    case None
    then have "\<forall>x \<in> set (heap_abs h). Key x \<noteq> k" using known by auto
    then show "heap_inv (fst (heap_Remove h k)) \<and>
        heap_abs (fst (heap_Remove h k)) = filter (\<lambda>x. Key x \<noteq> k) (heap_abs h)"
      using None assms by (simp add: heap_Remove_absent)
  next
    case (Some i)
    then have "i < length (items h)" "Key (item (items h ! i)) = k"
      using assms by (auto simp: heap_inv_def synced_def)
    then show "heap_inv (fst (heap_Remove h k)) \<and>
        heap_abs (fst (heap_Remove h k)) = filter (\<lambda>x. Key x \<noteq> k) (heap_abs h)"
      using removeAt_heap [OF assms] Some by (simp add: heap_Remove_def)
  qed
qed

section \<open>Renumbering\<close>

text \<open>
  Renumbering gives the entry with the \<open>s\<close>-th smallest arrival number the number \<open>s\<close>,
  in place: positions, keys and the arrival order stay.
\<close>

lemma foldl_renumber:
  "distinct ord \<Longrightarrow> set ord \<subseteq> {..<length xs} \<Longrightarrow>
   length (foldl (\<lambda>xs (s, i). xs[i := (xs ! i)\<lparr>sequence := of_nat s\<rparr>]) xs (enumerate k ord)) =
     length xs \<and>
   (\<forall>j < length xs. foldl (\<lambda>xs (s, i). xs[i := (xs ! i)\<lparr>sequence := of_nat s\<rparr>]) xs
       (enumerate k ord) ! j =
     (if j \<in> set ord then (xs ! j)\<lparr>sequence := of_nat (k + length (takeWhile (\<lambda>i. i \<noteq> j) ord))\<rparr>
      else xs ! j))"
proof (induction ord arbitrary: xs k)
  case (Cons i ord)
  let ?xs = "xs[i := (xs ! i)\<lparr>sequence := of_nat k\<rparr>]"
  have "distinct ord" "set ord \<subseteq> {..<length ?xs}" using Cons.prems by auto
  note IH = Cons.IH [OF this, of "Suc k"]
  have "i < length xs" "i \<notin> set ord" using Cons.prems by auto
  then show ?case using IH by (auto simp: nth_list_update)
qed simp

lemma takeWhile_nth:
  "distinct xs \<Longrightarrow> s < length xs \<Longrightarrow> length (takeWhile (\<lambda>i. i \<noteq> xs ! s) xs) = s"
proof (induction xs arbitrary: s)
  case (Cons x xs)
  then show ?case by (cases s) auto
qed simp

definition seq_order :: "('k, 'v, 'w) quad_heap \<Rightarrow> nat list" where
  "seq_order h = sort_key (\<lambda>i. sequence (items h ! i)) [0..<length (items h)]"

lemma seq_order_perm:
  "distinct (seq_order h)" "set (seq_order h) = {..<length (items h)}"
  "length (seq_order h) = length (items h)"
  by (auto simp: seq_order_def)

lemma renumber_items:
  assumes "s < length (items h)"
  shows "items (renumberSequences h) ! (seq_order h ! s) =
      (items h ! (seq_order h ! s))\<lparr>sequence := of_nat s\<rparr>"
    and "length (items (renumberSequences h)) = length (items h)"
  using foldl_renumber [of "seq_order h" "items h" 0] takeWhile_nth [of "seq_order h" s] assms
    seq_order_perm [of h] nth_mem [of s "seq_order h"]
  by (auto simp: renumberSequences_def seq_order_def [symmetric] Let_def)

lemma renumber_nth:
  assumes "j < length (items h)"
  obtains s where "s < length (items h)" and "j = seq_order h ! s"
  using assms seq_order_perm [of h] by (metis in_set_conv_nth lessThan_iff)

lemma renumber_item [simp]:
  assumes "j < length (items h)"
  shows "item (items (renumberSequences h) ! j) = item (items h ! j)"
proof -
  obtain s where "s < length (items h)" "j = seq_order h ! s" using renumber_nth [OF assms] .
  then show ?thesis using renumber_items(1) [of s h] by simp
qed

lemma mset_seq_order: "length xs = length (items h) \<Longrightarrow> mset (map ((!) xs) (seq_order h)) = mset xs"
proof -
  assume len: "length xs = length (items h)"
  have "mset (map ((!) xs) (seq_order h)) = mset (map ((!) xs) [0..<length xs])"
    by (simp add: seq_order_def len del: upt_Suc)
  then show ?thesis by (simp only: map_nth)
qed

lemma sorted_by_order:
  assumes "seqs_ok h"
  shows "sort_key sequence (items h) = map ((!) (items h)) (seq_order h)"
proof (rule sort_key_inj_key_eq)
  have "sorted (map (\<lambda>i. sequence (items h ! i)) (seq_order h))"
    unfolding seq_order_def by (rule sorted_sort_key)
  then show "sorted (map sequence (map ((!) (items h)) (seq_order h)))" by (simp add: o_def)
  show "mset (items h) = mset (map ((!) (items h)) (seq_order h))"
    by (rule mset_seq_order [symmetric]) simp
qed (rule seqs_inj [OF assms])

lemma seq_order_strict:
  assumes "seqs_ok h" and "s < t" and "t < length (items h)"
  shows "sequence (items h ! (seq_order h ! s)) < sequence (items h ! (seq_order h ! t))"
proof -
  have "sorted (map sequence (map ((!) (items h)) (seq_order h)))"
    using sorted_by_order [OF assms(1)] by (metis sorted_sort_key)
  moreover have "distinct (map sequence (map ((!) (items h)) (seq_order h)))"
    using assms(1) unfolding seqs_ok_def
    by (metis mset_eq_imp_distinct_iff mset_map mset_seq_order)
  ultimately have "sorted_wrt (<) (map sequence (map ((!) (items h)) (seq_order h)))"
    by (simp only: strict_sorted_iff)
  then show ?thesis
    using assms(2,3) seq_order_perm(3) [of h] by (simp add: sorted_wrt_iff_nth_less)
qed

lemma renumber_less_iff:
  assumes "seqs_ok h" and "length (items h) < 2 ^ 64"
    and "i < length (items h)" and "j < length (items h)"
  shows "sequence (items (renumberSequences h) ! i) \<le> sequence (items (renumberSequences h) ! j)
    \<longleftrightarrow> sequence (items h ! i) \<le> sequence (items h ! j)"
proof -
  obtain s where s: "s < length (items h)" "i = seq_order h ! s" using renumber_nth assms(3) .
  obtain t where t: "t < length (items h)" "j = seq_order h ! t" using renumber_nth assms(4) .
  have "(of_nat s :: 64 word) \<le> of_nat t \<longleftrightarrow> s \<le> t"
    using s(1) t(1) assms(2) by (intro of_nat_word64_le) simp_all
  moreover have "sequence (items h ! i) \<le> sequence (items h ! j) \<longleftrightarrow> s \<le> t"
    using seq_order_strict [OF assms(1), of s t] seq_order_strict [OF assms(1), of t s] s t
    by (cases s t rule: linorder_cases) auto
  ultimately show ?thesis using renumber_items(1) [of s h] renumber_items(1) [of t h] s t by simp
qed

lemma renumber_heap:
  assumes "heap_inv h" and "length (items h) < 2 ^ 64 - 1"
  shows "heap_inv (renumberSequences h)" and "heap_abs (renumberSequences h) = heap_abs h"
    and "nextSeq (renumberSequences h) < NOT 0"
proof -
  let ?g = "renumberSequences h" and ?n = "length (items h)"
  have seqs: "seqs_ok h" and sync: "synced h" and ord: "heap_ordered (ranks h)"
    using assms(1) by (simp_all add: heap_inv_def)
  have n: "?n < 2 ^ 64" using assms(2) by simp
  have len: "length (items ?g) = ?n"
    using renumber_items(2) [of 0 h] by (cases "?n = 0") (auto simp: renumberSequences_def)
  have next_seq: "nextSeq ?g = of_nat ?n" by (simp add: renumberSequences_def Let_def)
  have number: "sequence (items ?g ! (seq_order h ! s)) = of_nat s" if "s < ?n" for s
    using renumber_items(1) [OF that] by simp
  have seq_list: "map sequence (map ((!) (items ?g)) (seq_order h)) = map of_nat [0..<?n]"
    by (rule nth_equalityI) (simp_all add: seq_order_perm(3) number)
  have strict: "sorted_wrt (<) (map (of_nat :: nat \<Rightarrow> 64 word) [0..<?n])"
    using n by (simp add: sorted_wrt_iff_nth_less of_nat_word64_less)
  have m: "mset (map sequence (items ?g)) = mset (map of_nat [0..<?n])"
    using mset_seq_order [OF len] seq_list by (metis mset_map)
  have "distinct (map sequence (items ?g))"
    using strict m by (metis mset_eq_imp_distinct_iff strict_sorted_iff)
  moreover have "\<forall>e \<in> set (items ?g). sequence e < nextSeq ?g"
  proof
    fix e assume "e \<in> set (items ?g)"
    then have "sequence e \<in> set (map of_nat [0..<?n])"
      using mset_eq_setD [OF m] by auto
    then show "sequence e < nextSeq ?g"
      using n by (auto simp: next_seq of_nat_word64_less)
  qed
  ultimately have seqs_g: "seqs_ok ?g" by (simp add: seqs_ok_def)
  have "synced ?g" using sync renumber_item [of _ h] len
    unfolding synced_def by (auto simp: renumberSequences_def Let_def)
  moreover have "heap_ordered (ranks ?g)"
    unfolding heap_ordered_def
  proof (intro allI impI; elim conjE)
    fix j assume j: "0 < j" "j < length (ranks ?g)"
    then have p: "parent_of j < ?n" "j < ?n" using parent_less [of j] len by simp_all
    then have "rank_of (items h ! parent_of j) \<le> rank_of (items h ! j)"
      using ord [unfolded heap_ordered_def, rule_format, of j] j by (simp add: ranks_def)
    then show "ranks ?g ! parent_of j \<le> ranks ?g ! j"
      using renumber_less_iff [OF seqs n p] p len
      by (simp add: ranks_def rank_of_def less_eq_rank_def)
  qed
  ultimately show "heap_inv ?g" using seqs_g by (simp add: heap_inv_def)
  have "sort_key sequence (items ?g) = map ((!) (items ?g)) (seq_order h)"
  proof (rule sort_key_inj_key_eq)
    show "sorted (map sequence (map ((!) (items ?g)) (seq_order h)))"
      using strict by (simp only: seq_list strict_sorted_iff)
  qed (rule mset_seq_order [OF len, symmetric], rule seqs_inj [OF seqs_g])
  then show "heap_abs ?g = heap_abs h"
    using sorted_by_order [OF seqs] seq_order_perm(2) [of h] by (simp add: heap_abs_def)
  show "nextSeq ?g < NOT 0"
    using assms(2) by (simp add: next_seq word_less_nat_alt unat_of_nat take_bit_nat_eq_self unat_max_word64)
qed

section \<open>Insertion\<close>

lemma heap_Insert_present: "map_Get (indexes h) k \<noteq> None \<Longrightarrow> heap_Insert h k v w = (h, False)"
  by (simp add: heap_Insert_def)

text \<open>Appending an entry at the end and sifting it up, once the counter has room.\<close>

definition push_entry ::
  "('k, 'v, 'w) quad_heap \<Rightarrow> 'k \<Rightarrow> 'v \<Rightarrow> 'w \<Rightarrow> ('k, 'v, 'w) quad_heap" where
  "push_entry h k v w = h\<lparr>items := items h @
       [\<lparr>item = \<lparr>Key = k, Value = v, When = w\<rparr>, sequence = nextSeq h\<rparr>],
     nextSeq := nextSeq h + 1, indexes := map_AddOrUpdate k (length (items h)) (indexes h)\<rparr>"

lemma heap_Insert_fresh:
  assumes "map_Get (indexes h) k = None"
  shows "heap_Insert h k v w =
    (let g = (if nextSeq h = - 1 then renumberSequences h else h)
     in (siftUp (push_entry g k v w) (length (items g)), True))"
  using assms by (simp add: heap_Insert_def push_entry_def Let_def)

lemma push_entry_heap:
  assumes "heap_inv h" and "map_Get (indexes h) k = None" and "nextSeq h \<noteq> - 1"
  shows "heap_inv (siftUp (push_entry h k v w) (length (items h)))"
    and "heap_abs (siftUp (push_entry h k v w) (length (items h))) =
      heap_abs h @ [\<lparr>Key = k, Value = v, When = w\<rparr>]"
proof -
  let ?g = "push_entry h k v w" and ?n = "length (items h)"
  let ?e = "\<lparr>item = \<lparr>Key = k, Value = v, When = w\<rparr>, sequence = nextSeq h\<rparr>"
  have sync: "synced h" and ord: "heap_ordered (ranks h)" and seqs: "seqs_ok h"
    using assms(1) by (simp_all add: heap_inv_def)
  have "Key (item (items h ! j)) \<noteq> k" if "j < ?n" for j
    using sync assms(2) that unfolding synced_def by (metis option.distinct(1))
  then have synced_g: "synced ?g"
    using sync by (auto simp: synced_def push_entry_def nth_append less_Suc_eq)
  have ranks_g: "ranks ?g = ranks h @ [rank_of ?e]"
    by (simp add: ranks_def push_entry_def)
  have lt: "parent_of j < j" "parent_of j < ?n" if "0 < j" "j < Suc ?n" for j
    using parent_less [OF that(1)] that(2) by simp_all
  have "hole (ranks ?g) ?n"
    unfolding hole_def
  proof (intro conjI allI impI; elim conjE)
    fix j assume "0 < j" "j < length (ranks ?g)" "j \<noteq> ?n"
    then have j: "0 < j" "j < ?n" by (simp_all add: ranks_g)
    then show "ranks ?g ! parent_of j \<le> ranks ?g ! j"
      using ord lt [of j] by (simp add: ranks_g nth_append heap_ordered_def)
  next
    fix j assume "0 < j" "j < length (ranks ?g)" "parent_of j = ?n"
    then show "ranks ?g ! parent_of ?n \<le> ranks ?g ! j" using lt [of j] by (simp add: ranks_g)
  qed
  moreover have "above_children (ranks ?g) ?n"
    unfolding above_children_def
  proof (intro allI impI; elim conjE)
    fix j assume "0 < j" "j < length (ranks ?g)" "parent_of j = ?n"
    then show "ranks ?g ! ?n \<le> ranks ?g ! j" using lt [of j] by (simp add: ranks_g)
  qed
  ultimately have sifted: "same_entries (siftUp ?g ?n) ?g" "heap_ordered (ranks (siftUp ?g ?n))"
    using siftUp_heap [OF synced_g] by (simp_all add: push_entry_def)
  have "seqs_ok ?g"
    using seqs assms(3) by (auto simp: seqs_ok_def push_entry_def less_Suc_word64 less_imp_le)
  note res = same_entries_inv [OF sifted this]
  show "heap_inv (siftUp ?g ?n)" by (rule res(1))
  have "sort_key sequence (items h @ [?e]) = sort_key sequence (items h) @ [?e]"
    using seqs by (intro sort_key_snoc seqs_inj) (simp_all add: seqs_ok_def)
  then show "heap_abs (siftUp ?g ?n) = heap_abs h @ [\<lparr>Key = k, Value = v, When = w\<rparr>]"
    using res(2) by (simp add: heap_abs_def push_entry_def)
qed

lemma heap_Insert_abs:
  assumes "heap_inv h" and "map_Get (indexes h) k = None" and "length (items h) < 2 ^ 63"
  shows "heap_inv (fst (heap_Insert h k v w))" and "snd (heap_Insert h k v w)"
    and "heap_abs (fst (heap_Insert h k v w)) = heap_abs h @ [\<lparr>Key = k, Value = v, When = w\<rparr>]"
proof -
  let ?g = "if nextSeq h = - 1 then renumberSequences h else h"
  have "indexes ?g = indexes h" by (simp add: renumberSequences_def Let_def)
  moreover have "heap_inv ?g" "heap_abs ?g = heap_abs h" "nextSeq ?g \<noteq> - 1"
    using renumber_heap [OF assms(1)] assms(1,3) by auto
  ultimately show "heap_inv (fst (heap_Insert h k v w))" "snd (heap_Insert h k v w)"
    "heap_abs (fst (heap_Insert h k v w)) = heap_abs h @ [\<lparr>Key = k, Value = v, When = w\<rparr>]"
    using push_entry_heap [of ?g k v w] assms(2) by (simp_all add: heap_Insert_fresh Let_def)
qed

section \<open>The minimum\<close>

fun first_min :: "('k, 'v, 'w::linorder) heap_item list \<Rightarrow> ('k, 'v, 'w) heap_item option" where
  "first_min [] = None"
| "first_min (x # xs) =
     (case first_min xs of None \<Rightarrow> Some x | Some y \<Rightarrow> Some (if When x \<le> When y then x else y))"

lemma first_min_split:
  assumes "\<forall>u \<in> set us. When x < When u" and "\<forall>v \<in> set vs. When x \<le> When v"
  shows "first_min (us @ x # vs) = Some x"
proof -
  have vs: "first_min ws = None \<and> ws = [] \<or> (\<exists>y \<in> set ws. first_min ws = Some y)"
    for ws :: "('a, 'b, 'c) heap_item list"
    by (induction ws) (auto split: option.split)
  have "first_min (x # vs) = Some x" using vs [of vs] assms(2) by auto
  with assms(1) show ?thesis by (induction us) (auto simp: not_le)
qed

lemma heap_Peek_abs:
  assumes "heap_inv h"
  shows "heap_Peek h = first_min (heap_abs h)"
proof (cases "items h")
  case Nil
  then show ?thesis by (simp add: heap_Peek_def heap_abs_def)
next
  case (Cons e es)
  have ord: "heap_ordered (ranks h)" and seqs: "seqs_ok h" using assms by (simp_all add: heap_inv_def)
  have root: "ranks h ! 0 \<le> ranks h ! j" if "j < length (items h)" for j
    using that
  proof (induction j rule: less_induct)
    case (less j)
    show ?case
    proof (cases "j = 0")
      case False
      then show ?thesis
        using less.IH [of "parent_of j"] less.prems parent_less [of j] ord
        by (force simp: heap_ordered_def intro: order_trans)
    qed simp
  qed
  then have low: "rank_of e \<le> rank_of x" if "x \<in> set (items h)" for x
    using that Cons by (fastforce simp: in_set_conv_nth ranks_def)
  let ?es = "sort_key sequence (items h)"
  have "e \<in> set (items h)" using Cons by simp
  then have "e \<in> set ?es" by (simp only: set_sort)
  then obtain us vs where split: "?es = us @ e # vs" by (meson split_list)
  have "sorted_wrt (<) (map sequence ?es)"
    unfolding strict_sorted_iff using seqs
    by (metis mset_eq_imp_distinct_iff mset_map mset_sort seqs_ok_def sorted_sort_key)
  then have seq: "\<forall>u \<in> set us. sequence u < sequence e"
    by (simp add: split sorted_wrt_append)
  have mem: "set us \<union> set vs \<subseteq> set (items h)"
    using split by (metis Un_insert_right list.simps(15) set_append set_sort subset_insertI)
  have "first_min (map item us @ item e # map item vs) = Some (item e)"
    using low mem seq
    by (intro first_min_split) (fastforce simp: rank_of_def less_eq_rank_def)+
  then show ?thesis using Cons split by (simp add: heap_Peek_def heap_abs_def)
qed

lemma heap_Pop_empty: "heap_abs h = [] \<Longrightarrow> heap_Pop h = (h, None)"
  by (metis heap_Pop_def length_heap_abs list.size(3))

lemma heap_Pop_abs:
  assumes "heap_inv h" and "heap_Peek h = Some x"
  shows "snd (heap_Pop h) = Some x" and "heap_inv (fst (heap_Pop h))"
    and "heap_abs (fst (heap_Pop h)) = filter (\<lambda>y. Key y \<noteq> Key x) (heap_abs h)"
proof -
  have "0 < length (items h)" "item (items h ! 0) = x"
    using assms(2) by (auto simp: heap_Peek_def split: if_splits)
  then show "snd (heap_Pop h) = Some x" and "heap_inv (fst (heap_Pop h))"
    and "heap_abs (fst (heap_Pop h)) = filter (\<lambda>y. Key y \<noteq> Key x) (heap_abs h)"
    using removeAt_heap [OF assms(1), of 0] removeAt_item [of h 0]
    by (auto simp: heap_Pop_def split: prod.split)
qed

lemma heap_Upsert_abs:
  assumes "heap_inv h" and "length (items h) < 2 ^ 63"
  shows "heap_inv (fst (heap_Upsert h k v w))"
    and "heap_abs (fst (heap_Upsert h k v w)) =
      (if k \<in> Key ` set (heap_abs h)
       then map (\<lambda>x. if Key x = k then x\<lparr>Value := v, When := w\<rparr> else x) (heap_abs h)
       else heap_abs h @ [\<lparr>Key = k, Value = v, When = w\<rparr>])"
    and "snd (heap_Upsert h k v w) \<longleftrightarrow> k \<notin> Key ` set (heap_abs h)"
proof -
  have known: "k \<in> Key ` set (heap_abs h) \<longleftrightarrow> map_Get (indexes h) k \<noteq> None"
    using assms(1) by (rule heap_abs_keys)
  have upd: "snd (heap_Update h k v w) \<longleftrightarrow> map_Get (indexes h) k \<noteq> None"
    by (simp add: heap_Update_def Let_def split: option.split)
  have up: "heap_Upsert h k v w =
      (if map_Get (indexes h) k \<noteq> None then (fst (heap_Update h k v w), False)
       else (fst (heap_Insert h k v w), True))"
    using upd heap_Update_absent [of h k v w]
    by (cases "heap_Update h k v w") (auto simp: heap_Upsert_def)
  show "snd (heap_Upsert h k v w) \<longleftrightarrow> k \<notin> Key ` set (heap_abs h)"
    using known up by simp
  show "heap_inv (fst (heap_Upsert h k v w))"
    and "heap_abs (fst (heap_Upsert h k v w)) =
      (if k \<in> Key ` set (heap_abs h)
       then map (\<lambda>x. if Key x = k then x\<lparr>Value := v, When := w\<rparr> else x) (heap_abs h)
       else heap_abs h @ [\<lparr>Key = k, Value = v, When = w\<rparr>])"
    using heap_Insert_abs [OF assms(1) _ assms(2)] heap_Update_present [OF assms(1)]
    by (cases "map_Get (indexes h) k"; simp add: up known)+
qed

section \<open>The agenda interface\<close>

text \<open>
  What a timer relies on: an agenda of keyed items in arrival order, whose first item to fall
  due is the earliest arrival among the smallest deadlines. Taking items one by one yields
  the agenda sorted by deadline, stably: equal deadlines leave in arrival order.
\<close>

locale keyed_agenda =
  fixes inv :: "'h \<Rightarrow> bool"
    and agenda :: "'h \<Rightarrow> ('k, 'v, 'w::linorder) heap_item list"
    and peek :: "'h \<Rightarrow> ('k, 'v, 'w) heap_item option"
    and remove :: "'h \<Rightarrow> 'k \<Rightarrow> 'h"
  assumes keys_distinct: "inv h \<Longrightarrow> distinct (map Key (agenda h))"
    and peek_min: "inv h \<Longrightarrow> peek h = first_min (agenda h)"
    and remove_inv: "inv h \<Longrightarrow> inv (remove h k)"
    and remove_agenda: "inv h \<Longrightarrow> agenda (remove h k) = filter (\<lambda>x. Key x \<noteq> k) (agenda h)"
begin

lemma peek_empty: "inv h \<Longrightarrow> peek h = None \<longleftrightarrow> agenda h = []"
  by (cases "agenda h") (auto simp: peek_min split: option.splits)

lemma first_min_cases:
  assumes "first_min xs = Some x"
  shows "\<exists>us vs. xs = us @ x # vs \<and> (\<forall>u \<in> set us. When x < When u) \<and> (\<forall>v \<in> set vs. When x \<le> When v)"
  using assms
proof (induction xs arbitrary: x)
  case (Cons y ys)
  show ?case
  proof (cases "first_min ys")
    case None
    then have "ys = []" by (cases ys) (auto split: option.splits)
    then show ?thesis using Cons.prems by (intro exI [of _ "[]"]) simp
  next
    case (Some z)
    then obtain us vs where ys: "ys = us @ z # vs" "\<forall>u \<in> set us. When z < When u"
      "\<forall>v \<in> set vs. When z \<le> When v" using Cons.IH by blast
    show ?thesis
    proof (cases "When y \<le> When z")
      case True
      then have "x = y" using Some Cons.prems by simp
      then show ?thesis using True ys by (intro exI [of _ "[]"] exI [of _ ys]) force
    next
      case False
      then have "x = z" using Some Cons.prems by simp
      then show ?thesis using False ys by (intro exI [of _ "y # us"] exI [of _ vs]) auto
    qed
  qed
qed simp

text \<open>The peeked item is the first of the stable sort, and removing it leaves the rest.\<close>

lemma take_first:
  assumes "inv h" and "peek h = Some x"
  shows "sort_key When (agenda h) = x # sort_key When (agenda (remove h (Key x)))"
    and "length (agenda (remove h (Key x))) < length (agenda h)"
proof -
  obtain us vs where split: "agenda h = us @ x # vs" "\<forall>u \<in> set us. When x < When u"
    "\<forall>v \<in> set vs. When x \<le> When v"
    using first_min_cases peek_min [OF assms(1)] assms(2) by metis
  have "distinct (map Key (us @ x # vs))" using keys_distinct [OF assms(1)] split(1) by simp
  then have "Key x \<notin> Key ` (set us \<union> set vs)" unfolding image_Un by simp
  then have "\<forall>y \<in> set us \<union> set vs. Key y \<noteq> Key x" by (metis image_eqI)
  then have rest: "agenda (remove h (Key x)) = us @ vs"
    using split(1) remove_agenda [OF assms(1), of "Key x"] by (simp add: filter_id_conv)
  show "length (agenda (remove h (Key x))) < length (agenda h)" by (simp add: rest split(1))
  have "sort_key When (us @ x # vs) = x # sort_key When (us @ vs)"
  proof (rule properties_for_sort_key)
    show "filter (\<lambda>y. When k = When y) (x # sort_key When (us @ vs)) =
        filter (\<lambda>y. When k = When y) (us @ x # vs)" for k
    proof -
      have "filter (\<lambda>y. When x = When y) us = []" using split(2) by (force simp: filter_empty_conv)
      then show ?thesis
        using sort_key_stable [of When "When k" "us @ vs"] by (auto simp: eq_commute [of "When k"])
    qed
    show "sorted (map When (x # sort_key When (us @ vs)))"
      using split(2,3) by (auto simp: less_imp_le)
  qed simp
  then show "sort_key When (agenda h) = x # sort_key When (agenda (remove h (Key x)))"
    by (simp add: rest split(1))
qed

end

interpretation qh: keyed_agenda heap_inv heap_abs heap_Peek "\<lambda>h k. fst (heap_Remove h k)"
  by unfold_locales (simp_all add: heap_abs_keys heap_Peek_abs heap_Remove_abs)

text \<open>Popping a heap to the end, which structs/quadheap_test.go does after each scenario.\<close>

fun pop_n :: "nat \<Rightarrow> ('k, 'v, 'w::linorder) quad_heap \<Rightarrow> ('k, 'v, 'w) heap_item list" where
  "pop_n 0 h = []"
| "pop_n (Suc n) h =
     (case heap_Pop h of (_, None) \<Rightarrow> [] | (h', Some x) \<Rightarrow> x # pop_n n h')"

lemma pop_n_sorts:
  "heap_inv h \<Longrightarrow> length (heap_abs h) \<le> n \<Longrightarrow> pop_n n h = sort_key When (heap_abs h)"
proof (induction n arbitrary: h)
  case (Suc n)
  show ?case
  proof (cases "heap_Peek h")
    case None
    then have "heap_abs h = []" using qh.peek_empty Suc.prems(1) by blast
    then show ?thesis by (simp add: heap_Pop_empty)
  next
    case (Some x)
    note pop = heap_Pop_abs [OF Suc.prems(1) Some] heap_Remove_abs [OF Suc.prems(1), of "Key x"]
    then obtain h' where h': "heap_Pop h = (h', Some x)" by (cases "heap_Pop h") auto
    then have "pop_n n h' = sort_key When (heap_abs h')"
      using Suc pop qh.take_first(2) [OF Suc.prems(1) Some] by (intro Suc.IH) simp_all
    then show ?thesis using h' pop qh.take_first(1) [OF Suc.prems(1) Some] by simp
  qed
qed (simp add: heap_abs_def)

section \<open>Every sequence of operations\<close>

datatype ('k, 'v, 'w) heap_op = HInsert 'k 'v 'w | HUpdate 'k 'v 'w | HUpsert 'k 'v 'w
  | HRemove 'k | HPeek | HPop

type_synonym ('k, 'v, 'w) heap_reply = "bool \<times> ('k, 'v, 'w) heap_item option"

fun heap_exec :: "('k, 'v, 'w::linorder) heap_op \<Rightarrow> ('k, 'v, 'w) quad_heap \<Rightarrow>
    ('k, 'v, 'w) quad_heap \<times> ('k, 'v, 'w) heap_reply" where
  "heap_exec (HInsert k v w) h = (fst (heap_Insert h k v w), snd (heap_Insert h k v w), None)"
| "heap_exec (HUpdate k v w) h = (fst (heap_Update h k v w), snd (heap_Update h k v w), None)"
| "heap_exec (HUpsert k v w) h = (fst (heap_Upsert h k v w), snd (heap_Upsert h k v w), None)"
| "heap_exec (HRemove k) h = (fst (heap_Remove h k), snd (heap_Remove h k), None)"
| "heap_exec HPeek h = (h, heap_Peek h \<noteq> None, heap_Peek h)"
| "heap_exec HPop h = (fst (heap_Pop h), snd (heap_Pop h) \<noteq> None, snd (heap_Pop h))"

text \<open>The agenda: items in arrival order; the next one is the first with the least deadline.\<close>

definition reschedule ::
  "('k, 'v, 'w) heap_item list \<Rightarrow> 'k \<Rightarrow> 'v \<Rightarrow> 'w \<Rightarrow> ('k, 'v, 'w) heap_item list" where
  "reschedule l k v w = map (\<lambda>x. if Key x = k then x\<lparr>Value := v, When := w\<rparr> else x) l"

definition cancel :: "('k, 'v, 'w) heap_item list \<Rightarrow> 'k \<Rightarrow> ('k, 'v, 'w) heap_item list" where
  "cancel l k = filter (\<lambda>x. Key x \<noteq> k) l"

fun agenda_spec :: "('k, 'v, 'w::linorder) heap_op \<Rightarrow> ('k, 'v, 'w) heap_item list \<Rightarrow>
    ('k, 'v, 'w) heap_item list \<times> ('k, 'v, 'w) heap_reply" where
  "agenda_spec (HInsert k v w) l =
     (if k \<in> Key ` set l then (l, False, None)
      else (l @ [\<lparr>Key = k, Value = v, When = w\<rparr>], True, None))"
| "agenda_spec (HUpdate k v w) l = (reschedule l k v w, k \<in> Key ` set l, None)"
| "agenda_spec (HUpsert k v w) l =
     (if k \<in> Key ` set l then (reschedule l k v w, False, None)
      else (l @ [\<lparr>Key = k, Value = v, When = w\<rparr>], True, None))"
| "agenda_spec (HRemove k) l = (cancel l k, k \<in> Key ` set l, None)"
| "agenda_spec HPeek l = (l, first_min l \<noteq> None, first_min l)"
| "agenda_spec HPop l =
     (case first_min l of None \<Rightarrow> (l, False, None) | Some x \<Rightarrow> (cancel l (Key x), True, Some x))"

lemma reschedule_absent: "k \<notin> Key ` set l \<Longrightarrow> reschedule l k v w = l"
  unfolding reschedule_def by (rule map_idI) auto

lemma heap_key_iff: "heap_inv h \<Longrightarrow> k \<in> Key ` set (heap_abs h) \<longleftrightarrow> map_Get (indexes h) k \<noteq> None"
  by (rule heap_abs_keys(2))

lemma heap_Update_abs:
  assumes "heap_inv h"
  shows "heap_inv (fst (heap_Update h k v w))"
    and "heap_abs (fst (heap_Update h k v w)) = reschedule (heap_abs h) k v w"
    and "snd (heap_Update h k v w) \<longleftrightarrow> k \<in> Key ` set (heap_abs h)"
proof (atomize (full), cases "map_Get (indexes h) k")
  case None
  then have "k \<notin> Key ` set (heap_abs h)" using heap_key_iff [OF assms, of k] by simp
  then show "heap_inv (fst (heap_Update h k v w)) \<and>
    heap_abs (fst (heap_Update h k v w)) = reschedule (heap_abs h) k v w \<and>
    (snd (heap_Update h k v w) \<longleftrightarrow> k \<in> Key ` set (heap_abs h))"
    using assms None by (simp add: heap_Update_absent reschedule_absent del: set_heap_abs)
next
  case (Some i)
  have "snd (heap_Update h k v w)" using Some by (simp add: heap_Update_def Let_def)
  moreover have "k \<in> Key ` set (heap_abs h)" using Some heap_key_iff [OF assms, of k] by simp
  ultimately show "heap_inv (fst (heap_Update h k v w)) \<and>
    heap_abs (fst (heap_Update h k v w)) = reschedule (heap_abs h) k v w \<and>
    (snd (heap_Update h k v w) \<longleftrightarrow> k \<in> Key ` set (heap_abs h))"
    using heap_Update_present [OF assms Some] unfolding reschedule_def by blast
qed

definition room :: "nat \<Rightarrow> ('k, 'v, 'w::linorder) quad_heap \<Rightarrow> bool" where
  "room n h \<longleftrightarrow> heap_inv h \<and> length (heap_abs h) + n \<le> 2 ^ 63"

lemma agenda_spec_length: "length (fst (agenda_spec op l)) \<le> Suc (length l)"
  by (cases op) (auto simp: reschedule_def cancel_def le_SucI split: option.split)

lemma heap_Pop_none: "heap_inv h \<Longrightarrow> heap_Peek h = None \<Longrightarrow> heap_Pop h = (h, None)"
  by (simp add: heap_Peek_def heap_Pop_def split: if_splits)

lemma heap_exec_spec:
  assumes "heap_inv h" and "length (heap_abs h) < 2 ^ 63"
  shows "heap_inv (fst (heap_exec op h)) \<and>
    heap_abs (fst (heap_exec op h)) = fst (agenda_spec op (heap_abs h)) \<and>
    snd (heap_exec op h) = snd (agenda_spec op (heap_abs h))"
proof (cases op)
  case (HInsert k v w)
  show ?thesis
  proof (cases "map_Get (indexes h) k")
    case None
    then have "k \<notin> Key ` set (heap_abs h)" using heap_key_iff [OF assms(1), of k] by simp
    then show ?thesis using HInsert heap_Insert_abs [OF assms(1) None, of v w] assms(2) by simp
  next
    case (Some i)
    then have "k \<in> Key ` set (heap_abs h)" "heap_Insert h k v w = (h, False)"
      using heap_key_iff [OF assms(1), of k] heap_Insert_present [of h k v w] by simp_all
    then show ?thesis using HInsert assms(1) by simp
  qed
next
  case (HUpdate k v w)
  then show ?thesis using heap_Update_abs [OF assms(1)] by simp
next
  case (HUpsert k v w)
  then show ?thesis
    using heap_Upsert_abs [OF assms(1), of k v w] assms(2) by (simp add: reschedule_def)
next
  case (HRemove k)
  then show ?thesis using heap_Remove_abs [OF assms(1)] by (simp add: cancel_def)
next
  case HPeek
  then show ?thesis using assms(1) heap_Peek_abs [OF assms(1)] by simp
next
  case HPop
  show ?thesis
  proof (cases "heap_Peek h")
    case None
    then show ?thesis
      using HPop assms(1) heap_Pop_none [OF assms(1) None] heap_Peek_abs [OF assms(1)] by simp
  next
    case (Some x)
    have "first_min (heap_abs h) = Some x" using Some heap_Peek_abs [OF assms(1)] by simp
    then show ?thesis using HPop heap_Pop_abs [OF assms(1) Some] by (simp add: cancel_def)
  qed
qed

interpretation hf: refines room heap_abs heap_exec agenda_spec
proof (unfold_locales, goal_cases)
  case (1 n h op)
  then show ?case
    using heap_exec_spec [of h op] agenda_spec_length [of op "heap_abs h"] by (simp add: room_def)
next
  case (2 n h op)
  then show ?case using heap_exec_spec [of h op] by (simp add: room_def)
next
  case (3 n h op)
  then show ?case using heap_exec_spec [of h op] by (simp add: room_def)
qed

text \<open>
  C11: the four-ary heap with its key index implements a keyed agenda. Any sequence of fewer
  than \<open>2 ^ 63\<close> operations on a new heap returns what a plain list of items in arrival
  order returns: one item per key, \<open>Update\<close> in place, \<open>Remove\<close> by key, and \<open>Peek\<close> and
  \<open>Pop\<close> give the earliest arrival among the smallest deadlines.
\<close>

theorem heap_is_agenda:
  assumes "length ops \<le> 2 ^ 63"
  shows "snd (run_ops heap_exec NewQuadHeap ops) = snd (run_ops agenda_spec [] ops) \<and>
    heap_inv (fst (run_ops heap_exec NewQuadHeap ops))"
  using hf.run_refines [of 0 ops NewQuadHeap] assms by (simp_all add: room_def heap_inv_New)

theorem heap_is_agenda_witness:
  "snd (run_ops heap_exec NewQuadHeap
      [HInsert ''a'' (1::int) (5::int), HInsert ''b'' 2 3, HUpsert ''a'' 4 3, HPop, HRemove ''a'', HPop]) =
   [(True, None), (True, None), (False, None), (True, Some \<lparr>Key = ''a'', Value = 4, When = 3\<rparr>),
    (False, None), (True, Some \<lparr>Key = ''b'', Value = 2, When = 3\<rparr>)]"
  by (subst heap_is_agenda [THEN conjunct1]) (simp_all add: reschedule_def cancel_def)

text \<open>
  C12: popping a heap until it is empty returns every item once, sorted by deadline, and items
  with equal deadlines in the order in which they were inserted.
\<close>

theorem heap_drains_sorted:
  assumes "heap_inv h"
  shows "pop_n (heap_Len h) h = sort_key When (heap_abs h)"
  using pop_n_sorts [OF assms, of "heap_Len h"] by (simp add: heap_Len_def)

theorem heap_drains_sorted_witness:
  "let h = fst (heap_Insert (fst (heap_Insert NewQuadHeap ''a'' (1::int) (9::int))) ''b'' 2 4)
   in pop_n 2 h = [\<lparr>Key = ''b'', Value = 2, When = 4\<rparr>, \<lparr>Key = ''a'', Value = 1, When = 9\<rparr>]"
proof -
  let ?g = "fst (heap_Insert NewQuadHeap ''a'' (1::int) (9::int))"
  have g: "heap_inv ?g" "heap_abs ?g = [\<lparr>Key = ''a'', Value = 1, When = 9\<rparr>]"
    using heap_exec_spec [OF heap_inv_New, of "HInsert ''a'' (1::int) (9::int)"] by simp_all
  let ?h = "fst (heap_Insert ?g ''b'' 2 4)"
  have h: "heap_inv ?h"
    "heap_abs ?h = [\<lparr>Key = ''a'', Value = 1, When = 9\<rparr>, \<lparr>Key = ''b'', Value = 2, When = 4\<rparr>]"
    using heap_exec_spec [OF g(1), of "HInsert ''b'' (2::int) (4::int)"] g(2) by simp_all
  then have "heap_Len ?h = 2" using length_heap_abs [of ?h] by (simp add: heap_Len_def)
  then show ?thesis using heap_drains_sorted [OF h(1)] h(2) by (simp add: Let_def)
qed

text \<open>
  C37: the arrival counter never wraps. When it has reached the largest uint64, an insertion
  renumbers the entries first, and the heap still holds the old items in their old arrival
  order followed by the new one.
\<close>

theorem heap_insert_at_counter_limit:
  assumes "heap_inv h" and "nextSeq h = NOT 0" and "length (heap_abs h) < 2 ^ 63"
    and "k \<notin> Key ` set (heap_abs h)"
  shows "heap_inv (fst (heap_Insert h k v w)) \<and>
    heap_abs (fst (heap_Insert h k v w)) = heap_abs h @ [\<lparr>Key = k, Value = v, When = w\<rparr>] \<and>
    0 < nextSeq (fst (heap_Insert h k v w))"
proof -
  have none: "map_Get (indexes h) k = None" using assms(1,4) heap_key_iff by fastforce
  then have inv: "heap_inv (fst (heap_Insert h k v w))"
    and abs: "heap_abs (fst (heap_Insert h k v w)) = heap_abs h @ [\<lparr>Key = k, Value = v, When = w\<rparr>]"
    using heap_Insert_abs [OF assms(1) none, of v w] assms(3) by simp_all
  then have "items (fst (heap_Insert h k v w)) \<noteq> []"
    by (metis Nil_is_append_conv length_0_conv length_heap_abs not_Cons_self2)
  then obtain e where "e \<in> set (items (fst (heap_Insert h k v w)))" by fastforce
  then have "sequence e < nextSeq (fst (heap_Insert h k v w))"
    using inv by (simp add: heap_inv_def seqs_ok_def)
  then have "0 < nextSeq (fst (heap_Insert h k v w))"
    using word_zero_le le_less_trans by blast
  then show ?thesis using inv abs by blast
qed

theorem heap_insert_at_counter_limit_witness:
  "let h = \<lparr>items = [\<lparr>item = \<lparr>Key = 1, Value = (), When = 5\<rparr>, sequence = 7\<rparr>],
         indexes = Some [(1, 0)], nextSeq = NOT 0\<rparr> :: (int, unit, int) quad_heap
   in heap_abs (fst (heap_Insert h 2 () 4)) =
     [\<lparr>Key = 1, Value = (), When = 5\<rparr>, \<lparr>Key = 2, Value = (), When = 4\<rparr>]"
proof -
  let ?h = "\<lparr>items = [\<lparr>item = \<lparr>Key = 1, Value = (), When = 5\<rparr>, sequence = 7\<rparr>],
         indexes = Some [(1, 0)], nextSeq = NOT 0\<rparr> :: (int, unit, int) quad_heap"
  have "heap_inv ?h"
    by (auto simp: heap_inv_def synced_def heap_ordered_def ranks_def seqs_ok_def)
  then show ?thesis
    using heap_insert_at_counter_limit [of ?h 2 "()" 4] by (simp add: heap_abs_def)
qed

end
