(* ===== verification/Inflight.thy ===== *)
theory Inflight
  imports Containers
begin

text \<open>
  core/inflight.go: the offsets of one shard that were delivered to an actor and are not yet
  covered by a stored snapshot. \<open>offsetActor\<close> maps each such offset to its actor,
  \<open>actorOffsets\<close> lists the offsets of each actor, \<open>minOffset\<close> and \<open>maxOffset\<close>
  delimit the window (-1 when nothing is in flight). \<open>Complete\<close> tells the caller the next
  offset to commit to the message queue. Offsets are int64 in the code and integers here;
  the bound lemma shows that no operation leaves the int64 range.
\<close>

definition InflightWindowLimit :: int where
  "InflightWindowLimit = 4096"

record inflight =
  windowLimit :: int
  minOffset :: int
  maxOffset :: int
  offsetActor :: "(int, string) gomap"
  actorOffsets :: "(string, int list) gomap"

record inflight_complete =
  ic_ActorId :: string
  ic_MaxOffset :: int

definition NewInflight :: "int \<Rightarrow> inflight" where
  "NewInflight limit = \<lparr>windowLimit = limit, minOffset = -1, maxOffset = -1,
     offsetActor = NewMap, actorOffsets = NewMap\<rparr>"

definition infl_reset :: "inflight \<Rightarrow> inflight" where
  "infl_reset f = f\<lparr>minOffset := -1, maxOffset := -1,
     offsetActor := NewMap, actorOffsets := NewMap\<rparr>"

definition infl_Full :: "inflight \<Rightarrow> int \<Rightarrow> bool" where
  "infl_Full f off =
     (if map_Exist off (offsetActor f) then False
      else if maxOffset f - minOffset f \<ge> windowLimit f then True
      else if minOffset f \<noteq> -1 \<and> off - minOffset f \<ge> windowLimit f then True
      else False)"

definition infl_Add :: "inflight \<Rightarrow> int \<Rightarrow> string \<Rightarrow> inflight" where
  "infl_Add f off actorId =
     (let f = f\<lparr>offsetActor := map_AddOrUpdate off actorId (offsetActor f)\<rparr>;
          f = (if minOffset f = -1 then f\<lparr>minOffset := off\<rparr> else f);
          f = (if maxOffset f = -1 \<or> off > maxOffset f then f\<lparr>maxOffset := off\<rparr> else f);
          f = (if \<not> map_Exist actorId (actorOffsets f)
               then f\<lparr>actorOffsets := map_AddIfNotExist actorId [] (actorOffsets f)\<rparr> else f);
          list = map_GetDefault (actorOffsets f) actorId
      in if \<not> List.member list off
         then f\<lparr>actorOffsets := map_AddOrUpdate actorId (list @ [off]) (actorOffsets f)\<rparr>
         else f)"

text \<open>\<open>slices.Min\<close> panics on an empty slice.\<close>

fun slices_Min :: "int list \<Rightarrow> int outcome" where
  "slices_Min [] = Inl Panic"
| "slices_Min (x # xs) = Inr (foldl min x xs)"

definition infl_GetMinOffset :: "inflight \<Rightarrow> string \<Rightarrow> (int \<times> bool) outcome" where
  "infl_GetMinOffset f actorId =
     (case map_Get (actorOffsets f) actorId of
        None \<Rightarrow> Inr (0, False)
      | Some value \<Rightarrow> and_then (slices_Min value) (\<lambda>m. Inr (m, True)))"

text \<open>The loop of \<open>remove\<close>: it stops at the first offset above \<open>maxOff\<close>.\<close>

fun remove_loop ::
  "int \<Rightarrow> int \<Rightarrow> int list \<Rightarrow> (int, string) gomap \<Rightarrow> nat \<Rightarrow> bool \<Rightarrow> (int, string) gomap \<times> nat \<times> bool" where
  "remove_loop minOff maxOff [] oa removed need = (oa, removed, need)"
| "remove_loop minOff maxOff (off # offs) oa removed need =
     (if off > maxOff then (oa, removed, need)
      else remove_loop minOff maxOff offs (map_Del off oa) (removed + 1)
             (if off = minOff then True else need))"

definition infl_remove :: "inflight \<Rightarrow> string \<Rightarrow> int \<Rightarrow> inflight \<times> bool" where
  "infl_remove f actorId maxOff =
     (case map_Get (actorOffsets f) actorId of
        None \<Rightarrow> (f, False)
      | Some offsets \<Rightarrow>
          if length offsets = 0 then (f, False)
          else
            let (oa, removed, need) = remove_loop (minOffset f) maxOff offsets (offsetActor f) 0 False;
                f = f\<lparr>offsetActor := oa\<rparr>
            in if removed = length offsets
               then (f\<lparr>actorOffsets := map_Del actorId (actorOffsets f)\<rparr>, need)
               else (f\<lparr>actorOffsets := map_AddOrUpdate actorId (drop removed offsets)
                         (actorOffsets f)\<rparr>, need))"

text \<open>The minimum over the map; the loop's result does not depend on the iteration order.\<close>

definition infl_resetMinOffset :: "inflight \<Rightarrow> inflight" where
  "infl_resetMinOffset f =
     (let newMinOffset = foldl (\<lambda>m off. if m = -1 \<or> off < m then off else m) (-1)
            (map fst (snd (map_Map (offsetActor f))))
      in if newMinOffset = -1 then f\<lparr>minOffset := -1\<rparr> else f\<lparr>minOffset := newMinOffset\<rparr>)"

definition complete_items :: "inflight \<Rightarrow> inflight_complete list \<Rightarrow> inflight \<times> bool" where
  "complete_items f list =
     foldl (\<lambda>(f, needAdvance) it.
         let (f, need) = infl_remove f (ic_ActorId it) (ic_MaxOffset it)
         in (f, if need then True else needAdvance)) (f, False) list"

definition infl_Complete :: "inflight \<Rightarrow> inflight_complete list \<Rightarrow> inflight \<times> int \<times> bool" where
  "infl_Complete f list =
     (let (f, needAdvance) = complete_items f list
      in if map_Length (offsetActor f) = 0 then
           (if maxOffset f < 0 then (f, 0, False)
            else (f\<lparr>minOffset := -1, maxOffset := -1\<rparr>, maxOffset f + 1, True))
         else if needAdvance then
           let before = minOffset f; f = infl_resetMinOffset f
           in (f, minOffset f, minOffset f > before)
         else (f, minOffset f, False))"

section \<open>Invariant\<close>

definition in_flight :: "inflight \<Rightarrow> int set" where
  "in_flight f = {off. map_Get (offsetActor f) off \<noteq> None}"

definition infl_core :: "inflight \<Rightarrow> bool" where
  "infl_core f \<longleftrightarrow>
     (\<forall>off a. map_Get (offsetActor f) off = Some a \<longleftrightarrow>
        (\<exists>l. map_Get (actorOffsets f) a = Some l \<and> off \<in> set l)) \<and>
     (\<forall>a l. map_Get (actorOffsets f) a = Some l \<longrightarrow> l \<noteq> [] \<and> distinct l) \<and>
     (\<forall>off \<in> in_flight f. 0 \<le> off \<and> off \<le> maxOffset f)"

definition infl_inv :: "inflight \<Rightarrow> bool" where
  "infl_inv f \<longleftrightarrow> infl_core f \<and>
     (if in_flight f = {} then minOffset f = -1 \<and> maxOffset f = -1
      else minOffset f \<in> in_flight f \<and> maxOffset f \<ge> 0)"

text \<open>What in-order delivery adds: sorted lists, and the minimum really is the minimum.\<close>

definition infl_ordered :: "inflight \<Rightarrow> bool" where
  "infl_ordered f \<longleftrightarrow> infl_inv f \<and>
     (\<forall>a l. map_Get (actorOffsets f) a = Some l \<longrightarrow> sorted l) \<and>
     (\<forall>off \<in> in_flight f. minOffset f \<le> off)"

lemma finite_in_flight [simp]: "finite (in_flight f)"
  unfolding in_flight_def by (rule finite_map_dom)

lemma in_flight_empty_iff: "map_Length (offsetActor f) = 0 \<longleftrightarrow> in_flight f = {}"
  by (simp add: in_flight_def)

lemma infl_inv_core: "infl_inv f \<Longrightarrow> infl_core f"
  by (simp add: infl_inv_def)

lemma infl_listed:
  "infl_core f \<Longrightarrow> map_Get (actorOffsets f) a = Some l \<Longrightarrow> off \<in> set l \<Longrightarrow>
   map_Get (offsetActor f) off = Some a"
  by (auto simp: infl_core_def)

lemma infl_owner:
  "infl_core f \<Longrightarrow> map_Get (offsetActor f) off = Some a \<Longrightarrow>
   \<exists>l. map_Get (actorOffsets f) a = Some l \<and> off \<in> set l"
  by (auto simp: infl_core_def)

lemma infl_range:
  "infl_core f \<Longrightarrow> map_Get (offsetActor f) off = Some a \<Longrightarrow> 0 \<le> off \<and> off \<le> maxOffset f"
  unfolding infl_core_def in_flight_def by blast

lemma infl_lists:
  "infl_core f \<Longrightarrow> map_Get (actorOffsets f) a = Some l \<Longrightarrow> l \<noteq> [] \<and> distinct l"
  by (simp add: infl_core_def)

lemma infl_bounds:
  assumes "infl_inv f" and "in_flight f \<noteq> {}"
  shows "minOffset f \<in> in_flight f" and "0 \<le> minOffset f" and "minOffset f \<le> maxOffset f"
proof -
  show "minOffset f \<in> in_flight f" using assms by (simp add: infl_inv_def)
  then show "0 \<le> minOffset f" "minOffset f \<le> maxOffset f"
    using assms(1) unfolding infl_inv_def infl_core_def by blast+
qed

lemma infl_New [keeps]: "infl_inv (NewInflight l)" "infl_ordered (NewInflight l)"
  "in_flight (NewInflight l) = {}"
  by (simp_all add: infl_ordered_def infl_inv_def infl_core_def in_flight_def NewInflight_def)

section \<open>Adding an offset\<close>

lemma infl_Add_fields:
  "offsetActor (infl_Add f off a) = map_AddOrUpdate off a (offsetActor f)"
  "minOffset (infl_Add f off a) = (if minOffset f = -1 then off else minOffset f)"
  "maxOffset (infl_Add f off a) = (if maxOffset f = -1 \<or> off > maxOffset f then off else maxOffset f)"
  "windowLimit (infl_Add f off a) = windowLimit f"
  by (simp_all add: infl_Add_def Let_def)

lemma infl_Add_actorOffsets:
  "map_Get (actorOffsets (infl_Add f off a)) b =
     (if b = a then Some (case map_Get (actorOffsets f) a of None \<Rightarrow> [off]
        | Some l \<Rightarrow> if off \<in> set l then l else l @ [off])
      else map_Get (actorOffsets f) b)"
  by (cases "map_Get (actorOffsets f) a")
    (auto simp: infl_Add_def map_GetDefault_def default_list_def Let_def)

lemma in_flight_Add [simp]: "in_flight (infl_Add f off a) = insert off (in_flight f)"
  by (auto simp: in_flight_def infl_Add_fields)

lemma infl_inv_Add [keeps]:
  assumes "infl_inv f" and "0 \<le> off" and "map_Get (offsetActor f) off \<in> {None, Some a}"
  shows "infl_inv (infl_Add f off a)"
proof -
  have core: "infl_core f" using assms(1) by (rule infl_inv_core)
  have cons: "map_Get (offsetActor f) x = Some b \<longleftrightarrow>
      (\<exists>l. map_Get (actorOffsets f) b = Some l \<and> x \<in> set l)" for x b
    using core by (simp add: infl_core_def)
  have "map_Get (offsetActor (infl_Add f off a)) x = Some b \<longleftrightarrow>
      (\<exists>l. map_Get (actorOffsets (infl_Add f off a)) b = Some l \<and> x \<in> set l)" for x b
    using cons [of x b] cons [of off b] assms(3)
    by (auto simp: infl_Add_fields infl_Add_actorOffsets split: option.splits)
  moreover have "l \<noteq> [] \<and> distinct l"
    if "map_Get (actorOffsets (infl_Add f off a)) b = Some l" for b l
    using that infl_lists [OF core]
    by (auto simp: infl_Add_actorOffsets split: if_splits option.splits)
  moreover have "\<forall>x \<in> insert off (in_flight f). 0 \<le> x \<and> x \<le> maxOffset (infl_Add f off a)"
    using assms(1,2) by (auto simp: infl_inv_def infl_core_def infl_Add_fields)
  moreover have "minOffset (infl_Add f off a) \<in> insert off (in_flight f) \<and>
      0 \<le> maxOffset (infl_Add f off a)"
    using assms(1,2) by (auto simp: infl_inv_def infl_Add_fields split: if_splits)
  ultimately show ?thesis unfolding infl_inv_def infl_core_def in_flight_Add by simp
qed

text \<open>In order: a redelivered offset, or one above everything added so far.\<close>

lemma infl_ordered_Add [keeps]:
  assumes "infl_ordered f" and "0 \<le> off" and "map_Get (offsetActor f) off \<in> {None, Some a}"
    and "off \<in> in_flight f \<or> off > maxOffset f"
  shows "infl_ordered (infl_Add f off a)"
proof -
  have inv: "infl_inv f" and core: "infl_core f"
    using assms(1) by (simp_all add: infl_ordered_def infl_inv_core)
  have below: "x \<le> maxOffset f" if "map_Get (actorOffsets f) b = Some l" "x \<in> set l" for b l x
    using infl_range [OF core infl_listed [OF core that]] by simp
  have own: "\<exists>l. map_Get (actorOffsets f) a = Some l \<and> off \<in> set l" if "off \<in> in_flight f"
    using infl_owner [OF core, of off a] that assms(3) by (auto simp: in_flight_def)
  have "sorted l" if "map_Get (actorOffsets (infl_Add f off a)) b = Some l" for b l
    using that assms(1,4) own below
    by (fastforce simp: infl_Add_actorOffsets infl_ordered_def sorted_append
        split: if_splits option.splits)
  moreover have "\<forall>x \<in> insert off (in_flight f). minOffset (infl_Add f off a) \<le> x"
    using assms(1,2,4) inv
    by (auto simp: infl_ordered_def infl_Add_fields infl_inv_def infl_core_def split: if_splits)
  ultimately show ?thesis
    using infl_inv_Add [OF inv assms(2,3)] unfolding infl_ordered_def in_flight_Add by simp
qed

text \<open>The window: an offset that \<open>Full\<close> lets through keeps the width below the limit.\<close>

lemma infl_Add_window:
  assumes "infl_inv f" and "0 < windowLimit f" and "0 \<le> off" and "\<not> infl_Full f off"
    and "map_Get (offsetActor f) off = None"
  shows "maxOffset (infl_Add f off a) - minOffset (infl_Add f off a) < windowLimit f"
  using assms by (auto simp: infl_Full_def infl_Add_fields infl_inv_def split: if_splits)

section \<open>Completing offsets\<close>

lemma remove_loop_eq:
  "remove_loop minOff m offs oa removed need =
     (foldl (\<lambda>oa off. map_Del off oa) oa (takeWhile (\<lambda>off. off \<le> m) offs),
      removed + length (takeWhile (\<lambda>off. off \<le> m) offs),
      need \<or> minOff \<in> set (takeWhile (\<lambda>off. off \<le> m) offs))"
  by (induction offs arbitrary: oa removed need) auto

lemma map_Get_Dels:
  "map_Get (foldl (\<lambda>oa off. map_Del off oa) oa offs) x =
     (if x \<in> set offs then None else map_Get oa x)"
  by (induction offs arbitrary: oa) auto

text \<open>The offsets of \<open>a\<close> that a completion up to \<open>m\<close> covers.\<close>

definition covered :: "inflight \<Rightarrow> string \<Rightarrow> int \<Rightarrow> int list" where
  "covered f a m = (case map_Get (actorOffsets f) a of None \<Rightarrow> []
     | Some l \<Rightarrow> takeWhile (\<lambda>off. off \<le> m) l)"

lemma infl_remove_fields:
  "map_Get (offsetActor (fst (infl_remove f a m))) x =
     (if x \<in> set (covered f a m) then None else map_Get (offsetActor f) x)"
  "minOffset (fst (infl_remove f a m)) = minOffset f"
  "maxOffset (fst (infl_remove f a m)) = maxOffset f"
  "windowLimit (fst (infl_remove f a m)) = windowLimit f"
  "snd (infl_remove f a m) \<longleftrightarrow> minOffset f \<in> set (covered f a m)"
  by (auto simp: infl_remove_def covered_def remove_loop_eq map_Get_Dels Let_def split: option.split)

lemma infl_remove_actorOffsets:
  "map_Get (actorOffsets (fst (infl_remove f a m))) b =
     (if b \<noteq> a then map_Get (actorOffsets f) b
      else case map_Get (actorOffsets f) a of None \<Rightarrow> None
        | Some l \<Rightarrow> if l = [] then Some []
            else let r = dropWhile (\<lambda>off. off \<le> m) l in if r = [] then None else Some r)"
proof -
  have "drop (length (takeWhile P l)) l = dropWhile P l" for P and l :: "int list"
    by (simp add: dropWhile_eq_drop)
  moreover have "length (takeWhile P l) = length l \<longleftrightarrow> dropWhile P l = []" for P and l :: "int list"
    by (metis append_Nil2 append_eq_conv_conj dropWhile_eq_Nil_conv length_append
        takeWhile_dropWhile_id takeWhile_eq_all_conv)
  ultimately show ?thesis
    by (auto simp: infl_remove_def remove_loop_eq Let_def split: option.split)
qed

lemma covered_owner:
  assumes "infl_core f" and "off \<in> set (covered f a m)"
  shows "map_Get (offsetActor f) off = Some a" and "off \<le> m"
proof -
  obtain l where l: "map_Get (actorOffsets f) a = Some l" "off \<in> set (takeWhile (\<lambda>off. off \<le> m) l)"
    using assms(2) by (cases "map_Get (actorOffsets f) a") (simp_all add: covered_def)
  then show "off \<le> m" by (metis set_takeWhileD)
  show "map_Get (offsetActor f) off = Some a"
    using infl_listed [OF assms(1) l(1)] l(2) by (metis set_takeWhileD)
qed

lemma set_dropWhile_distinct:
  "distinct l \<Longrightarrow> set (dropWhile P l) = set l - set (takeWhile P l)"
  by (induction l) (auto dest: set_takeWhileD)

lemma infl_core_remove:
  assumes "infl_core f"
  shows "infl_core (fst (infl_remove f a m))"
    and "in_flight (fst (infl_remove f a m)) = in_flight f - set (covered f a m)"
proof -
  let ?f = "fst (infl_remove f a m)"
  show flight: "in_flight ?f = in_flight f - set (covered f a m)"
    by (auto simp: in_flight_def infl_remove_fields)
  have lists: "map_Get (actorOffsets ?f) a = (case map_Get (actorOffsets f) a of None \<Rightarrow> None
      | Some l \<Rightarrow> if dropWhile (\<lambda>off. off \<le> m) l = [] then None else Some (dropWhile (\<lambda>off. off \<le> m) l))"
    using infl_lists [OF assms, of a] by (auto simp: infl_remove_actorOffsets Let_def split: option.split)
  have other: "map_Get (actorOffsets ?f) b = map_Get (actorOffsets f) b" if "b \<noteq> a" for b
    using that by (simp add: infl_remove_actorOffsets)
  have own: "(\<exists>l. map_Get (actorOffsets ?f) b = Some l \<and> x \<in> set l) \<longleftrightarrow>
      x \<notin> set (covered f a m) \<and> (\<exists>l. map_Get (actorOffsets f) b = Some l \<and> x \<in> set l)" for x b
  proof (cases "b = a")
    case True
    show ?thesis
    proof (cases "map_Get (actorOffsets f) a")
      case (Some l)
      then have "set (dropWhile (\<lambda>off. off \<le> m) l) = set l - set (covered f a m)"
        using infl_lists [OF assms Some] set_dropWhile_distinct [of l] by (simp add: covered_def)
      then show ?thesis using True Some lists
        by (cases "dropWhile (\<lambda>off. off \<le> m) l = []") (auto simp del: dropWhile_eq_Nil_conv)
    qed (use True lists in simp)
  next
    case False
    then show ?thesis
      using covered_owner(1) [OF assms, of x a m] infl_listed [OF assms, of b _ x]
      by (auto simp: other)
  qed
  have cons: "map_Get (offsetActor f) x = Some b \<longleftrightarrow>
      (\<exists>l. map_Get (actorOffsets f) b = Some l \<and> x \<in> set l)" for x b
    using assms by (simp add: infl_core_def)
  have "map_Get (offsetActor ?f) x = Some b \<longleftrightarrow>
      (\<exists>l. map_Get (actorOffsets ?f) b = Some l \<and> x \<in> set l)" for x b
    unfolding own infl_remove_fields(1) using cons [of x b] by auto
  moreover have "l \<noteq> [] \<and> distinct l" if "map_Get (actorOffsets ?f) b = Some l" for b l
    using that infl_lists [OF assms] lists other
    by (cases "b = a") (auto split: option.splits if_splits simp: distinct_dropWhile)
  moreover have "\<forall>x \<in> in_flight ?f. 0 \<le> x \<and> x \<le> maxOffset ?f"
    using assms flight by (auto simp: infl_core_def infl_remove_fields)
  ultimately show "infl_core ?f" unfolding infl_core_def by blast
qed

text \<open>The whole list of completions: offsets only leave, and the minimum's leaving is noticed.\<close>

lemma complete_items_snoc:
  "complete_items f (list @ [it]) =
     (let (g, need) = complete_items f list; r = infl_remove g (ic_ActorId it) (ic_MaxOffset it)
      in (fst r, snd r \<or> need))"
  by (auto simp: complete_items_def Let_def split: prod.split)

lemma complete_items_core:
  assumes "infl_core f"
  shows "infl_core (fst (complete_items f list)) \<and>
    in_flight (fst (complete_items f list)) \<subseteq> in_flight f \<and>
    minOffset (fst (complete_items f list)) = minOffset f \<and>
    maxOffset (fst (complete_items f list)) = maxOffset f \<and>
    windowLimit (fst (complete_items f list)) = windowLimit f \<and>
    (\<forall>x \<in> in_flight (fst (complete_items f list)).
       map_Get (offsetActor (fst (complete_items f list))) x = map_Get (offsetActor f) x) \<and>
    (snd (complete_items f list) \<longleftrightarrow>
       minOffset f \<in> in_flight f \<and> minOffset f \<notin> in_flight (fst (complete_items f list)))"
proof (induction list rule: rev_induct)
  case Nil
  then show ?case using assms by (simp add: complete_items_def)
next
  case (snoc it list)
  let ?g = "fst (complete_items f list)"
  let ?a = "ic_ActorId it" and ?m = "ic_MaxOffset it"
  let ?h = "fst (infl_remove ?g ?a ?m)"
  have g: "infl_core ?g" using snoc by blast
  have step: "fst (complete_items f (list @ [it])) = ?h"
    "snd (complete_items f (list @ [it])) \<longleftrightarrow>
       minOffset ?g \<in> set (covered ?g ?a ?m) \<or> snd (complete_items f list)"
    by (simp_all add: complete_items_snoc Let_def infl_remove_fields split: prod.split)
  have c: "set (covered ?g ?a ?m) \<subseteq> in_flight ?g"
    using covered_owner(1) [OF g] by (auto simp: in_flight_def)
  have h: "infl_core ?h" "in_flight ?h = in_flight ?g - set (covered ?g ?a ?m)"
    by (rule infl_core_remove [OF g])+
  have get: "\<forall>x \<in> in_flight ?h. map_Get (offsetActor ?h) x = map_Get (offsetActor ?g) x"
    unfolding h(2) by (simp add: infl_remove_fields)
  have IH: "in_flight ?g \<subseteq> in_flight f" "minOffset ?g = minOffset f" "maxOffset ?g = maxOffset f"
    "windowLimit ?g = windowLimit f"
    "\<forall>x \<in> in_flight ?g. map_Get (offsetActor ?g) x = map_Get (offsetActor f) x"
    "snd (complete_items f list) \<longleftrightarrow> minOffset f \<in> in_flight f \<and> minOffset f \<notin> in_flight ?g"
    using snoc by blast+
  have need: "snd (complete_items f (list @ [it])) \<longleftrightarrow>
      minOffset f \<in> in_flight f \<and> minOffset f \<notin> in_flight ?h"
    unfolding step h(2) IH(2,6) using c IH(1) by blast
  have "\<forall>x \<in> in_flight ?h. map_Get (offsetActor ?h) x = map_Get (offsetActor f) x"
    using get IH(5) h(2) by (metis DiffD1)
  moreover have "in_flight ?h \<subseteq> in_flight f" using h(2) IH(1) by blast
  ultimately show ?case
    unfolding step(1) need infl_remove_fields(2-4) IH using h(1) by blast
qed

lemma foldl_min_offset:
  "\<forall>x \<in> set xs. (0::int) \<le> x \<Longrightarrow> m = -1 \<or> 0 \<le> m \<Longrightarrow>
   (let r = foldl (\<lambda>m off. if m = -1 \<or> off < m then off else m) m xs in
    if xs = [] then r = m
    else r \<in> insert m (set xs) - {-1} \<and> (\<forall>x \<in> set xs. r \<le> x) \<and> (m \<noteq> -1 \<longrightarrow> r \<le> m))"
proof (induction xs arbitrary: m)
  case (Cons x xs)
  let ?m = "if m = -1 \<or> x < m then x else m"
  have "0 \<le> ?m" using Cons.prems by auto
  then show ?case using Cons.IH [of ?m] Cons.prems by (auto simp: Let_def split: if_splits)
qed simp

lemma resetMin_offset:
  assumes "infl_core f" and "in_flight f \<noteq> {}"
  shows "infl_resetMinOffset f = f\<lparr>minOffset := Min (in_flight f)\<rparr>"
proof -
  let ?xs = "map fst (map_entries (offsetActor f))"
  let ?r = "foldl (\<lambda>m off. if m = -1 \<or> off < m then off else m) (-1) ?xs"
  have set: "set ?xs = in_flight f"
    using set_map_Keys [of "\<lambda>_. 0" "offsetActor f"] by (simp add: map_Keys_def in_flight_def)
  moreover have "\<forall>x \<in> in_flight f. 0 \<le> x" using assms(1) by (simp add: infl_core_def)
  moreover have "?xs \<noteq> []" using set assms(2) by auto
  ultimately have "?r \<in> in_flight f" "\<forall>x \<in> in_flight f. ?r \<le> x" "?r \<noteq> -1"
    using foldl_min_offset [of ?xs "-1"] by (auto simp: Let_def)
  then have "?r = Min (in_flight f)" by (intro Min_eqI [symmetric]) auto
  then show ?thesis using \<open>?r \<noteq> -1\<close> by (simp add: infl_resetMinOffset_def Let_def)
qed

text \<open>The result of \<open>Complete\<close>, case by case.\<close>

lemma infl_Complete_cases:
  fixes f :: inflight and list :: "inflight_complete list"
  assumes "infl_inv f"
  defines "g \<equiv> fst (complete_items f list)"
  shows "in_flight f = {} \<Longrightarrow> infl_Complete f list = (g, 0, False)"
    and "in_flight f \<noteq> {} \<Longrightarrow> in_flight g = {} \<Longrightarrow>
      infl_Complete f list = (g\<lparr>minOffset := -1, maxOffset := -1\<rparr>, maxOffset f + 1, True)"
    and "in_flight g \<noteq> {} \<Longrightarrow> minOffset f \<notin> in_flight g \<Longrightarrow>
      infl_Complete f list = (g\<lparr>minOffset := Min (in_flight g)\<rparr>, Min (in_flight g),
        minOffset f < Min (in_flight g))"
    and "minOffset f \<in> in_flight g \<Longrightarrow> infl_Complete f list = (g, minOffset f, False)"
proof -
  have core: "infl_core f" using assms(1) by (rule infl_inv_core)
  note items = complete_items_core [OF core, of list, folded g_def]
  obtain need where pair: "complete_items f list = (g, need)"
    "need \<longleftrightarrow> minOffset f \<in> in_flight f \<and> minOffset f \<notin> in_flight g"
    using items by (metis g_def prod.collapse)
  have split: "infl_Complete f list =
      (if in_flight g = {} then
         (if maxOffset g < 0 then (g, 0, False)
          else (g\<lparr>minOffset := -1, maxOffset := -1\<rparr>, maxOffset g + 1, True))
       else if need then (infl_resetMinOffset g, minOffset (infl_resetMinOffset g),
           minOffset (infl_resetMinOffset g) > minOffset g)
       else (g, minOffset g, False))"
    by (simp only: infl_Complete_def pair(1) Let_def prod.case in_flight_empty_iff)
  show "in_flight f = {} \<Longrightarrow> infl_Complete f list = (g, 0, False)"
    using items assms(1) by (auto simp: split infl_inv_def)
  show "in_flight f \<noteq> {} \<Longrightarrow> in_flight g = {} \<Longrightarrow>
      infl_Complete f list = (g\<lparr>minOffset := -1, maxOffset := -1\<rparr>, maxOffset f + 1, True)"
    using items assms(1) by (simp add: split infl_inv_def)
  show "infl_Complete f list = (g\<lparr>minOffset := Min (in_flight g)\<rparr>, Min (in_flight g),
        minOffset f < Min (in_flight g))" if g: "in_flight g \<noteq> {}" "minOffset f \<notin> in_flight g"
  proof -
    have "in_flight f \<noteq> {}" using items g(1) by blast
    then have need using assms(1) g(2) pair(2) by (simp add: infl_inv_def)
    then show ?thesis using g items resetMin_offset [of g] by (simp add: split)
  qed
  show "minOffset f \<in> in_flight g \<Longrightarrow> infl_Complete f list = (g, minOffset f, False)"
    using items pair(2) by (auto simp: split)
qed

lemma infl_core_min: "infl_core (g\<lparr>minOffset := m\<rparr>) = infl_core g"
  by (simp add: infl_core_def in_flight_def)

lemma infl_Complete_flight:
  assumes "infl_inv f"
  shows "in_flight (fst (infl_Complete f list)) = in_flight (fst (complete_items f list))"
proof -
  let ?g = "fst (complete_items f list)"
  have "in_flight (?g\<lparr>minOffset := m\<rparr>) = in_flight ?g"
    "in_flight (?g\<lparr>minOffset := m, maxOffset := n\<rparr>) = in_flight ?g" for m n
    by (simp_all add: in_flight_def)
  then show ?thesis
    using infl_Complete_cases [OF assms, of list] by (metis fst_conv)
qed

lemma infl_Complete_shrinks:
  assumes "infl_inv f"
  shows "in_flight (fst (infl_Complete f list)) \<subseteq> in_flight f"
    and "x \<in> in_flight (fst (infl_Complete f list)) \<Longrightarrow>
      map_Get (offsetActor (fst (infl_Complete f list))) x = map_Get (offsetActor f) x"
    and "windowLimit (fst (infl_Complete f list)) = windowLimit f"
proof -
  let ?g = "fst (complete_items f list)"
  note items = complete_items_core [OF infl_inv_core [OF assms], of list]
  show "in_flight (fst (infl_Complete f list)) \<subseteq> in_flight f"
    unfolding infl_Complete_flight [OF assms] using items by blast
  have same: "offsetActor (fst (infl_Complete f list)) = offsetActor ?g \<and>
      windowLimit (fst (infl_Complete f list)) = windowLimit ?g"
    by (auto simp: infl_Complete_def infl_resetMinOffset_def Let_def split: prod.split)
  then show "windowLimit (fst (infl_Complete f list)) = windowLimit f" using items by metis
  show "map_Get (offsetActor (fst (infl_Complete f list))) x = map_Get (offsetActor f) x"
    if "x \<in> in_flight (fst (infl_Complete f list))"
    using that same items unfolding infl_Complete_flight [OF assms] by metis
qed

lemma infl_inv_Complete [keeps]:
  assumes "infl_inv f"
  shows "infl_inv (fst (infl_Complete f list))"
proof -
  let ?g = "fst (complete_items f list)"
  note items = complete_items_core [OF infl_inv_core [OF assms], of list]
  have core: "infl_core ?g" and sub: "in_flight ?g \<subseteq> in_flight f"
    and mm: "minOffset ?g = minOffset f" "maxOffset ?g = maxOffset f" using items by blast+
  note cases = infl_Complete_cases [OF assms, of list]
  have flight: "in_flight (?g\<lparr>minOffset := m\<rparr>) = in_flight ?g"
    "in_flight (?g\<lparr>minOffset := m, maxOffset := n\<rparr>) = in_flight ?g" for m n
    by (simp_all add: in_flight_def)
  consider "in_flight f = {}" | "in_flight f \<noteq> {}" "in_flight ?g = {}"
    | "in_flight ?g \<noteq> {}" "minOffset f \<notin> in_flight ?g" | "minOffset f \<in> in_flight ?g"
    by blast
  then show ?thesis
  proof cases
    case 1
    then have "in_flight ?g = {}" "minOffset f = -1" "maxOffset f = -1"
      using sub assms by (auto simp: infl_inv_def)
    then show ?thesis using 1 cases(1) core mm by (simp add: infl_inv_def)
  next
    case 2
    then show ?thesis
      using cases(2) core by (simp add: infl_inv_def flight) (simp add: infl_core_def flight)
  next
    case 3
    have "Min (in_flight ?g) \<in> in_flight ?g" using 3 by (intro Min_in) simp_all
    moreover have "0 \<le> maxOffset ?g" using 3(1) core by (force simp: infl_core_def)
    ultimately show ?thesis
      using 3 cases(3) core by (simp add: infl_inv_def flight infl_core_min)
  next
    case 4
    then have "in_flight f \<noteq> {}" "in_flight ?g \<noteq> {}" using sub by blast+
    then show ?thesis
      using 4 cases(4) core mm assms by (simp add: infl_inv_def)
  qed
qed

text \<open>
  Safety of the commit: the offset handed to the queue is above every offset that has been
  completed so far by this call and at most every offset that is still in flight.
\<close>

lemma infl_Complete_safe:
  assumes "infl_inv f" and "infl_Complete f list = (f', next, True)"
  shows "\<forall>x \<in> in_flight f'. next \<le> x" and "minOffset f < next" and "next \<le> maxOffset f + 1"
    and "in_flight f' = {} \<Longrightarrow> next = maxOffset f + 1"
    and "in_flight f' \<noteq> {} \<Longrightarrow> next = Min (in_flight f')"
proof -
  let ?g = "fst (complete_items f list)"
  note items = complete_items_core [OF infl_inv_core [OF assms(1)], of list]
  note cases = infl_Complete_cases [OF assms(1), of list]
  have flight: "in_flight f' = in_flight ?g"
    using infl_Complete_flight [OF assms(1), of list] assms(2) by simp
  have sub: "in_flight ?g \<subseteq> in_flight f" using items by blast
  have up: "x \<le> maxOffset f" if "x \<in> in_flight f" for x
    using that assms(1) by (simp add: infl_inv_def infl_core_def)
  consider (all) "in_flight f \<noteq> {}" "in_flight ?g = {}" "next = maxOffset f + 1"
    | (some) "in_flight ?g \<noteq> {}" "next = Min (in_flight ?g)" "minOffset f < next"
    using cases assms(2) by fastforce
  then have "(\<forall>x \<in> in_flight ?g. next \<le> x) \<and> minOffset f < next \<and> next \<le> maxOffset f + 1 \<and>
      (in_flight ?g = {} \<longrightarrow> next = maxOffset f + 1) \<and>
      (in_flight ?g \<noteq> {} \<longrightarrow> next = Min (in_flight ?g))"
  proof cases
    case all
    then have "minOffset f \<in> in_flight f" using assms(1) by (simp add: infl_inv_def)
    then show ?thesis using all up by force
  next
    case some
    then have "next \<in> in_flight ?g" by (simp add: Min_in)
    then have "next \<le> maxOffset f + 1" using sub up by force
    then show ?thesis using some by simp
  qed
  then show "\<forall>x \<in> in_flight f'. next \<le> x" and "minOffset f < next" and "next \<le> maxOffset f + 1"
    and "in_flight f' = {} \<Longrightarrow> next = maxOffset f + 1"
    and "in_flight f' \<noteq> {} \<Longrightarrow> next = Min (in_flight f')"
    unfolding flight by blast+
qed

section \<open>Completion under in-order delivery\<close>

text \<open>
  On sorted lists a completion of \<open>(a, m)\<close> covers every offset of \<open>a\<close> up to \<open>m\<close>, so
  the detailed bookkeeping refines the map from offsets to actors with the obvious
  operation on it.
\<close>

definition spec_complete ::
  "(int \<Rightarrow> string option) \<Rightarrow> inflight_complete list \<Rightarrow> (int \<Rightarrow> string option)" where
  "spec_complete m list = (\<lambda>off. case m off of None \<Rightarrow> None
     | Some a \<Rightarrow> if \<exists>it \<in> set list. ic_ActorId it = a \<and> off \<le> ic_MaxOffset it then None else Some a)"

definition sorted_lists :: "inflight \<Rightarrow> bool" where
  "sorted_lists f \<longleftrightarrow> (\<forall>a l. map_Get (actorOffsets f) a = Some l \<longrightarrow> sorted l)"

lemma covered_sorted:
  assumes "infl_core f" and "sorted_lists f"
  shows "off \<in> set (covered f a m) \<longleftrightarrow> map_Get (offsetActor f) off = Some a \<and> off \<le> m"
proof
  assume "map_Get (offsetActor f) off = Some a \<and> off \<le> m"
  then obtain l where l: "map_Get (actorOffsets f) a = Some l" "off \<in> set l" "off \<le> m"
    using infl_owner [OF assms(1)] by blast
  then have "sorted l" using assms(2) by (simp add: sorted_lists_def)
  then have "off \<in> set (takeWhile (\<lambda>x. x \<le> m) l)"
    using l(2,3) by (induction l) auto
  then show "off \<in> set (covered f a m)" using l(1) by (simp add: covered_def)
qed (use covered_owner [OF assms(1)] in blast)

lemma sorted_lists_remove: "sorted_lists f \<Longrightarrow> sorted_lists (fst (infl_remove f a m))"
  by (auto simp: sorted_lists_def infl_remove_actorOffsets Let_def sorted_dropWhile
      split: if_splits option.splits)

lemma complete_items_sorted:
  assumes "infl_core f" and "sorted_lists f"
  shows "sorted_lists (fst (complete_items f list)) \<and>
    map_Get (offsetActor (fst (complete_items f list))) =
      spec_complete (map_Get (offsetActor f)) list"
proof (induction list rule: rev_induct)
  case Nil
  then show ?case
    using assms(2) by (auto simp: complete_items_def spec_complete_def split: option.split)
next
  case (snoc it list)
  let ?g = "fst (complete_items f list)"
  have g: "infl_core ?g" "sorted_lists ?g" using complete_items_core [OF assms(1)] snoc by blast+
  have step: "fst (complete_items f (list @ [it])) =
      fst (infl_remove ?g (ic_ActorId it) (ic_MaxOffset it))"
    by (simp add: complete_items_snoc Let_def split: prod.split)
  have "map_Get (offsetActor (fst (infl_remove ?g (ic_ActorId it) (ic_MaxOffset it)))) off =
      spec_complete (map_Get (offsetActor f)) (list @ [it]) off" for off
    unfolding infl_remove_fields(1) covered_sorted [OF g] using snoc
    by (auto simp: spec_complete_def split: option.splits)
  then show ?case unfolding step using sorted_lists_remove [OF g(2)] by auto
qed

lemma infl_Complete_refines:
  assumes "infl_inv f" and "sorted_lists f"
  shows "map_Get (offsetActor (fst (infl_Complete f list))) =
    spec_complete (map_Get (offsetActor f)) list"
proof -
  have "offsetActor (fst (infl_Complete f list)) = offsetActor (fst (complete_items f list))"
    by (simp add: infl_Complete_def infl_resetMinOffset_def Let_def split: prod.split)
  then show ?thesis
    using complete_items_sorted [OF infl_inv_core [OF assms(1)] assms(2)] by simp
qed

text \<open>Whatever the order, an offset leaves the window only through an item that covers it.\<close>

lemma complete_items_covered:
  assumes "infl_core f" and "x \<in> in_flight f" and "x \<notin> in_flight (fst (complete_items f list))"
  shows "\<exists>it \<in> set list. map_Get (offsetActor f) x = Some (ic_ActorId it) \<and> x \<le> ic_MaxOffset it"
  using assms(3)
proof (induction list rule: rev_induct)
  case Nil
  then show ?case using assms(2) by (simp add: complete_items_def)
next
  case (snoc it list)
  let ?g = "fst (complete_items f list)"
  have g: "infl_core ?g" and same: "\<forall>x \<in> in_flight ?g. map_Get (offsetActor ?g) x = map_Get (offsetActor f) x"
    using complete_items_core [OF assms(1), of list] by blast+
  show ?case
  proof (cases "x \<in> in_flight ?g")
    case True
    have "fst (complete_items f (list @ [it])) = fst (infl_remove ?g (ic_ActorId it) (ic_MaxOffset it))"
      by (simp add: complete_items_snoc Let_def split: prod.split)
    then have "x \<in> set (covered ?g (ic_ActorId it) (ic_MaxOffset it))"
      using snoc.prems True infl_core_remove(2) [OF g] by simp
    then have "map_Get (offsetActor ?g) x = Some (ic_ActorId it)" "x \<le> ic_MaxOffset it"
      using covered_owner [OF g] by blast+
    then show ?thesis using same True by auto
  qed (use snoc.IH in auto)
qed

lemma infl_Complete_covered:
  assumes "infl_inv f" and "x \<in> in_flight f" and "x \<notin> in_flight (fst (infl_Complete f list))"
  shows "\<exists>it \<in> set list. map_Get (offsetActor f) x = Some (ic_ActorId it) \<and> x \<le> ic_MaxOffset it"
  using complete_items_covered [OF infl_inv_core [OF assms(1)] assms(2), of list] assms(3)
    infl_Complete_flight [OF assms(1), of list] by simp

lemma infl_ordered_Complete [keeps]:
  assumes "infl_ordered f"
  shows "infl_ordered (fst (infl_Complete f list))"
proof -
  let ?g = "fst (complete_items f list)" and ?f = "fst (infl_Complete f list)"
  have inv: "infl_inv f" and sorted: "sorted_lists f" and low: "\<forall>x \<in> in_flight f. minOffset f \<le> x"
    using assms by (simp_all add: infl_ordered_def sorted_lists_def)
  note items = complete_items_core [OF infl_inv_core [OF inv], of list]
  note cases = infl_Complete_cases [OF inv, of list]
  have same: "actorOffsets ?f = actorOffsets ?g"
    by (simp add: infl_Complete_def infl_resetMinOffset_def Let_def split: prod.split)
  have "sorted_lists ?g" using complete_items_sorted [OF infl_inv_core [OF inv] sorted] by blast
  moreover have "\<forall>x \<in> in_flight ?f. minOffset ?f \<le> x"
  proof (cases "minOffset f \<in> in_flight ?g")
    case True
    then show ?thesis using cases(4) items low by auto
  next
    case False
    show ?thesis
    proof (cases "in_flight ?g = {}")
      case True
      then show ?thesis using infl_Complete_flight [OF inv, of list] by simp
    next
      case nonempty: False
      then show ?thesis using cases(3) False infl_Complete_flight [OF inv, of list] by simp
    qed
  qed
  ultimately show ?thesis
    using infl_inv_Complete [OF inv, of list] same by (simp add: infl_ordered_def sorted_lists_def)
qed

section \<open>A shard over time\<close>

text \<open>
  The life of one shard's window with limit \<open>L\<close>, where \<open>who\<close> names the receiver of the message at an
  offset. Deliveries come in any order: after a seek the queue delivers again what was delivered
  before, completed or not. \<open>D\<close>: the offsets delivered so far. \<open>done\<close>: those that some \<open>Complete\<close> has
  removed. \<open>cs\<close>: the commits, newest first, each with what had been delivered before it. \<open>ord\<close>: so far
  every delivery was of an offset in flight or above all offsets delivered before.
\<close>

inductive shard_run ::
  "int \<Rightarrow> (int \<Rightarrow> string) \<Rightarrow> inflight \<Rightarrow> int set \<Rightarrow> int set \<Rightarrow> (int \<times> int set) list \<Rightarrow> bool \<Rightarrow> bool"
  for L who where
  run_start: "shard_run L who (NewInflight L) {} {} [] True"
| run_deliver: "shard_run L who f D done cs ord \<Longrightarrow> 0 \<le> off \<Longrightarrow> \<not> infl_Full f off \<Longrightarrow>
    shard_run L who (infl_Add f off (who off)) (insert off D) done cs
      (ord \<and> (off \<in> in_flight f \<or> (\<forall>x \<in> D. x < off)))"
| run_complete: "shard_run L who f D done cs ord \<Longrightarrow> infl_Complete f list = (f', next, advanced) \<Longrightarrow>
    shard_run L who f' D (done \<union> (in_flight f - in_flight f'))
      (if advanced then (next, D) # cs else cs) ord"

text \<open>\<open>w\<close>: the newest commit, as a bound on everything still to come.\<close>

definition run_inv :: "int \<Rightarrow> inflight \<Rightarrow> int set \<Rightarrow> int list \<Rightarrow> bool" where
  "run_inv L f D cs \<longleftrightarrow>
     infl_ordered f \<and> windowLimit f = L \<and> finite D \<and> in_flight f \<subseteq> D \<and>
     (in_flight f \<noteq> {} \<longrightarrow> maxOffset f = Max D \<and> maxOffset f - minOffset f < L \<and>
        (\<forall>c \<in> set cs. c \<le> minOffset f)) \<and>
     (in_flight f = {} \<longrightarrow> D \<noteq> {} \<longrightarrow> cs \<noteq> [] \<and> hd cs = Max D + 1) \<and>
     (\<forall>c \<in> set cs. D \<noteq> {} \<and> c \<le> Max D + 1) \<and> sorted_wrt (>) cs"

lemma run_inv_deliver:
  assumes "run_inv L f D cs" and "0 < L" and "0 \<le> off" and "\<not> infl_Full f off"
    and "map_Get (offsetActor f) off = Some a \<or> (\<forall>x \<in> D. x < off)"
  shows "run_inv L (infl_Add f off a) (insert off D) cs"
proof -
  have ord: "infl_ordered f" and inv: "infl_inv f" and sub: "in_flight f \<subseteq> D" and fin: "finite D"
    using assms(1) by (simp_all add: run_inv_def infl_ordered_def)
  have range: "x \<le> maxOffset f" if "x \<in> in_flight f" for x
    using that inv by (simp add: infl_inv_def infl_core_def)
  show ?thesis
  proof (cases "map_Get (offsetActor f) off = Some a")
    case True
    then have off: "off \<in> in_flight f" by (simp add: in_flight_def)
    have "infl_ordered (infl_Add f off a)"
      using ord assms(3) True off by (intro infl_ordered_Add) simp_all
    moreover have "insert off D = D" using off sub by auto
    moreover have ne: "in_flight f \<noteq> {}" using off by auto
    moreover have "minOffset f \<noteq> -1" "maxOffset f \<noteq> -1" "off \<le> maxOffset f"
      using infl_bounds [OF inv ne] range [OF off] by linarith+
    ultimately show ?thesis
      using assms(1) off by (auto simp: run_inv_def infl_Add_fields insert_absorb)
  next
    case False
    then have above: "\<forall>x \<in> D. x < off" using assms(5) by simp
    then have fresh: "off \<notin> in_flight f" using sub by auto
    then have none: "map_Get (offsetActor f) off = None" by (simp add: in_flight_def)
    have gt: "off > maxOffset f \<or> in_flight f = {}"
    proof (cases "in_flight f = {}")
      case False
      then have "D \<noteq> {}" "maxOffset f = Max D" using assms(1) sub by (auto simp: run_inv_def)
      then show ?thesis using above fin Max_in [of D] by metis
    qed simp
    have "maxOffset f = -1 \<and> minOffset f = -1" if "in_flight f = {}"
      using that inv by (simp add: infl_inv_def)
    then have gt': "off > maxOffset f" using gt assms(3) by auto
    have ord': "infl_ordered (infl_Add f off a)"
      using ord assms(3) none gt' by (intro infl_ordered_Add) simp_all
    have max_eq: "Max (insert off D) = off"
      using above fin by (intro Max_eqI) (auto simp: less_imp_le)
    have width: "maxOffset (infl_Add f off a) - minOffset (infl_Add f off a) < L"
      using infl_Add_window [OF inv _ assms(3,4) none, of a] assms(1,2) by (simp add: run_inv_def)
    have low: "c \<le> minOffset (infl_Add f off a)" if "c \<in> set cs" for c
    proof (cases "in_flight f = {}")
      case True
      then have "minOffset (infl_Add f off a) = off"
        using inv by (simp add: infl_Add_fields infl_inv_def)
      moreover have "D \<noteq> {}" "c \<le> Max D + 1" using assms(1) that by (auto simp: run_inv_def)
      moreover have "Max D < off" using above fin \<open>D \<noteq> {}\<close> by simp
      ultimately show ?thesis by linarith
    next
      case False
      then have "minOffset f \<noteq> -1" using infl_bounds(2) [OF inv] by auto
      then show ?thesis using False assms(1) that by (simp add: run_inv_def infl_Add_fields)
    qed
    have "c \<le> off + 1" if "c \<in> set cs" for c
    proof -
      have "D \<noteq> {}" "c \<le> Max D + 1" using assms(1) that by (auto simp: run_inv_def)
      moreover have "Max D < off" using above fin \<open>D \<noteq> {}\<close> by simp
      ultimately show ?thesis by linarith
    qed
    then show ?thesis
      using assms(1) ord' width low gt' sub fin max_eq unfolding run_inv_def in_flight_Add
      by (auto simp: infl_Add_fields)
  qed
qed

lemma run_inv_complete:
  assumes "run_inv L f D cs" and "infl_Complete f list = (f', next, advanced)"
  shows "run_inv L f' D (if advanced then next # cs else cs)"
proof -
  have ord: "infl_ordered f" and inv: "infl_inv f" and sub: "in_flight f \<subseteq> D" and fin: "finite D"
    using assms(1) by (simp_all add: run_inv_def infl_ordered_def)
  have f': "f' = fst (infl_Complete f list)" using assms(2) by simp
  have ord': "infl_ordered f'" unfolding f' by (rule infl_ordered_Complete [OF ord])
  then have inv': "infl_inv f'" by (simp add: infl_ordered_def)
  have sub': "in_flight f' \<subseteq> in_flight f" and lim: "windowLimit f' = windowLimit f"
    unfolding f' using infl_Complete_shrinks [OF inv] by simp_all
  let ?g = "fst (complete_items f list)"
  have flight: "in_flight f' = in_flight ?g" unfolding f' by (rule infl_Complete_flight [OF inv])
  have mm: "minOffset ?g = minOffset f" "maxOffset ?g = maxOffset f"
    using complete_items_core [OF infl_inv_core [OF inv], of list] by blast+
  note cases = infl_Complete_cases [OF inv, of list]
  consider (idle) "in_flight f = {}" | (all) "in_flight f \<noteq> {}" "in_flight f' = {}"
    | (stay) "minOffset f \<in> in_flight f'" | (move) "in_flight f' \<noteq> {}" "minOffset f \<notin> in_flight f'"
    by blast
  then show ?thesis
  proof cases
    case idle
    then have "\<not> advanced" "in_flight f' = {}" using cases(1) assms(2) sub' by auto
    then show ?thesis using idle assms(1) ord' lim by (simp add: run_inv_def)
  next
    case all
    then have res: advanced "next = maxOffset f + 1" using cases(2) assms(2) flight by auto
    have "D \<noteq> {}" and next_eq: "next = Max D + 1" and "\<forall>c \<in> set cs. c \<le> minOffset f"
      using all(1) res assms(1) sub by (auto simp: run_inv_def)
    moreover have "minOffset f < next" using res infl_bounds(3) [OF inv all(1)] by simp
    ultimately show ?thesis using res all assms(1) ord' lim by (auto simp: run_inv_def)
  next
    case stay
    then have "\<not> advanced" "minOffset f' = minOffset f" "maxOffset f' = maxOffset f"
      "in_flight f \<noteq> {}" "in_flight f' \<noteq> {}"
      using cases(4) assms(2) flight mm sub' by auto
    then show ?thesis using assms(1) ord' lim sub sub' by (auto simp: run_inv_def)
  next
    case move
    have res: "maxOffset f' = maxOffset f" "minOffset f' = next" "next = Min (in_flight f')"
      "advanced = (minOffset f < next)"
      using cases(3) move assms(2) mm flight by auto
    have ne: "in_flight f \<noteq> {}" using move(1) sub' by auto
    have "next \<in> in_flight f'" using move(1) res(3) by (simp add: Min_in)
    then have "next \<in> in_flight f" "next \<noteq> minOffset f" using sub' move(2) by auto
    then have lt: "minOffset f < next" using ord by (force simp: infl_ordered_def)
    have "next \<le> maxOffset f" using \<open>next \<in> in_flight f\<close> inv
      by (simp add: infl_inv_def infl_core_def)
    then have "next \<le> Max D + 1" using assms(1) ne by (simp add: run_inv_def)
    moreover have "\<forall>c \<in> set cs. c \<le> minOffset f" "maxOffset f - minOffset f < L"
      "maxOffset f = Max D" "windowLimit f = L" "sorted_wrt (>) cs" "D \<noteq> {}"
      using assms(1) ne sub by (auto simp: run_inv_def)
    moreover have "\<forall>c \<in> set cs. D \<noteq> {} \<and> c \<le> Max D + 1"
      using assms(1) by (simp add: run_inv_def)
    moreover have "\<forall>c \<in> set cs. c < next" using lt calculation(2) by fastforce
    moreover have "in_flight f' \<subseteq> D" using sub sub' by blast
    ultimately show ?thesis
      using move(1) lt res(1,2,4) ord' lim fin by (simp add: run_inv_def less_imp_le)
  qed
qed

text \<open>What holds in any order of deliveries: offsets are in flight or were completed.\<close>

definition tracks :: "(int \<Rightarrow> string) \<Rightarrow> inflight \<Rightarrow> int set \<Rightarrow> int set \<Rightarrow> (int \<times> int set) list \<Rightarrow> bool" where
  "tracks who f D done cs \<longleftrightarrow> infl_inv f \<and> finite D \<and>
     (\<forall>off i. map_Get (offsetActor f) off = Some i \<longrightarrow> i = who off) \<and> in_flight f \<union> done = D \<and>
     (in_flight f \<noteq> {} \<longrightarrow> maxOffset f \<in> D) \<and>
     (\<forall>(c, seen) \<in> set cs. finite seen \<and> seen \<noteq> {} \<and> c \<le> Max seen + 1 \<and> (\<forall>off \<in> seen. off < c \<longrightarrow> off \<in> done))"

lemma tracks_deliver:
  assumes "tracks who f D done cs" and "0 \<le> off"
  shows "tracks who (infl_Add f off (who off)) (insert off D) done cs"
proof -
  have "map_Get (offsetActor f) off \<in> {None, Some (who off)}"
    using assms(1) by (cases "map_Get (offsetActor f) off") (simp_all add: tracks_def)
  then have "infl_inv (infl_Add f off (who off))" using assms by (intro infl_inv_Add) (simp_all add: tracks_def)
  moreover have "maxOffset f = -1" if "in_flight f = {}" using that assms(1) by (simp add: tracks_def infl_inv_def)
  ultimately show ?thesis using assms by (auto simp: tracks_def infl_Add_fields)
qed

lemma tracks_complete:
  assumes "tracks who f D done cs" and "infl_Complete f list = (f', next, advanced)"
  shows "tracks who f' D (done \<union> (in_flight f - in_flight f')) (if advanced then (next, D) # cs else cs)"
proof -
  have inv: "infl_inv f" and D: "in_flight f \<union> done = D" "finite D" using assms(1) by (simp_all add: tracks_def)
  have f': "f' = fst (infl_Complete f list)" using assms(2) by simp
  have sub: "in_flight f' \<subseteq> in_flight f" unfolding f' by (rule infl_Complete_shrinks(1) [OF inv])
  have owner: "map_Get (offsetActor f') off = Some i \<Longrightarrow> i = who off" for off i
  proof -
    assume i: "map_Get (offsetActor f') off = Some i"
    then have "off \<in> in_flight f'" by (simp add: in_flight_def)
    then have "map_Get (offsetActor f) off = Some i"
      using infl_Complete_shrinks(2) [OF inv, of off list] i unfolding f' by simp
    then show "i = who off" using assms(1) by (simp add: tracks_def)
  qed
  have top: "maxOffset f' = maxOffset f" if "in_flight f' \<noteq> {}"
    using that infl_Complete_cases(3,4) [OF inv, of list] infl_Complete_flight [OF inv, of list]
      complete_items_core [OF infl_inv_core [OF inv], of list] f' by force
  have ne: "in_flight f \<noteq> {}" if advanced
    using infl_Complete_cases(1) [OF inv, of list] assms(2) that by auto
  have commit: "next \<le> Max D + 1 \<and> (\<forall>off \<in> in_flight f'. next \<le> off)" if adv: advanced
  proof -
    have res: "infl_Complete f list = (f', next, True)" using assms(2) adv by simp
    have "maxOffset f \<le> Max D" using assms(1) ne [OF adv] by (simp add: tracks_def)
    then show ?thesis using infl_Complete_safe(1,3) [OF inv res] by auto
  qed
  show ?thesis
    unfolding tracks_def
    using assms(1) infl_inv_Complete [OF inv, of list] owner sub top ne commit D
    by (fastforce simp: tracks_def f' [symmetric] split: if_splits)
qed

lemma shard_run_inv:
  "shard_run L who f D done cs ord \<Longrightarrow> 0 < L \<Longrightarrow> tracks who f D done cs \<and> (ord \<longrightarrow> run_inv L f D (map fst cs))"
proof (induction rule: shard_run.induct)
  case run_start
  then show ?case by (simp add: tracks_def run_inv_def infl_New) (simp add: NewInflight_def)
next
  case (run_deliver f D "done" cs ord off)
  have "map_Get (offsetActor f) off = Some (who off)" if "off \<in> in_flight f"
    using that run_deliver by (auto simp: in_flight_def tracks_def)
  then show ?case using run_deliver tracks_deliver run_inv_deliver by auto
next
  case (run_complete f D "done" cs ord list f' "next" advanced)
  then show ?case using tracks_complete run_inv_complete [of L f D "map fst cs" list f' "next" advanced] by auto
qed

section \<open>The smallest offset of an actor\<close>

lemma foldl_min_Min:
  fixes x :: int
  shows "foldl min x xs = Min (insert x (set xs))"
proof (induction xs arbitrary: x)
  case (Cons y xs)
  then show ?case by (cases "set xs = {}") (simp_all add: min.assoc)
qed simp

lemma GetMinOffset_core:
  assumes "infl_core f"
  shows "infl_GetMinOffset f a =
    (if \<exists>off. map_Get (offsetActor f) off = Some a
     then Inr (Min {off. map_Get (offsetActor f) off = Some a}, True) else Inr (0, False))"
proof (cases "map_Get (actorOffsets f) a")
  case None
  then show ?thesis using infl_owner [OF assms, of _ a] by (force simp: infl_GetMinOffset_def)
next
  case (Some l)
  then obtain x xs where l: "l = x # xs" using infl_lists [OF assms Some] by (cases l) auto
  have "{off. map_Get (offsetActor f) off = Some a} = set l"
    using infl_listed [OF assms Some] infl_owner [OF assms, of _ a] Some by auto
  then show ?thesis using Some l
    by (auto simp: infl_GetMinOffset_def foldl_min_Min and_then_def)
qed

lemma sorted_lists_ordered: "infl_ordered f \<Longrightarrow> sorted_lists f"
  by (simp add: infl_ordered_def sorted_lists_def)

text \<open>
  C6: commits are safe in whatever order the queue delivers, seeks back included: a commit is never
  above an offset still in flight, it passes no offset that had been delivered and has never been
  completed, nor the largest delivered one by more than one, and every delivered offset is in flight or
  was completed. As long as the queue delivered
  in order and no completed offset again, the commits moreover only advance, none lies above an offset
  in flight, the window is narrower than its limit, and when nothing is in flight the last commit is
  just above everything delivered. (After a redelivery of a completed offset a commit can move back.)
\<close>

theorem commits_are_safe:
  assumes "shard_run L who f D done cs ord" and "0 < L"
  shows "in_flight f \<union> done = D \<and>
    (\<forall>list f' next. infl_Complete f list = (f', next, True) \<longrightarrow>
       minOffset f < next \<and> (\<forall>off \<in> in_flight f'. next \<le> off)) \<and>
    (\<forall>(c, seen) \<in> set cs. c \<le> Max seen + 1 \<and> (\<forall>off \<in> seen. off < c \<longrightarrow> off \<in> done)) \<and>
    (ord \<longrightarrow> sorted_wrt (>) (map fst cs) \<and> (\<forall>(c, seen) \<in> set cs. \<forall>off \<in> in_flight f. c \<le> off) \<and>
       (in_flight f \<noteq> {} \<longrightarrow> maxOffset f - minOffset f < L) \<and>
       (in_flight f = {} \<and> D \<noteq> {} \<longrightarrow> cs \<noteq> [] \<and> fst (hd cs) = Max D + 1))"
proof -
  have track: "tracks who f D done cs" and run: "ord \<Longrightarrow> run_inv L f D (map fst cs)"
    using shard_run_inv [OF assms] by simp_all
  have "c \<le> off" if ord "(c, seen) \<in> set cs" "off \<in> in_flight f" for c seen off
  proof -
    have "c \<in> set (map fst cs)" using that(2) by force
    then have "c \<le> minOffset f" "minOffset f \<le> off"
      using run [OF that(1)] that(3) by (auto simp: run_inv_def infl_ordered_def)
    then show ?thesis by simp
  qed
  moreover have "minOffset f < next \<and> (\<forall>off \<in> in_flight f'. next \<le> off)"
    if "infl_Complete f list = (f', next, True)" for list f' "next"
    using infl_Complete_safe(1,2) [OF _ that] track by (simp add: tracks_def)
  ultimately show ?thesis
    using track run by (auto simp: tracks_def run_inv_def hd_map)
qed

definition two_in_flight :: inflight where
  "two_in_flight = infl_Add (infl_Add (NewInflight 4096) 0 ''a'') 1 ''b''"

definition a_then_b :: "int \<Rightarrow> string" where
  "a_then_b off = (if off = 0 then ''a'' else ''b'')"

lemma two_in_flight_run: "shard_run 4096 a_then_b two_in_flight {1, 0} {} [] True"
proof -
  have "shard_run 4096 a_then_b (infl_Add (NewInflight 4096) 0 (a_then_b 0)) (insert 0 {}) {} []
      (True \<and> (0 \<in> in_flight (NewInflight 4096) \<or> (\<forall>x \<in> {}. x < (0 :: int))))"
    by (rule run_deliver [OF run_start]) (simp_all add: infl_Full_def NewInflight_def NewMap_def)
  then have "shard_run 4096 a_then_b (infl_Add (NewInflight 4096) 0 ''a'') {0} {} [] True"
    by (simp add: a_then_b_def)
  then have "shard_run 4096 a_then_b (infl_Add (infl_Add (NewInflight 4096) 0 ''a'') 1 (a_then_b 1)) (insert 1 {0}) {} []
      (True \<and> (1 \<in> in_flight (infl_Add (NewInflight 4096) 0 ''a'') \<or> (\<forall>x \<in> {0}. x < (1 :: int))))"
    by (rule run_deliver) (simp_all add: infl_Full_def NewInflight_def NewMap_def infl_Add_def Let_def)
  then show ?thesis by (simp add: a_then_b_def two_in_flight_def)
qed

lemma two_in_flight_complete:
  "infl_Complete two_in_flight [\<lparr>ic_ActorId = ''a'', ic_MaxOffset = 0\<rparr>] =
     (\<lparr>windowLimit = 4096, minOffset = 1, maxOffset = 1, offsetActor = Some [(1, ''b'')],
       actorOffsets = Some [(''b'', [1])]\<rparr>, 1, True)"
  by code_simp

lemma two_in_flight_set: "in_flight two_in_flight = {0, 1}"
  by (auto simp: two_in_flight_def) (simp_all add: NewInflight_def in_flight_def NewMap_def)

text \<open>Then offset 0 is completed, commit 1 is sent, and the queue delivers offset 0 once more.\<close>

definition redelivered :: inflight where
  "redelivered = infl_Add \<lparr>windowLimit = 4096, minOffset = 1, maxOffset = 1, offsetActor = Some [(1, ''b'')],
     actorOffsets = Some [(''b'', [1])]\<rparr> 0 ''a''"

lemma redelivered_run: "shard_run 4096 a_then_b redelivered {1, 0} {0} [(1, {1, 0})] False"
proof -
  let ?f = "\<lparr>windowLimit = 4096, minOffset = 1, maxOffset = 1, offsetActor = Some [(1, ''b'')],
       actorOffsets = Some [(''b'', [1])]\<rparr>"
  have flight: "in_flight ?f = {1}" by (auto simp: in_flight_def split: if_splits)
  have "shard_run 4096 a_then_b ?f {1, 0} ({} \<union> (in_flight two_in_flight - in_flight ?f)) [(1, {1, 0})] True"
    using run_complete [OF two_in_flight_run two_in_flight_complete] by simp
  then have "shard_run 4096 a_then_b ?f {1, 0} {0} [(1, {1, 0})] True"
    by (simp add: flight two_in_flight_set insert_Diff_if)
  from run_deliver [OF this, of 0] show ?thesis
    using flight by (simp add: redelivered_def a_then_b_def infl_Full_def insert_commute)
qed

theorem commits_are_safe_witness:
  "\<exists>f done cs ord. shard_run 4096 a_then_b f {1, 0} done cs ord \<and> \<not> ord \<and> cs \<noteq> [] \<and>
     in_flight f = {0, 1} \<and> in_flight f \<union> done = {1, 0} \<and> (\<forall>(c, seen) \<in> set cs. c = 1 \<and> 0 \<in> done)"
proof -
  have "in_flight redelivered = {0, 1}"
    by (auto simp: redelivered_def) (simp_all add: in_flight_def split: if_splits)
  then have "shard_run 4096 a_then_b redelivered {1, 0} {0} [(1, {1, 0})] False \<and> \<not> False \<and>
      [(1 :: int, {1, 0 :: int})] \<noteq> [] \<and> in_flight redelivered = {0, 1} \<and>
      in_flight redelivered \<union> {0} = {1, 0} \<and>
      (\<forall>(c, seen) \<in> set [(1 :: int, {1, 0 :: int})]. c = 1 \<and> 0 \<in> {0 :: int})"
    using redelivered_run conjunct1 [OF commits_are_safe [OF redelivered_run]] by (auto simp: insert_commute)
  then show ?thesis by blast
qed

text \<open>
  One \<open>Complete\<close> on a well-formed window, whatever list the caller passes and in
  whatever order the offsets were added, keeps the window well-formed, and when it tells the
  caller to commit, no offset still in flight is below the commit and the position advances.
\<close>

theorem complete_step_safe:
  assumes "infl_inv f" and "infl_Complete f list = (f', next, advanced)"
  shows "infl_inv f' \<and> in_flight f' \<subseteq> in_flight f \<and>
    (advanced \<longrightarrow> minOffset f < next \<and> next \<le> maxOffset f + 1 \<and> (\<forall>off \<in> in_flight f'. next \<le> off))"
  using infl_inv_Complete [OF assms(1), of list] infl_Complete_shrinks(1) [OF assms(1), of list]
    infl_Complete_safe [OF assms(1), of list f' "next"] assms(2) by auto

lemma two_in_flight_inv: "infl_inv two_in_flight" "infl_ordered two_in_flight"
  using shard_run_inv [OF two_in_flight_run] by (simp_all add: run_inv_def infl_ordered_def)

theorem complete_step_safe_witness:
  "infl_inv (fst (infl_Complete two_in_flight [\<lparr>ic_ActorId = ''a'', ic_MaxOffset = 0\<rparr>])) \<and>
   (1::int) \<le> 1 \<and> minOffset two_in_flight < 1"
  using complete_step_safe [OF two_in_flight_inv(1) two_in_flight_complete]
    two_in_flight_complete by simp

text \<open>
  What \<open>Complete\<close> promises of the offsets of each actor, in the order they were delivered: an item
  drops those in front that its \<open>MaxOffset\<close> covers, up to the first that it does not.
\<close>

definition offsets_of :: "inflight \<Rightarrow> string \<Rightarrow> int list" where
  "offsets_of f i = (case map_Get (actorOffsets f) i of None \<Rightarrow> [] | Some l \<Rightarrow> l)"

definition spec_drop :: "inflight_complete \<Rightarrow> (string \<Rightarrow> int list) \<Rightarrow> (string \<Rightarrow> int list)" where
  "spec_drop it A = A(ic_ActorId it := dropWhile (\<lambda>off. off \<le> ic_MaxOffset it) (A (ic_ActorId it)))"

lemma offsets_of_remove: "offsets_of (fst (infl_remove f a m)) =
    spec_drop \<lparr>ic_ActorId = a, ic_MaxOffset = m\<rparr> (offsets_of f)"
  by (rule ext) (auto simp: offsets_of_def spec_drop_def infl_remove_actorOffsets Let_def
      eq_commute [of "[]" "dropWhile _ _"] dropWhile_eq_Nil_conv split: option.split)

lemma offsets_of_items: "offsets_of (fst (complete_items f list)) = fold spec_drop list (offsets_of f)"
proof (induction list rule: rev_induct)
  case (snoc it list)
  then show ?case
    using offsets_of_remove by (simp add: complete_items_snoc case_prod_beta Let_def spec_drop_def)
qed (simp add: complete_items_def)

lemma offsets_of_owner: "infl_inv f \<Longrightarrow> map_Get (offsetActor f) off = Some i \<longleftrightarrow> off \<in> set (offsets_of f i)"
  using infl_owner [of f off i] infl_listed [of f i _ off]
  by (cases "map_Get (actorOffsets f) i") (auto simp: offsets_of_def infl_inv_core)

text \<open>
  C7: refinement, on every window that adding and completing can build. \<open>Complete\<close> with its two maps
  and the early exit of its loop drops, item by item, the covered offsets in front of the actor's
  offsets in the order of their delivery, and the map of offsets to actors holds exactly what remains.
  When the queue delivered in order, that removes exactly the offsets some item covers: those of the
  item's actor up to its \<open>MaxOffset\<close>. (After a seek back a covered offset can stay, behind one that is
  not covered.)
\<close>

theorem complete_refines_map:
  assumes "shard_run L who f D done cs ord" and "0 < L"
  shows "let f' = fst (infl_Complete f list) in
    offsets_of f' = fold spec_drop list (offsets_of f) \<and>
    (\<forall>off i. map_Get (offsetActor f') off = Some i \<longleftrightarrow> off \<in> set (offsets_of f' i)) \<and>
    (ord \<longrightarrow> map_Get (offsetActor f') = spec_complete (map_Get (offsetActor f)) list)"
proof -
  have inv: "infl_inv f" and ordered: "ord \<Longrightarrow> infl_ordered f"
    using shard_run_inv [OF assms] by (simp_all add: tracks_def run_inv_def)
  have "actorOffsets (fst (infl_Complete f list)) = actorOffsets (fst (complete_items f list))"
    by (simp add: infl_Complete_def infl_resetMinOffset_def Let_def split: prod.split)
  then have "offsets_of (fst (infl_Complete f list)) = fold spec_drop list (offsets_of f)"
    using offsets_of_items [of f list] by (simp add: offsets_of_def [abs_def])
  then show ?thesis
    using offsets_of_owner [OF infl_inv_Complete [OF inv]] infl_Complete_refines [OF inv] ordered sorted_lists_ordered
    by (simp add: Let_def)
qed

theorem complete_refines_map_witness:
  "map_Get (offsetActor (fst (infl_Complete two_in_flight [\<lparr>ic_ActorId = ''b'', ic_MaxOffset = 7\<rparr>]))) 0 =
     Some ''a'' \<and>
   map_Get (offsetActor (fst (infl_Complete two_in_flight [\<lparr>ic_ActorId = ''b'', ic_MaxOffset = 7\<rparr>]))) 1 =
     None"
proof -
  have "map_Get (offsetActor (fst (infl_Complete two_in_flight [\<lparr>ic_ActorId = ''b'', ic_MaxOffset = 7\<rparr>]))) =
      spec_complete (map_Get (offsetActor two_in_flight)) [\<lparr>ic_ActorId = ''b'', ic_MaxOffset = 7\<rparr>]"
    using complete_refines_map [OF two_in_flight_run] by (simp add: Let_def)
  then show ?thesis
    by (simp add: spec_complete_def) (simp add: two_in_flight_def infl_Add_fields NewInflight_def NewMap_def)
qed

text \<open>
  Both restrictions are needed: after a seek back to a completed offset the next commit can lie below
  the one before, and an offset that an item covers can stay in flight.
\<close>

fun shard_ops :: "(int + inflight_complete list) list \<Rightarrow> inflight \<Rightarrow> inflight \<times> int list" where
  "shard_ops [] f = (f, [])"
| "shard_ops (Inl off # ops) f = shard_ops ops (infl_Add f off ''a'')"
| "shard_ops (Inr list # ops) f =
     (let (f, next, advanced) = infl_Complete f list; (f, cs) = shard_ops ops f
      in (f, if advanced then next # cs else cs))"

definition item_a :: "int \<Rightarrow> inflight_complete list" where
  "item_a m = [\<lparr>ic_ActorId = ''a'', ic_MaxOffset = m\<rparr>]"

lemma seek_moves_commit_back:
  "snd (shard_ops [Inl 0, Inl 1, Inr (item_a 1), Inl 0, Inr (item_a 0)] (NewInflight 4096)) = [2, 1]"
  by code_simp

lemma seek_leaves_covered_offset:
  "offsets_of (fst (shard_ops [Inl 0, Inl 1, Inr (item_a 0), Inl 0, Inr (item_a 0)] (NewInflight 4096))) ''a'' = [1, 0]"
  by code_simp

text \<open>
  \<open>GetMinOffset\<close> never hits the panic of \<open>slices.Min\<close> on an empty slice: on a
  well-formed window it returns the smallest offset the actor has in flight, and reports
  absence exactly when the actor has none.
\<close>

theorem min_offset_total:
  assumes "infl_inv f"
  shows "infl_GetMinOffset f a =
    (if \<exists>off. map_Get (offsetActor f) off = Some a
     then Inr (Min {off. map_Get (offsetActor f) off = Some a}, True) else Inr (0, False))"
  by (rule GetMinOffset_core [OF infl_inv_core [OF assms]])

theorem min_offset_total_witness:
  "infl_GetMinOffset two_in_flight ''b'' = Inr (1, True) \<and>
   infl_GetMinOffset two_in_flight ''c'' = Inr (0, False)"
proof -
  have get: "map_Get (offsetActor two_in_flight) off =
      (if off = 1 then Some ''b'' else if off = 0 then Some ''a'' else None)" for off
    by (simp add: two_in_flight_def infl_Add_fields NewInflight_def NewMap_def)
  show ?thesis
    unfolding min_offset_total [OF two_in_flight_inv(1)] get by (simp cong: conj_cong)
qed

end
