(* ===== verification/Messages.thy ===== *)
theory Messages
  imports Prelude
begin

text \<open>
  message/mm: the shared message (message.go), the control messages between an actor and its
  node (mm.go) and the shard of an actor (shard.go, core/shard.go). A Go string is its bytes
  (a char list). \<open>'v\<close> stands for the Go values the program never looks into: actor
  states and the payloads of applications.
\<close>

section \<open>Messages\<close>

type_synonym bytes = "8 word list"

definition MessageTypeMemory :: int where "MessageTypeMemory = 0"
definition MessageTypeTimer :: int where "MessageTypeTimer = 1"
definition MessageTypeNetwork :: int where "MessageTypeNetwork = 2"

lemmas message_types = MessageTypeMemory_def MessageTypeTimer_def MessageTypeNetwork_def

record message_ref =
  ref_Type :: string
  ref_Id :: string

record header =
  hdr_Key :: string
  hdr_Value :: bytes

record 'v actor_snapshot =
  snap_ActorId :: string
  snap_ActorType :: string
  snap_Version :: int
  snap_Offset :: int
  snap_State :: 'v
  snap_Dedup :: "string list"

instantiation actor_snapshot_ext :: (default, default) default
begin
definition default_actor_snapshot_ext :: "('a, 'b) actor_snapshot_ext" where
  "default_actor_snapshot_ext = actor_snapshot_ext [] [] 0 0 default [] default"
instance ..
end

text \<open>
  The dynamic types a payload (\<open>any\<close>) can have: nothing, raw bytes, a
  \<open>json.RawMessage\<close>, the five control messages of an actor, or an application value.
\<close>

datatype 'v payload =
    PNil
  | PBytes bytes
  | PRaw bytes
  | PSnapshot "'v actor_snapshot"
  | PIdle
  | PAlive int
  | PReady
  | PStopped
  | PValue 'v

record 'v message =
  Sender :: message_ref
  Receiver :: message_ref
  TraceId :: string
  MessageId :: string
  Offset :: int
  Type :: int
  Command :: string
  Payload :: "'v payload"
  Headers :: "header list"

definition empty_ref :: message_ref where
  "empty_ref = \<lparr>ref_Type = [], ref_Id = []\<rparr>"

text \<open>The zero message, from which composite literals set the fields they name.\<close>

definition zero_message :: "'v message" where
  "zero_message = \<lparr>Sender = empty_ref, Receiver = empty_ref, TraceId = [], MessageId = [],
     Offset = 0, Type = MessageTypeMemory, Command = [], Payload = PNil, Headers = []\<rparr>"

definition CmdActorSnapshot :: string where "CmdActorSnapshot = ''actor/snapshot''"
definition CmdActorIdle :: string where "CmdActorIdle = ''actor/idle''"
definition CmdActorAlive :: string where "CmdActorAlive = ''actor/alive''"
definition CmdActorReady :: string where "CmdActorReady = ''actor/ready''"
definition CmdActorStopped :: string where "CmdActorStopped = ''actor/stopped''"

lemmas commands = CmdActorSnapshot_def CmdActorIdle_def CmdActorAlive_def CmdActorReady_def
  CmdActorStopped_def

section \<open>The shard of an actor\<close>

text \<open>32-bit FNV-1a (hash/fnv): offset basis 2166136261, prime 16777619.\<close>

definition fnv_add :: "32 word \<Rightarrow> char \<Rightarrow> 32 word" where
  "fnv_add h c = (xor h (of_char c)) * 16777619"

definition fnv32a :: "string \<Rightarrow> 32 word" where
  "fnv32a s = foldl fnv_add 2166136261 s"

definition ShardCount :: int where "ShardCount = 1024"

definition ActorShardID :: "string \<Rightarrow> int" where
  "ActorShardID actorID = sint (fnv32a actorID mod word_of_int ShardCount)"

definition ActorShard :: "string \<Rightarrow> int" where
  "ActorShard actorID = ActorShardID actorID"

lemma ActorShardID_mod: "ActorShardID a = uint (fnv32a a) mod 1024"
proof -
  have "uint (fnv32a a mod 1024) = uint (fnv32a a) mod 1024"
    by (simp add: uint_mod)
  moreover have "0 \<le> uint (fnv32a a) mod 1024" "uint (fnv32a a) mod 1024 < 1024" by simp_all
  ultimately have "sint (fnv32a a mod 1024) = uint (fnv32a a) mod 1024"
    by (simp add: sint_uint signed_take_bit_int_eq_self)
  then show ?thesis by (simp add: ActorShardID_def ShardCount_def)
qed

lemma ActorShardID_range: "0 \<le> ActorShardID a" "ActorShardID a < ShardCount"
  by (simp_all add: ActorShardID_mod ShardCount_def)

text \<open>
  Every actor id has a shard in \<open>0 .. 1023\<close> (the conversions between uint32 and int32
  never produce a negative shard), and the routing of the ids that message/mm/shard_test.go
  pins is the one it demands.
\<close>

theorem shard_in_range_and_stable:
  "0 \<le> ActorShard a \<and> ActorShard a < ShardCount \<and>
   ActorShard [] = 453 \<and> ActorShard ''actor-1'' = 460 \<and> ActorShard ''receiver'' = 624"
proof -
  have "ActorShard [] = 453" "ActorShard ''actor-1'' = 460" "ActorShard ''receiver'' = 624"
    by (simp_all add: ActorShard_def ActorShardID_mod fnv32a_def fnv_add_def of_char_def)
  then show ?thesis using ActorShardID_range [of a] by (simp add: ActorShard_def)
qed

end
