(* ===== verification/MessageId.thy ===== *)
theory MessageId
  imports Messages
begin

text \<open>
  core/message_id.go: message ids are the URL-safe base64 form of the SHA-256 digest of the
  length-prefixed parent, sender and receiver ids and a sequence number. The parts of Go's
  standard library it uses (\<open>binary.PutUvarint\<close>, crypto/sha256, encoding/base64) are
  modelled first; the random bytes of \<open>NewRandomID\<close> are an argument.
\<close>

unbundle bit_operations_syntax

section \<open>Varints\<close>

function uvarint :: "64 word \<Rightarrow> bytes" where
  "uvarint x =
     (if x \<ge> 0x80 then (ucast x OR 0x80) # uvarint (drop_bit 7 x) else [ucast x])"
  by pat_completeness auto
termination
proof (relation "measure unat", goal_cases)
  case (2 x)
  then have "128 \<le> unat x" by (simp add: word_le_nat_alt)
  moreover have "unat (drop_bit 7 x) = unat x div 128" by (simp add: unat_drop_bit_eq) (simp add: drop_bit_eq_div)
  ultimately show ?case by simp
qed simp

declare uvarint.simps [simp del]

fun read_uvarint :: "bytes \<Rightarrow> (64 word \<times> bytes) option" where
  "read_uvarint [] = None"
| "read_uvarint (b # bs) =
     (if b < 0x80 then Some (ucast b, bs)
      else case read_uvarint bs of None \<Rightarrow> None
        | Some (y, r) \<Rightarrow> Some ((ucast b AND 0x7f) OR push_bit 7 y, r))"

section \<open>SHA-256\<close>

text \<open>
  The round constants and the initial state are the first 32 fractional bits of the cube roots
  of the first sixty-four primes and of the square roots of the first eight, computed from the
  integer roots of scaled primes.
\<close>

definition int_root :: "nat \<Rightarrow> int \<Rightarrow> int" where
  "int_root k n = foldl (\<lambda>r b. if (r + 2 ^ b) ^ k \<le> n then r + 2 ^ b else r) 0 (rev [0..<36])"

definition primes_upto :: "nat \<Rightarrow> nat list" where
  "primes_upto n = filter (\<lambda>p. \<forall>d \<in> set [2..<p]. p mod d \<noteq> 0) [2..<Suc n]"

definition sha_K :: "32 word list" where
  "sha_K = map (\<lambda>p. of_int (int_root 3 (int p * 2 ^ 96))) (primes_upto 311)"

definition sha_init :: "32 word list" where
  "sha_init = map (\<lambda>p. of_int (int_root 2 (int p * 2 ^ 64))) (primes_upto 19)"

definition rotr :: "nat \<Rightarrow> 32 word \<Rightarrow> 32 word" where
  "rotr n x = drop_bit n x OR push_bit (32 - n) x"

definition be32 :: "32 word \<Rightarrow> bytes" where
  "be32 w = map (\<lambda>k. ucast (drop_bit k w)) [24, 16, 8, 0]"

fun words_of :: "bytes \<Rightarrow> 32 word list" where
  "words_of (a # b # c # d # r) =
     (push_bit 24 (ucast a) OR push_bit 16 (ucast b) OR push_bit 8 (ucast c) OR ucast d) # words_of r"
| "words_of _ = []"

definition sha_pad :: "bytes \<Rightarrow> bytes" where
  "sha_pad m =
     (let n = length m; z = (119 - n mod 64) mod 64;
          bits = (of_nat (8 * n) :: 64 word)
      in m @ 0x80 # replicate z 0 @ map (\<lambda>k. ucast (drop_bit k bits)) [56, 48, 40, 32, 24, 16, 8, 0])"

text \<open>The message schedule: sixteen words of the block, extended to sixty-four.\<close>

definition sha_extend :: "32 word list \<Rightarrow> 32 word list" where
  "sha_extend w =
     (let t = length w;
          v1 = w ! (t - 2); t1 = rotr 17 v1 XOR rotr 19 v1 XOR drop_bit 10 v1;
          v2 = w ! (t - 15); t2 = rotr 7 v2 XOR rotr 18 v2 XOR drop_bit 3 v2
      in w @ [t1 + w ! (t - 7) + t2 + w ! (t - 16)])"

definition sha_schedule :: "bytes \<Rightarrow> 32 word list" where
  "sha_schedule block = (sha_extend ^^ 48) (words_of block)"

fun sha_round :: "32 word list \<Rightarrow> 32 word \<times> 32 word \<Rightarrow> 32 word list" where
  "sha_round [a, b, c, d, e, f, g, h] (k, w) =
     (let t1 = h + (rotr 6 e XOR rotr 11 e XOR rotr 25 e) + ((e AND f) XOR (NOT e AND g)) + k + w;
          t2 = (rotr 2 a XOR rotr 13 a XOR rotr 22 a) + ((a AND b) XOR (a AND c) XOR (b AND c))
      in [t1 + t2, a, b, c, d + t1, e, f, g])"
| "sha_round s _ = s"

definition sha_block :: "32 word list \<Rightarrow> bytes \<Rightarrow> 32 word list" where
  "sha_block s block = map2 (+) s (foldl sha_round s (zip sha_K (sha_schedule block)))"

fun blocks :: "nat \<Rightarrow> 'a list \<Rightarrow> 'a list list" where
  "blocks 0 xs = []"
| "blocks (Suc n) xs = take 64 xs # blocks n (drop 64 xs)"

definition sha256 :: "bytes \<Rightarrow> bytes" where
  "sha256 m =
     (let p = sha_pad m
      in concat (map be32 (foldl sha_block sha_init (blocks (length p div 64) p))))"

section \<open>URL-safe base64\<close>

definition b64_alphabet :: string where
  "b64_alphabet = ''ABCDEFGHIJKLMNOPQRSTUVWXYZabcdefghijklmnopqrstuvwxyz0123456789-_''"

definition b64_digit :: "nat \<Rightarrow> char" where
  "b64_digit n = b64_alphabet ! (n mod 64)"

text \<open>\<open>pad\<close>: the padding of \<open>URLEncoding\<close> (one or two '='), none for \<open>RawURLEncoding\<close>.\<close>

fun base64 :: "bool \<Rightarrow> bytes \<Rightarrow> string" where
  "base64 pad [] = []"
| "base64 pad [a] =
     (let v = unat a * 2 ^ 16
      in [b64_digit (v div 2 ^ 18), b64_digit (v div 2 ^ 12)] @ (if pad then ''=='' else []))"
| "base64 pad [a, b] =
     (let v = unat a * 2 ^ 16 + unat b * 2 ^ 8
      in [b64_digit (v div 2 ^ 18), b64_digit (v div 2 ^ 12), b64_digit (v div 2 ^ 6)] @
         (if pad then ''='' else []))"
| "base64 pad (a # b # c # r) =
     (let v = unat a * 2 ^ 16 + unat b * 2 ^ 8 + unat c
      in b64_digit (v div 2 ^ 18) # b64_digit (v div 2 ^ 12) # b64_digit (v div 2 ^ 6) # b64_digit v #
         base64 pad r)"

section \<open>Message ids\<close>

definition bytes_of :: "string \<Rightarrow> bytes" where
  "bytes_of s = map of_char s"

text \<open>What \<open>writeMessageIDString\<close> and \<open>writeMessageIDInt\<close> append to the hash's input.\<close>

definition writeMessageIDString :: "bytes \<Rightarrow> string \<Rightarrow> bytes" where
  "writeMessageIDString h value = (h @ uvarint (of_nat (length value))) @ bytes_of value"

definition writeMessageIDInt :: "bytes \<Rightarrow> 64 word \<Rightarrow> bytes" where
  "writeMessageIDInt h value = h @ uvarint value"

definition id_preimage :: "string \<Rightarrow> string \<Rightarrow> string \<Rightarrow> 64 word \<Rightarrow> bytes" where
  "id_preimage parentID senderID receiverID seq =
     writeMessageIDInt
       (writeMessageIDString (writeMessageIDString (writeMessageIDString [] parentID) senderID) receiverID)
       seq"

definition GenerateMessageID :: "string \<Rightarrow> string \<Rightarrow> string \<Rightarrow> 64 word \<Rightarrow> string" where
  "GenerateMessageID parentID senderID receiverID seq =
     base64 True (sha256 (id_preimage parentID senderID receiverID seq))"

text \<open>\<open>rand.Read\<close> fills sixteen bytes or fails (None).\<close>

definition NewRandomID :: "bytes option \<Rightarrow> string option" where
  "NewRandomID rnd = (case rnd of None \<Rightarrow> None | Some r \<Rightarrow> Some (base64 False (take 16 r)))"

definition NewTimerMessageID :: "bytes option \<Rightarrow> string option" where
  "NewTimerMessageID rnd = NewRandomID rnd"

section \<open>Reading an id's input back\<close>

lemma split_bits:
  fixes x m :: "64 word" and e :: "8 word"
  assumes "\<And>n. bit m n \<longleftrightarrow> n < 7" and "\<And>n. bit e n \<longleftrightarrow> n = 7"
  shows "(ucast (ucast x OR e) AND m) OR push_bit 7 (drop_bit 7 x) = x"
proof (rule bit_word_eqI)
  fix n
  assume "n < LENGTH(64)"
  then show "bit ((ucast (ucast x OR e) AND m) OR push_bit 7 (drop_bit 7 x)) n = bit x n"
    using assms by (cases "n < 7") (simp_all add: bit_simps)
qed

lemma uvarint_step:
  fixes x :: "64 word"
  shows "(ucast (ucast x OR 0x80 :: 8 word) AND 0x7f) OR push_bit 7 (drop_bit 7 x) = x"
    and "\<not> (ucast x OR 0x80 :: 8 word) < 0x80"
proof -
  have m7: "(0x7f :: 64 word) = mask 7" by (simp add: mask_eq_exp_minus_1)
  have m: "bit (0x7f :: 64 word) n \<longleftrightarrow> n < 7" for n unfolding m7 by (auto simp: bit_mask_iff)
  have e7: "(0x80 :: 8 word) = 2 ^ 7" by simp
  have e: "bit (0x80 :: 8 word) n \<longleftrightarrow> n = 7" for n
    unfolding e7 bit_exp_iff by auto
  show "(ucast (ucast x OR 0x80 :: 8 word) AND 0x7f) OR push_bit 7 (drop_bit 7 x) = x"
    by (rule split_bits [OF m e])
  have "(0x80 :: 8 word) \<le> ucast x OR 0x80" 
    using or_greater_eq [of "uint (ucast x :: 8 word)" "uint (0x80 :: 8 word)"]
    by (simp only: word_le_def unsigned_or_eq or.commute) simp
  then show "\<not> (ucast x OR 0x80 :: 8 word) < 0x80" by simp
qed

lemma read_uvarint: "read_uvarint (uvarint x @ r) = Some (x, r)"
proof (induction x rule: uvarint.induct)
  case (1 x)
  show ?case
  proof (cases "x \<ge> 0x80")
    case True
    then show ?thesis
      using 1 uvarint_step [of x] by (subst uvarint.simps) simp
  next
    case False
    then have "unat x < 128" by (simp add: word_less_nat_alt not_le)
    then have u: "unat (ucast x :: 8 word) = unat x"
      by (simp add: unsigned_ucast_eq take_bit_nat_eq_self)
    then have "(ucast x :: 8 word) < 0x80" using \<open>unat x < 128\<close> by (simp add: word_less_nat_alt)
    moreover have "ucast (ucast x :: 8 word) = x"
    proof -
      have "unat (ucast (ucast x :: 8 word) :: 64 word) = take_bit 64 (unat (ucast x :: 8 word))"
        by (simp add: unsigned_ucast_eq unsigned_take_bit_eq)
      also have "\<dots> = unat x" using u \<open>unat x < 128\<close> by (simp add: take_bit_nat_eq_self)
      finally show ?thesis by (simp only: word_unat_eq_iff)
    qed
    ultimately have "(ucast x :: 8 word) < 0x80" "ucast (ucast x :: 8 word) = x" .
    then show ?thesis using False by (subst uvarint.simps) simp
  qed
qed

lemma bytes_of_inj: "bytes_of s = bytes_of t \<longleftrightarrow> s = t"
proof -
  have "inj (of_char :: char \<Rightarrow> 8 word)"
  proof (rule injI)
    fix c d :: char
    assume eq: "(of_char c :: 8 word) = of_char d"
    have nat: "unat (of_char c :: 8 word) = of_char c" for c :: char
    proof -
      have "of_nat (of_char c) = (of_char c :: 8 word)" by (rule of_nat_of_char)
      moreover have "(of_char c :: nat) < 2 ^ LENGTH(8)" using nat_of_char_less_256 [of c] by simp
      ultimately show ?thesis by (rule of_nat_inverse)
    qed
    have "(of_char c :: nat) = unat (of_char c :: 8 word)" by (rule nat [symmetric])
    also have "\<dots> = unat (of_char d :: 8 word)" by (rule arg_cong [OF eq])
    also have "\<dots> = of_char d" by (rule nat)
    finally show "c = d" by simp
  qed
  then show ?thesis by (simp add: bytes_of_def inj_map_eq_map)
qed

lemma length_bytes_of [simp]: "length (bytes_of s) = length s"
  by (simp add: bytes_of_def)

text \<open>A length-prefixed string can be split off the front of any input.\<close>

lemma prefixed_string_inj:
  assumes "uvarint (of_nat (length s)) @ bytes_of s @ r = uvarint (of_nat (length t)) @ bytes_of t @ u"
    and "length s < 2 ^ 64" and "length t < 2 ^ 64"
  shows "s = t \<and> r = u"
proof -
  have "(of_nat (length s) :: 64 word) = of_nat (length t) \<and> bytes_of s @ r = bytes_of t @ u"
    using arg_cong [OF assms(1), of read_uvarint] unfolding read_uvarint by simp
  then have len: "(of_nat (length s) :: 64 word) = of_nat (length t)"
    and rest: "bytes_of s @ r = bytes_of t @ u" by blast+
  have "length s = length t"
    using of_nat_inverse [OF len] of_nat_inverse [OF refl, of "length t", where 'a = 64] assms(2,3)
    by simp
  then show ?thesis using rest by (simp add: bytes_of_inj)
qed

lemma id_preimage_parts:
  "id_preimage p s r n = uvarint (of_nat (length p)) @ bytes_of p @
     uvarint (of_nat (length s)) @ bytes_of s @ uvarint (of_nat (length r)) @ bytes_of r @ uvarint n @ []"
  by (simp add: id_preimage_def writeMessageIDString_def writeMessageIDInt_def)

lemma id_preimage_inj:
  assumes "id_preimage p s r n = id_preimage p' s' r' n'"
    and "\<forall>t \<in> {p, s, r, p', s', r'}. length t < 2 ^ 64"
  shows "p = p' \<and> s = s' \<and> r = r' \<and> n = n'"
proof -
  have bound: "length t < 2 ^ 64" if "t \<in> {p, s, r, p', s', r'}" for t
    using that assms(2) by blast
  note p = prefixed_string_inj [OF assms(1) [unfolded id_preimage_parts] bound bound]
  note s = prefixed_string_inj [OF p [THEN conjunct2] bound bound]
  note r = prefixed_string_inj [OF s [THEN conjunct2] bound bound]
  have "read_uvarint (uvarint n @ []) = read_uvarint (uvarint n' @ [])"
    using r by simp
  then have "n = n'" unfolding read_uvarint by simp
  then show ?thesis using p s r by simp
qed

lemma uvarint_length: "length (uvarint x) \<le> 10"
proof -
  have bound: "unat x < 2 ^ (7 * k) \<Longrightarrow> 0 < k \<Longrightarrow> length (uvarint x) \<le> k" for k
  proof (induction k arbitrary: x)
    case (Suc k)
    show ?case
    proof (cases "x \<ge> 0x80")
      case True
      then have "128 \<le> unat x" by (simp add: word_le_nat_alt)
      then have "0 < k" using Suc.prems(1) by (cases k) simp_all
      have "unat (drop_bit 7 x) = unat x div 2 ^ 7"
        by (simp add: unat_drop_bit_eq) (simp add: drop_bit_eq_div)
      moreover have "unat x div 2 ^ 7 < 2 ^ (7 * k)"
        using Suc.prems(1) by (intro less_mult_imp_div_less) (simp add: power_add mult.commute)
      ultimately have "unat (drop_bit 7 x) < 2 ^ (7 * k)" by (simp only:)
      then have "length (uvarint (drop_bit 7 x)) \<le> k" using \<open>0 < k\<close> by (rule Suc.IH)
      moreover have "length (uvarint x) = Suc (length (uvarint (drop_bit 7 x)))"
        using True by (subst uvarint.simps) (simp only: if_True list.size add_0 plus_1_eq_Suc add_Suc_right add_0_right)
      ultimately show ?thesis by simp
    next
      case False
      then show ?thesis by (subst uvarint.simps) simp
    qed
  qed simp
  have "unat x < 2 ^ LENGTH(64)" by (rule unsigned_less)
  then have "unat x < 2 ^ (7 * 10)" by simp
  then show ?thesis by (rule bound) simp
qed

section \<open>Base64 loses nothing\<close>

lemma b64_digit_inj: "b64_digit a = b64_digit b \<Longrightarrow> a mod 64 = b mod 64"
proof -
  have "distinct b64_alphabet" "length b64_alphabet = 64" by (simp_all add: b64_alphabet_def)
  then show "b64_digit a = b64_digit b \<Longrightarrow> a mod 64 = b mod 64"
    by (simp add: b64_digit_def nth_eq_iff_index_eq)
qed

lemma div_mod_eqI: "x div k = y div k \<Longrightarrow> x mod k = y mod k \<Longrightarrow> x = (y::nat)"
  by (metis div_mult_mod_eq)

lemma b64_quad:
  assumes "v < 2 ^ 24" and "u < (2::nat) ^ 24"
    and "v div 2 ^ 18 mod 64 = u div 2 ^ 18 mod 64" and "v div 2 ^ 12 mod 64 = u div 2 ^ 12 mod 64"
    and "v div 2 ^ 6 mod 64 = u div 2 ^ 6 mod 64" and "v mod 64 = u mod 64"
  shows "v = u"
proof -
  have shift: "w div 2 ^ (n + 6) = w div 2 ^ n div 64" for w n :: nat
    by (simp add: power_add div_mult2_eq)
  have "v div 2 ^ 18 < 64" "u div 2 ^ 18 < 64"
    using assms(1,2) by (simp_all add: less_mult_imp_div_less)
  then have "v div 2 ^ 12 div 64 = u div 2 ^ 12 div 64"
    using assms(3) shift [of _ 12] by simp
  then have "v div 2 ^ 12 = u div 2 ^ 12" using assms(4) by (rule div_mod_eqI)
  then have "v div 2 ^ 6 div 64 = u div 2 ^ 6 div 64" using shift [of _ 6] by simp
  then have "v div 2 ^ 6 = u div 2 ^ 6" using assms(5) by (rule div_mod_eqI)
  then have "v div 64 = u div 64" by simp
  then show ?thesis using assms(6) by (rule div_mod_eqI)
qed

lemma byte_less: "unat (a :: 8 word) < 256"
  using unsigned_less [of a] by simp

lemma digit256: "x * 256 + c = y * 256 + d \<Longrightarrow> c < 256 \<Longrightarrow> d < 256 \<Longrightarrow> x = y \<and> c = (d::nat)"
proof -
  have "(z * 256 + e) div 256 = z \<and> (z * 256 + e) mod 256 = e" if "e < 256" for z e :: nat
    using that by simp
  then show "x * 256 + c = y * 256 + d \<Longrightarrow> c < 256 \<Longrightarrow> d < 256 \<Longrightarrow> x = y \<and> c = d" by metis
qed

lemma bytes3_inj:
  fixes a b c a' b' c' :: "8 word"
  assumes "unat a * 2 ^ 16 + unat b * 2 ^ 8 + unat c = unat a' * 2 ^ 16 + unat b' * 2 ^ 8 + unat c'"
  shows "a = a' \<and> b = b' \<and> c = c'"
proof -
  have "(unat a * 256 + unat b) * 256 + unat c = (unat a' * 256 + unat b') * 256 + unat c'"
    using assms by simp
  then have "unat a * 256 + unat b = unat a' * 256 + unat b' \<and> unat c = unat c'"
    by (rule digit256) (rule byte_less)+
  then show ?thesis
    using digit256 [of "unat a" "unat b" "unat a'" "unat b'"] byte_less [of b] byte_less [of b']
    by (simp add: word_unat_eq_iff)
qed

lemma b64_digit_not_pad: "b64_digit n \<noteq> CHR ''=''"
proof -
  have "\<forall>c \<in> set b64_alphabet. c \<noteq> CHR ''=''" "n mod 64 < length b64_alphabet"
    by (simp_all add: b64_alphabet_def)
  then show ?thesis by (simp add: b64_digit_def)
qed

lemma bytes3_bound: "unat (a :: 8 word) * 2 ^ 16 + unat (b :: 8 word) * 2 ^ 8 + unat (c :: 8 word) < 2 ^ 24"
  using byte_less [of a] byte_less [of b] byte_less [of c] by simp

lemma b64_group:
  fixes a b c a' b' c' :: "8 word"
  defines "v \<equiv> unat a * 2 ^ 16 + unat b * 2 ^ 8 + unat c"
    and "u \<equiv> unat a' * 2 ^ 16 + unat b' * 2 ^ 8 + unat c'"
  assumes "b64_digit (v div 2 ^ 18) = b64_digit (u div 2 ^ 18)"
    and "b64_digit (v div 2 ^ 12) = b64_digit (u div 2 ^ 12)"
    and "v div 2 ^ 6 mod 64 = u div 2 ^ 6 mod 64" and "v mod 64 = u mod 64"
  shows "a = a' \<and> b = b' \<and> c = c'"
proof -
  have "v = u"
    using b64_quad [OF bytes3_bound [of a b c] bytes3_bound [of a' b' c']]
      b64_digit_inj [OF assms(3)] b64_digit_inj [OF assms(4)] assms(5,6)
    unfolding v_def u_def by blast
  then show ?thesis unfolding v_def u_def by (rule bytes3_inj)
qed

lemma base64_inj: "base64 pad x = base64 pad y \<Longrightarrow> x = y"
proof (induction pad x arbitrary: y rule: base64.induct)
  case (1 pad)
  then show ?case by (cases "(pad, y)" rule: base64.cases) (simp_all add: Let_def)
next
  case (2 pad a)
  then show ?case
    using b64_group [of a 0 0 "hd y" 0 0] b64_digit_not_pad
    by (cases "(pad, y)" rule: base64.cases) (auto simp: Let_def split: if_splits)
next
  case (3 pad a b)
  then show ?case
    using b64_group [of a b 0 "hd y" "y ! 1" 0] b64_digit_not_pad
    by (cases "(pad, y)" rule: base64.cases) (auto simp: Let_def dest!: b64_digit_inj split: if_splits)
next
  case (4 pad a b c r)
  show ?case
  proof (cases "(pad, y)" rule: base64.cases)
    case (4 p a' b' c' r')
    then have y: "y = a' # b' # c' # r'" by simp
    note eqs = "4.prems" [unfolded y base64.simps Let_def list.inject]
    have "a = a' \<and> b = b' \<and> c = c'"
      using eqs by (intro b64_group b64_digit_inj) blast+
    moreover have "r = r'" using eqs "4.IH" [OF refl, of r'] by blast
    ultimately show ?thesis using y by blast
  qed (use "4.prems" b64_digit_not_pad in \<open>auto simp: Let_def split: if_splits\<close>)
qed

section \<open>The digest has 32 bytes\<close>

lemma length_sha_round: "length s = 8 \<Longrightarrow> length (sha_round s kw) = 8"
  by (cases "(s, kw)" rule: sha_round.cases) (auto simp: Let_def)

lemma length_sha_rounds: "length s = 8 \<Longrightarrow> length (foldl sha_round s kws) = 8"
  by (induction kws arbitrary: s) (simp_all add: length_sha_round)

lemma length_sha_blocks: "length s = 8 \<Longrightarrow> length (foldl sha_block s bs) = 8"
  by (induction bs arbitrary: s) (simp_all add: sha_block_def length_sha_rounds)

lemma length_concat_be32: "length (concat (map be32 ws)) = 4 * length ws"
  by (induction ws) (simp_all add: be32_def)

lemma length_sha256: "length (sha256 m) = 32"
proof -
  have "primes_upto 19 = [2, 3, 5, 7, 11, 13, 17, 19]" by code_simp
  then have "length sha_init = 8" by (simp add: sha_init_def)
  then show ?thesis by (simp add: sha256_def Let_def length_concat_be32 length_sha_blocks)
qed

lemma length_base64: "length (base64 True x) = 4 * ((length x + 2) div 3)"
proof (induction True x rule: base64.induct)
  case (4 a b c r)
  have "(length (a # b # c # r) + 2) div 3 = (length r + 2) div 3 + 1" by simp
  then show ?case using 4 by (simp only: base64.simps Let_def list.size) simp
qed (simp_all add: Let_def)

section \<open>Properties\<close>

text \<open>
  C31: message ids identify what they were generated from. The input of the hash determines
  parent, sender, receiver and sequence number (the length prefixes leave no two readings),
  the id determines the digest (base64 loses nothing), so two ids are equal exactly when the
  digests of the two inputs are; every id has 44 characters.
\<close>

theorem message_ids_injective:
  assumes "\<forall>t \<in> {p, s, r, p', s', r'}. length t < 2 ^ 64"
  shows "(id_preimage p s r n = id_preimage p' s' r' n' \<longleftrightarrow> (p, s, r, n) = (p', s', r', n')) \<and>
    (GenerateMessageID p s r n = GenerateMessageID p' s' r' n' \<longleftrightarrow>
      sha256 (id_preimage p s r n) = sha256 (id_preimage p' s' r' n')) \<and>
    length (GenerateMessageID p s r n) = 44"
  using id_preimage_inj [OF _ assms, of n n']
    base64_inj [of True "sha256 (id_preimage p s r n)" "sha256 (id_preimage p' s' r' n')"]
  by (auto simp: GenerateMessageID_def length_base64 length_sha256)

theorem message_ids_injective_witness:
  "id_preimage ''ab'' ''c'' ''d'' 0 \<noteq> id_preimage ''a'' ''bc'' ''d'' 0 \<and>
   length (GenerateMessageID ''ab'' ''c'' ''d'' 0) = 44"
  using message_ids_injective [of "''ab''" "''c''" "''d''" "''a''" "''bc''" "''d''" 0 0] by simp

text \<open>
  The ten-byte buffers of \<open>writeMessageIDString\<close> and \<open>writeMessageIDInt\<close> are large
  enough for every uint64 (\<open>PutUvarint\<close> would panic on a shorter one), and a number written
  this way is read back unchanged whatever follows it.
\<close>

theorem uvarint_fits_and_reads_back:
  "length (uvarint x) \<le> 10 \<and> read_uvarint (writeMessageIDInt [] x @ r) = Some (x, r)"
  by (simp add: uvarint_length read_uvarint writeMessageIDInt_def)

end
