(* ===== verification/Timer.thy ===== *)
theory Timer
  imports QuadHeapSpec Messages
begin

text \<open>
  core/time.go and core/timer.go: an actor's timer, a heap of messages keyed by timer name and
  ordered by the Unix second at which they fall due, and one Go timer that wakes the actor for
  the earliest of them. A \<open>wall\<close> is a reading of the clock: nanoseconds of the operating
  system's clock and the global offset in seconds. \<open>fires\<close> is the clock value at which the
  Go timer sends on its channel, None when it is stopped or its tick was received.
\<close>

section \<open>Time (core/time.go)\<close>

record wall =
  unix_nanos :: int
  GlobalTimeOffset :: int

definition second :: int where
  "second = 1000000000"

text \<open>int64 arithmetic wraps around.\<close>

definition wrap64 :: "int \<Rightarrow> int" where
  "wrap64 x = sint (word_of_int x :: 64 word)"

definition NowUnix :: "wall \<Rightarrow> int" where
  "NowUnix w = wrap64 (unix_nanos w div second + GlobalTimeOffset w)"

text \<open>\<open>Now\<close> is the time.Time of that second.\<close>

definition Now :: "wall \<Rightarrow> int" where
  "Now w = NowUnix w"

definition IncrGlobalTimeOffset :: "int \<Rightarrow> wall \<Rightarrow> wall" where
  "IncrGlobalTimeOffset inc w = w\<lparr>GlobalTimeOffset := wrap64 (GlobalTimeOffset w + inc)\<rparr>"

lemma wrap64_id: "- (2 ^ 63) \<le> x \<Longrightarrow> x < 2 ^ 63 \<Longrightarrow> wrap64 x = x"
  by (simp add: wrap64_def signed_of_int signed_take_bit_int_eq_self)

section \<open>The timer (core/timer.go)\<close>

record 'v timer =
  fires :: "int option"
  agenda :: "(string, 'v message, int) quad_heap"

text \<open>\<open>time.Timer\<close>: \<open>Stop\<close>, and \<open>Reset\<close> to a duration; one that is not positive is over at once.\<close>

definition gotimer_Stop :: "'v timer \<Rightarrow> 'v timer" where
  "gotimer_Stop t = t\<lparr>fires := None\<rparr>"

definition gotimer_Reset :: "wall \<Rightarrow> int \<Rightarrow> 'v timer \<Rightarrow> 'v timer" where
  "gotimer_Reset w d t = t\<lparr>fires := Some (unix_nanos w + max 0 d)\<rparr>"

definition NewTimer :: "'v timer" where
  "NewTimer = \<lparr>fires = None, agenda = NewQuadHeap\<rparr>"

definition timer_Peek :: "'v timer \<Rightarrow> (string, 'v message, int) heap_item option" where
  "timer_Peek t = heap_Peek (agenda t)"

definition timer_Calibration :: "wall \<Rightarrow> 'v timer \<Rightarrow> 'v timer" where
  "timer_Calibration w t =
     (case heap_Peek (agenda t) of
        None \<Rightarrow> gotimer_Stop t
      | Some peek \<Rightarrow> gotimer_Reset w (wrap64 (second * wrap64 (When peek - NowUnix w))) t)"

definition timer_Add :: "wall \<Rightarrow> string \<Rightarrow> 'v message \<Rightarrow> int \<Rightarrow> 'v timer \<Rightarrow> 'v timer" where
  "timer_Add w key task wh t =
     (let peek = heap_Peek (agenda t);
          t = t\<lparr>agenda := fst (heap_Upsert (agenda t) key task wh)\<rparr>
      in if (case peek of None \<Rightarrow> False | Some p \<Rightarrow> When p \<le> wh) then t
         else timer_Calibration w t)"

definition timer_Upsert :: "string \<Rightarrow> 'v message \<Rightarrow> int \<Rightarrow> 'v timer \<Rightarrow> 'v timer" where
  "timer_Upsert key task wh t = t\<lparr>agenda := fst (heap_Upsert (agenda t) key task wh)\<rparr>"

definition timer_Del :: "wall \<Rightarrow> string \<Rightarrow> 'v timer \<Rightarrow> 'v timer" where
  "timer_Del w key t =
     (let peek = heap_Peek (agenda t);
          t = t\<lparr>agenda := fst (heap_Remove (agenda t) key)\<rparr>
      in if (case peek of None \<Rightarrow> True | Some p \<Rightarrow> Key p \<noteq> key) then t
         else timer_Calibration w t)"

definition timer_Remove :: "string \<Rightarrow> 'v timer \<Rightarrow> 'v timer" where
  "timer_Remove key t = t\<lparr>agenda := fst (heap_Remove (agenda t) key)\<rparr>"

definition timer_RetryAfter :: "wall \<Rightarrow> int \<Rightarrow> 'v timer \<Rightarrow> 'v timer" where
  "timer_RetryAfter w delay t =
     (let delay = (if delay \<le> 0 then second else delay) in gotimer_Reset w delay t)"

definition timer_All :: "'v timer \<Rightarrow> (string, 'v message, int) heap_item list" where
  "timer_All t = []"

section \<open>Waking up in time\<close>

text \<open>
  Deadlines within nine billion seconds (285 years) of now keep the duration of
  \<open>Calibration\<close> inside int64.
\<close>

definition sane_clock :: "wall \<Rightarrow> bool" where
  "sane_clock w \<longleftrightarrow> \<bar>unix_nanos w div second\<bar> < 2 ^ 61 \<and> \<bar>GlobalTimeOffset w\<bar> < 2 ^ 61"

definition near :: "wall \<Rightarrow> int \<Rightarrow> bool" where
  "near w wh \<longleftrightarrow> \<bar>wh - NowUnix w\<bar> \<le> 9000000000"

definition timer_inv :: "'v timer \<Rightarrow> bool" where
  "timer_inv t \<longleftrightarrow> heap_inv (agenda t)"

abbreviation pending :: "'v timer \<Rightarrow> (string, 'v message, int) heap_item list" where
  "pending t \<equiv> heap_abs (agenda t)"

text \<open>
  \<open>on_time retry w t\<close>: for every pending item the Go timer is armed, and has fired already or fires
  no later than the second in which the item falls due, or at the instant set by \<open>RetryAfter\<close>.
\<close>

definition on_time :: "int option \<Rightarrow> wall \<Rightarrow> 'v timer \<Rightarrow> bool" where
  "on_time retry w t \<longleftrightarrow> (\<forall>x \<in> set (pending t). \<exists>at. fires t = Some at \<and>
     (at \<le> unix_nanos w \<or> NowUnix (w\<lparr>unix_nanos := at\<rparr>) \<le> When x \<or> retry = Some at))"

lemma sane_sum: "sane_clock w \<Longrightarrow> \<bar>unix_nanos w div second + GlobalTimeOffset w\<bar> < 2 ^ 62"
  by (simp add: sane_clock_def abs_less_iff)

lemma NowUnix_sane: "sane_clock w \<Longrightarrow> NowUnix w = unix_nanos w div second + GlobalTimeOffset w"
  using sane_sum [of w] by (simp add: NowUnix_def wrap64_id abs_less_iff)

lemma calibrated_duration:
  assumes "near w wh"
  shows "wrap64 (second * wrap64 (wh - NowUnix w)) = second * (wh - NowUnix w)"
  using assms by (simp add: near_def second_def wrap64_id)

text \<open>A wake-up armed for a future second falls in that very second.\<close>

lemma calibrated_second:
  assumes "sane_clock w" and "near w wh" and "NowUnix w \<le> wh"
  shows "NowUnix (w\<lparr>unix_nanos := unix_nanos w + second * (wh - NowUnix w)\<rparr>) = wh"
proof -
  let ?n = "NowUnix w"
  have "(unix_nanos w + second * (wh - ?n)) div second = unix_nanos w div second + (wh - ?n)"
    by (simp add: second_def)
  moreover have "?n = unix_nanos w div second + GlobalTimeOffset w"
    using assms(1) by (rule NowUnix_sane)
  ultimately have sum: "(unix_nanos w + second * (wh - ?n)) div second + GlobalTimeOffset w = wh"
    by simp
  have "\<bar>?n\<bar> < 2 ^ 62" using assms(1) sane_sum [OF assms(1)] by (simp add: NowUnix_sane)
  then have "- (2 ^ 63) \<le> wh" "wh < 2 ^ 63"
    using assms(2) by (simp_all add: near_def abs_less_iff abs_le_iff)
  then show ?thesis using sum by (simp add: NowUnix_def [of "w\<lparr>unix_nanos := _\<rparr>"] wrap64_id)
qed

lemma Calibration_empty: "heap_Peek (agenda t) = None \<Longrightarrow> fires (timer_Calibration w t) = None"
  by (simp add: timer_Calibration_def gotimer_Stop_def)

lemma Calibration_fires:
  assumes "heap_Peek (agenda t) = Some x" and "near w (When x)"
  shows "fires (timer_Calibration w t) =
    Some (unix_nanos w + second * max 0 (When x - NowUnix w))"
  using assms calibrated_duration [OF assms(2)]
  by (simp add: timer_Calibration_def gotimer_Reset_def max_mult_distrib_left second_def)

lemma Calibration_agenda [simp]: "agenda (timer_Calibration w t) = agenda t"
  by (simp add: timer_Calibration_def gotimer_Stop_def gotimer_Reset_def split: option.split)

lemma on_time_Calibration:
  assumes "sane_clock w" and "timer_inv t" and "\<forall>x \<in> set (pending t). near w (When x)"
  shows "on_time r w (timer_Calibration w t)"
proof (cases "heap_Peek (agenda t)")
  case None
  then show ?thesis
    using qh.peek_empty [of "agenda t"] assms(2) by (simp add: on_time_def timer_inv_def)
next
  case (Some x)
  have "first_min (pending t) = Some x"
    using Some qh.peek_min [of "agenda t"] assms(2) by (simp add: timer_inv_def)
  then obtain us vs where xs: "pending t = us @ x # vs" "\<forall>u \<in> set us. When x < When u"
    "\<forall>v \<in> set vs. When x \<le> When v" using qh.first_min_cases by blast
  then have least: "When x \<le> When y" if "y \<in> set (pending t)" for y using that by force
  have near: "near w (When x)" using assms(3) xs(1) by simp
  note fires = Calibration_fires [OF Some near]
  show ?thesis
  proof (cases "NowUnix w \<le> When x")
    case True
    then show ?thesis
      using fires calibrated_second [OF assms(1) near True] least
      by (simp add: on_time_def del: set_heap_abs)
  next
    case False
    then show ?thesis using fires by (simp add: on_time_def)
  qed
qed

section \<open>Operations keep the timer armed in time\<close>

definition calm :: "wall \<Rightarrow> 'v timer \<Rightarrow> bool" where
  "calm w t \<longleftrightarrow> sane_clock w \<and> length (pending t) < 2 ^ 63 \<and> (\<forall>x \<in> set (pending t). near w (When x))"

lemma timer_inv_New [keeps]: "timer_inv NewTimer"
  by (simp add: timer_inv_def NewTimer_def heap_inv_New)

lemma pending_New [simp]: "pending NewTimer = []"
  by (simp add: NewTimer_def)

lemma timer_inv_Calibration [keeps, simp]: "timer_inv (timer_Calibration w t) = timer_inv t"
  by (simp add: timer_inv_def)

lemma timer_Add_agenda: "agenda (timer_Add w k m wh t) = fst (heap_Upsert (agenda t) k m wh)"
  by (simp add: timer_Add_def Let_def)

lemma timer_Del_agenda: "agenda (timer_Del w k t) = fst (heap_Remove (agenda t) k)"
  by (simp add: timer_Del_def Let_def)

lemma timer_Add_pending:
  assumes "timer_inv t" and "length (pending t) < 2 ^ 63"
  shows "timer_inv (timer_Add w k m wh t)"
    and "pending (timer_Add w k m wh t) =
      (if k \<in> Key ` set (pending t) then reschedule (pending t) k m wh
       else pending t @ [\<lparr>Key = k, Value = m, When = wh\<rparr>])"
  using heap_Upsert_abs [of "agenda t" k m wh] assms
  by (simp_all add: timer_inv_def timer_Add_agenda reschedule_def)

lemma timer_Add_items:
  assumes "timer_inv t" and "length (pending t) < 2 ^ 63" and "x \<in> set (pending (timer_Add w k m wh t))"
  shows "x \<in> set (pending t) \<or> When x = wh"
  using assms(3) unfolding timer_Add_pending(2) [OF assms(1,2)] reschedule_def
  by (auto simp del: set_heap_abs split: if_splits)

lemma timer_Del_pending:
  assumes "timer_inv t"
  shows "timer_inv (timer_Del w k t)" and "pending (timer_Del w k t) = cancel (pending t) k"
  using heap_Remove_abs [of "agenda t" k] assms
  by (simp_all add: timer_inv_def timer_Del_agenda cancel_def)

lemma peek_pending: "timer_inv t \<Longrightarrow> heap_Peek (agenda t) = Some p \<Longrightarrow> p \<in> set (pending t)"
  using qh.peek_min [of "agenda t"] qh.first_min_cases [of "pending t" p]
  by (auto simp: timer_inv_def simp del: set_heap_abs)

lemma on_time_Add:
  assumes "timer_inv t" and "calm w t" and "near w wh" and "on_time r w t"
  shows "on_time r w (timer_Add w k m wh t)"
proof -
  have room: "length (pending t) < 2 ^ 63" and clock: "sane_clock w"
    and near: "\<forall>x \<in> set (pending t). near w (When x)"
    using assms(2) by (simp_all add: calm_def del: set_heap_abs)
  note items = timer_Add_items [OF assms(1) room, of _ w k m wh]
  let ?t = "t\<lparr>agenda := fst (heap_Upsert (agenda t) k m wh)\<rparr>"
  show ?thesis
  proof (cases "case heap_Peek (agenda t) of None \<Rightarrow> False | Some p \<Rightarrow> When p \<le> wh")
    case True
    then obtain p where p: "heap_Peek (agenda t) = Some p" "When p \<le> wh"
      by (auto split: option.splits)
    have add: "timer_Add w k m wh t = ?t" using True by (simp add: timer_Add_def Let_def)
    obtain at where at: "fires t = Some at"
      "at \<le> unix_nanos w \<or> NowUnix (w\<lparr>unix_nanos := at\<rparr>) \<le> When p \<or> r = Some at"
      using assms(4) peek_pending [OF assms(1) p(1)] by (auto simp: on_time_def)
    have "\<exists>at. fires t = Some at \<and> (at \<le> unix_nanos w \<or> NowUnix (w\<lparr>unix_nanos := at\<rparr>) \<le> When x \<or> r = Some at)"
      if "x \<in> set (pending (timer_Add w k m wh t))" for x
      using items [OF that] assms(4) at p(2) by (force simp: on_time_def simp del: set_heap_abs)
    then show ?thesis unfolding on_time_def add by simp
  next
    case False
    then have add: "timer_Add w k m wh t = timer_Calibration w ?t" by (simp add: timer_Add_def Let_def)
    have "timer_inv ?t" "pending ?t = pending (timer_Add w k m wh t)"
      using timer_Add_pending(1) [OF assms(1) room, of w k m wh]
      by (simp_all add: timer_inv_def timer_Add_agenda)
    moreover have "\<forall>x \<in> set (pending ?t). near w (When x)"
      using items near assms(3) calculation(2) by metis
    ultimately show ?thesis unfolding add using clock by (intro on_time_Calibration)
  qed
qed

lemma on_time_Del:
  assumes "timer_inv t" and "calm w t" and "on_time r w t"
  shows "on_time r w (timer_Del w k t)"
proof (cases "case heap_Peek (agenda t) of None \<Rightarrow> True | Some p \<Rightarrow> Key p \<noteq> k")
  case True
  then have "timer_Del w k t = t\<lparr>agenda := fst (heap_Remove (agenda t) k)\<rparr>"
    by (simp add: timer_Del_def Let_def)
  then have "fires (timer_Del w k t) = fires t" by simp
  then show ?thesis
    using assms(3) timer_Del_pending(2) [OF assms(1), of w k]
    by (simp add: on_time_def cancel_def del: set_heap_abs)
next
  case False
  let ?t = "t\<lparr>agenda := fst (heap_Remove (agenda t) k)\<rparr>"
  have del: "timer_Del w k t = timer_Calibration w ?t" using False by (simp add: timer_Del_def Let_def)
  have "timer_inv ?t" "pending ?t = cancel (pending t) k"
    using timer_Del_pending [OF assms(1), of w k] by (simp_all add: timer_inv_def timer_Del_agenda)
  then show ?thesis
    unfolding del using assms(2)
    by (intro on_time_Calibration) (simp_all add: calm_def cancel_def del: set_heap_abs)
qed

lemma on_time_later:
  assumes "on_time r w t" and "unix_nanos w \<le> n"
  shows "on_time r (w\<lparr>unix_nanos := n\<rparr>) t"
  unfolding on_time_def
proof
  fix x
  assume "x \<in> set (pending t)"
  then obtain at where "fires t = Some at"
    "at \<le> unix_nanos w \<or> NowUnix (w\<lparr>unix_nanos := at\<rparr>) \<le> When x \<or> r = Some at"
    using assms(1) unfolding on_time_def by blast
  then show "\<exists>at. fires t = Some at \<and>
    (at \<le> unix_nanos (w\<lparr>unix_nanos := n\<rparr>) \<or> NowUnix (w\<lparr>unix_nanos := n, unix_nanos := at\<rparr>) \<le> When x \<or>
     r = Some at)"
    using assms(2) by auto
qed

text \<open>
  The life of a timer: every operation of the file in any order, the receipt of a tick, the passing of
  time, and changes of the global offset. The last argument tells what is promised. \<open>Loose\<close>: nothing, from
  an operation that does not arm the Go timer (\<open>Upsert\<close>, the receipt of a tick, \<open>IncrGlobalTimeOffset\<close>,
  a deadline more than 285 years away) until the next \<open>Calibration\<close> or \<open>RetryAfter\<close>. \<open>Retrying r\<close>: since a
  \<open>RetryAfter\<close> that set the instant \<open>r\<close>. \<open>Armed\<close>: otherwise.
\<close>

datatype wakeup = Armed | Retrying int | Loose

fun retry_at :: "wakeup \<Rightarrow> int option" where
  "retry_at (Retrying r) = Some r"
| "retry_at _ = None"

inductive timer_run :: "wall \<Rightarrow> 'v timer \<Rightarrow> wakeup \<Rightarrow> bool" where
  timer_start: "timer_run w NewTimer Armed"
| timer_add: "timer_run w t s \<Longrightarrow> length (pending t) < 2 ^ 63 \<Longrightarrow>
    timer_run w (timer_Add w k m wh t) (if calm w t \<and> near w wh then s else Loose)"
| timer_upsert: "timer_run w t s \<Longrightarrow> length (pending t) < 2 ^ 63 \<Longrightarrow>
    timer_run w (timer_Upsert k m wh t) Loose"
| timer_del: "timer_run w t s \<Longrightarrow> timer_run w (timer_Del w k t) (if calm w t then s else Loose)"
| timer_remove: "timer_run w t s \<Longrightarrow> timer_run w (timer_Remove k t) s"
| timer_calibrate: "timer_run w t s \<Longrightarrow>
    timer_run w (timer_Calibration w t) (if calm w t then Armed else Loose)"
| timer_retry: "timer_run w t s \<Longrightarrow>
    timer_run w (timer_RetryAfter w d t) (Retrying (unix_nanos w + (if d \<le> 0 then second else d)))"
| timer_receive: "timer_run w t s \<Longrightarrow> timer_run w (t\<lparr>fires := None\<rparr>) Loose"
| timer_tick: "timer_run w t s \<Longrightarrow> unix_nanos w \<le> n \<Longrightarrow> timer_run (w\<lparr>unix_nanos := n\<rparr>) t s"
| timer_shift: "timer_run w t s \<Longrightarrow> timer_run (IncrGlobalTimeOffset inc w) t Loose"

lemma timer_Upsert_inv [keeps]:
  "timer_inv t \<Longrightarrow> length (pending t) < 2 ^ 63 \<Longrightarrow> timer_inv (timer_Upsert k m wh t)"
  using heap_Upsert_abs(1) [of "agenda t" k m wh] by (simp add: timer_inv_def timer_Upsert_def)

lemma timer_Remove_pending:
  assumes "timer_inv t"
  shows "timer_inv (timer_Remove k t)" and "pending (timer_Remove k t) = cancel (pending t) k"
  using heap_Remove_abs [of "agenda t" k] assms by (simp_all add: timer_inv_def timer_Remove_def cancel_def)

lemma on_time_Remove: "timer_inv t \<Longrightarrow> on_time r w t \<Longrightarrow> on_time r w (timer_Remove k t)"
  unfolding on_time_def timer_Remove_pending(2) cancel_def by (simp add: timer_Remove_def del: set_heap_abs)

lemma timer_run_inv: "timer_run w t s \<Longrightarrow> timer_inv t \<and> (s \<noteq> Loose \<longrightarrow> on_time (retry_at s) w t)"
proof (induction rule: timer_run.induct)
  case (timer_start w)
  then show ?case by (simp add: timer_inv_New on_time_def del: set_heap_abs)
next
  case (timer_add w t s k m wh)
  then show ?case by (simp add: on_time_Add timer_Add_pending)
next
  case (timer_upsert w t s k m wh)
  then show ?case by (simp add: timer_Upsert_inv)
next
  case (timer_del w t s k)
  then show ?case by (simp add: on_time_Del timer_Del_pending)
next
  case (timer_remove w t s k)
  then show ?case by (simp add: on_time_Remove timer_Remove_pending)
next
  case (timer_calibrate w t s)
  then show ?case by (simp add: on_time_Calibration calm_def)
next
  case (timer_retry w t s d)
  then show ?case
    by (simp add: on_time_def timer_RetryAfter_def gotimer_Reset_def timer_inv_def second_def del: set_heap_abs)
next
  case (timer_receive w t s)
  then show ?case by (simp add: timer_inv_def)
next
  case (timer_tick w t s n)
  then show ?case by (simp add: on_time_later)
qed simp

text \<open>
  C23: an actor does not sleep past a deadline. However timers are added (also under a name that is
  already pending, also behind the earliest one), deleted, removed and recalibrated while time passes,
  for every pending item the Go timer is armed; it has fired, or will fire no later than the Unix second
  in which the item falls due, or at the instant of the retry that the actor's last \<open>RetryAfter\<close> chose.
  Nothing is promised in the state \<open>Loose\<close>, that is, for deadlines more than 285 years away and, until
  the next \<open>Calibration\<close> or \<open>RetryAfter\<close>, after a tick was received (the actor's trigger then calls one
  of them) and after \<open>Upsert\<close> or \<open>IncrGlobalTimeOffset\<close> (which the program calls nowhere).
\<close>

theorem timer_wakes_in_time:
  assumes "timer_run w t s" and "s \<noteq> Loose" and "x \<in> set (pending t)"
  shows "\<exists>at. fires t = Some at \<and>
    (at \<le> unix_nanos w \<or> NowUnix (w\<lparr>unix_nanos := at\<rparr>) \<le> When x \<or> s = Retrying at)"
proof -
  have "on_time (retry_at s) w t" using timer_run_inv [OF assms(1)] assms(2) by simp
  then obtain at where "fires t = Some at"
    "at \<le> unix_nanos w \<or> NowUnix (w\<lparr>unix_nanos := at\<rparr>) \<le> When x \<or> retry_at s = Some at"
    using assms(3) unfolding on_time_def by blast
  then show ?thesis by (cases s) auto
qed

theorem timer_wakes_in_time_witness:
  "\<exists>at. fires (timer_Add \<lparr>unix_nanos = 5, GlobalTimeOffset = 0\<rparr> ''k'' (zero_message :: unit message) 7 NewTimer) = Some at \<and>
    (at \<le> 5 \<or> NowUnix \<lparr>unix_nanos = at, GlobalTimeOffset = 0\<rparr> \<le> 7)"
proof -
  let ?w = "\<lparr>unix_nanos = 5, GlobalTimeOffset = 0\<rparr>"
  have calm: "calm ?w (NewTimer :: unit timer)" "near ?w 7"
    by (simp_all add: calm_def sane_clock_def near_def NowUnix_def wrap64_id second_def)
  have run: "timer_run ?w (timer_Add ?w ''k'' (zero_message :: unit message) 7 NewTimer) Armed"
    using timer_add [OF timer_start, of ?w "''k''" "zero_message :: unit message" 7] calm by simp
  have "pending (timer_Add ?w ''k'' (zero_message :: unit message) 7 NewTimer) =
      [\<lparr>Key = ''k'', Value = zero_message, When = 7\<rparr>]"
    using timer_Add_pending(2) [OF timer_inv_New, of ?w "''k''" zero_message 7] by simp
  then show ?thesis using timer_wakes_in_time [OF run] by simp
qed

text \<open>
  The wake-up is exact. After \<open>Calibration\<close> the Go timer is stopped when nothing is
  pending, fires at once when the earliest item is due, and otherwise fires within the very
  second of its deadline, never in an earlier one.
\<close>

theorem calibration_exact:
  assumes "timer_inv t" and "calm w t"
  shows "case first_min (pending t) of
      None \<Rightarrow> fires (timer_Calibration w t) = None
    | Some x \<Rightarrow> \<exists>at. fires (timer_Calibration w t) = Some at \<and>
        (if When x \<le> NowUnix w then at = unix_nanos w
         else NowUnix (w\<lparr>unix_nanos := at\<rparr>) = When x)"
proof (cases "first_min (pending t)")
  case None
  then have "heap_Peek (agenda t) = None"
    using assms(1) qh.peek_min [of "agenda t"] by (simp add: timer_inv_def)
  then show ?thesis using None by (simp add: Calibration_empty)
next
  case (Some x)
  then have peek: "heap_Peek (agenda t) = Some x"
    using assms(1) qh.peek_min [of "agenda t"] by (simp add: timer_inv_def)
  have "x \<in> set (pending t)" using peek_pending [OF assms(1) peek] .
  then have near: "near w (When x)" and clock: "sane_clock w"
    using assms(2) by (simp_all add: calm_def del: set_heap_abs)
  show ?thesis
    using Some Calibration_fires [OF peek near] calibrated_second [OF clock near] by simp
qed

theorem calibration_exact_witness:
  "fires (timer_Calibration \<lparr>unix_nanos = 5, GlobalTimeOffset = 0\<rparr> (NewTimer :: unit timer)) = None"
  using calibration_exact [of NewTimer "\<lparr>unix_nanos = 5, GlobalTimeOffset = 0\<rparr>"]
  by (simp add: timer_inv_New calm_def sane_clock_def second_def)

text \<open>
  A deadline that is too far away does not wait. \<open>Calibration\<close> multiplies seconds by
  \<open>time.Second\<close> in int64; for the deadline \<open>math.MaxInt64\<close>, which reads as never, the
  product wraps to a negative duration on every clock of this epoch and the Go timer fires at
  once, and again after every recalibration.
\<close>

theorem calibration_overflow:
  assumes "heap_Peek (agenda t) = Some x" and "When x = 2 ^ 63 - 1"
    and "0 \<le> NowUnix w" and "NowUnix w < 9000000000"
  shows "fires (timer_Calibration w t) = Some (unix_nanos w) \<and> NowUnix w < When x"
proof -
  have "wrap64 (When x - NowUnix w) = When x - NowUnix w"
    using assms(2-4) by (intro wrap64_id) simp_all
  moreover have "second * (When x - NowUnix w) = - (second * (NowUnix w + 1)) + 2 ^ 64 * 500000000"
    unfolding assms(2) second_def by simp
  ultimately have "wrap64 (second * wrap64 (When x - NowUnix w)) =
      wrap64 (- (second * (NowUnix w + 1)) + 2 ^ 64 * 500000000)"
    by (simp only:)
  also have "\<dots> = wrap64 (- (second * (NowUnix w + 1)))"
  proof -
    have zero: "(word_of_int (2 ^ 64 * 500000000) :: 64 word) = 0" by simp
    show ?thesis unfolding wrap64_def of_int_add zero by (simp only: add_0_right)
  qed
  also have "\<dots> = - (second * (NowUnix w + 1))"
    using assms(3,4) by (intro wrap64_id) (simp_all add: second_def)
  finally have "wrap64 (second * wrap64 (When x - NowUnix w)) \<le> 0"
    using assms(3) by (simp add: second_def)
  then show ?thesis
    using assms by (simp add: timer_Calibration_def gotimer_Reset_def)
qed

theorem calibration_overflow_witness:
  "let t = timer_Upsert ''never'' (zero_message :: unit message) (2 ^ 63 - 1) NewTimer;
       w = \<lparr>unix_nanos = 1700000000 * 10 ^ 9, GlobalTimeOffset = 0\<rparr>
   in fires (timer_Calibration w t) = Some (1700000000 * 10 ^ 9)"
proof -
  let ?t = "timer_Upsert ''never'' (zero_message :: unit message) (2 ^ 63 - 1) NewTimer"
  have abs: "heap_inv (agenda ?t)"
    "heap_abs (agenda ?t) = [\<lparr>Key = ''never'', Value = zero_message, When = 2 ^ 63 - 1\<rparr>]"
    using heap_exec_spec [OF heap_inv_New, of "HUpsert ''never'' (zero_message :: unit message) (2 ^ 63 - 1 :: int)"]
    by (simp_all add: timer_Upsert_def NewTimer_def)
  then have "heap_Peek (agenda ?t) = Some \<lparr>Key = ''never'', Value = zero_message, When = 2 ^ 63 - 1\<rparr>"
    using qh.peek_min [OF abs(1)] by simp
  then show ?thesis
    using calibration_overflow [of ?t _ "\<lparr>unix_nanos = 1700000000 * 10 ^ 9, GlobalTimeOffset = 0\<rparr>"]
    by (simp add: Let_def NowUnix_def wrap64_id second_def)
qed

end
