(* ===== verification/Actor.thy ===== *)
theory Actor
  imports Timer Dedup MessageId
begin

text \<open>
  core/actor.go, core/handler.go and core/context.go: one actor. An actor owns a bounded
  mailbox, a state, a deduplication window and a timer; its goroutine selects among the
  mailbox, the three timers and the stop channel, and reports to its node by messages.
  Every step returns the new actor and the messages it sends to the node's mailbox, in order.
  The goroutine is a state machine (\<open>phase\<close>) whose steps are \<open>actor_step\<close>; the choice
  of Go's \<open>select\<close> among the ready branches is the event. Application code is a handler:
  a program over the calls a \<open>Context\<close> offers, which may also panic.

  Two limits of the model: a handler returns or panics, it does not run for ever, and a report to the
  node is always taken, whereas the send of \<open>signal\<close> waits for room in the node's mailbox. The model is
  for what the goroutine does, in whatever order; it does not show that the goroutine goes on.
\<close>

section \<open>Handlers (core/handler.go)\<close>

text \<open>
  A handler reads the actor id, the state and the message, and then returns (with an error or
  not), panics, writes the state through \<open>GetState\<close>, sets a timer, or creates a message and
  goes on with it.
\<close>

datatype 'v prog =
    Return bool
  | Panics
  | SetState 'v "'v prog"
  | CallNewTimer string string "'v payload" int "'v prog"
  | CallNewMessage string string string bytes "'v message \<Rightarrow> 'v prog"

type_synonym 'v handler = "string \<Rightarrow> 'v \<Rightarrow> 'v message \<Rightarrow> 'v prog"

record 'v handlers =
  reg :: "(string, 'v handler) gomap"

definition NewHandlers :: "'v handlers" where
  "NewHandlers = \<lparr>reg = NewMap\<rparr>"

definition Register :: "string \<Rightarrow> 'v handler \<Rightarrow> 'v handlers \<Rightarrow> 'v handlers" where
  "Register cmd f h = h\<lparr>reg := map_AddOrUpdate cmd f (reg h)\<rparr>"

definition GetHandler :: "'v handlers \<Rightarrow> string \<Rightarrow> 'v handler option" where
  "GetHandler h cmd = map_Get (reg h) cmd"

section \<open>The actor's state (core/actor.go)\<close>

definition ActorChannelCap :: int where "ActorChannelCap = 1024"
definition ActorDedupCap :: int where "ActorDedupCap = 512"
definition AliveTime :: int where "AliveTime = second * 5"
definition SnapshotTime :: int where "SnapshotTime = second * 30"
definition OffsetAdvanced :: int where "OffsetAdvanced = 30"

definition ActorStatusInit :: int where "ActorStatusInit = 0"
definition ActorStatusStarting :: int where "ActorStatusStarting = 1"
definition ActorStatusRunning :: int where "ActorStatusRunning = 2"
definition ActorStatusStopping :: int where "ActorStatusStopping = 3"

lemmas actor_statuses = ActorStatusInit_def ActorStatusStarting_def ActorStatusRunning_def
  ActorStatusStopping_def

text \<open>
  \<open>Spawned\<close>: the goroutine was started and has not run; \<open>Looping\<close>: in the select loop;
  \<open>Draining\<close>: in \<open>drain\<close> after the stop signal; \<open>Exited\<close>: after \<open>finish\<close>.
\<close>

datatype phase = NotStarted | Spawned | Looping | Draining | Exited

record 'v actor =
  a_id :: string
  a_typ :: string
  mailbox :: "'v message list"
  mailbox_cap :: nat
  mailFull :: bool
  stop :: bool
  node :: string
  a_timer :: "'v timer"
  cancelled :: bool
  a_state :: 'v
  version :: int
  handler :: "'v handlers option"
  idleTime :: int
  idleTimer :: "int option"
  aliveTimer :: "int option"
  a_dedup :: dedup
  offset :: int
  offsetAdvanced :: int
  snapshotAt :: int
  a_status :: "int status"
  phase :: phase

record actor_config =
  cfg_Id :: string
  cfg_Type :: string
  cfg_Node :: string
  cfg_ChannelCap :: int
  cfg_DedupCap :: int

definition ActorConfigDefault :: actor_config where
  "ActorConfigDefault = \<lparr>cfg_Id = [], cfg_Type = [], cfg_Node = [],
     cfg_ChannelCap = ActorChannelCap, cfg_DedupCap = ActorDedupCap\<rparr>"

definition actorConfigEnsure :: "actor_config \<Rightarrow> actor_config" where
  "actorConfigEnsure c =
     (let c = (if cfg_ChannelCap c \<le> 0 then c\<lparr>cfg_ChannelCap := ActorChannelCap\<rparr> else c)
      in if cfg_DedupCap c \<le> 0 then c\<lparr>cfg_DedupCap := ActorDedupCap\<rparr> else c)"

text \<open>\<open>zero_time\<close>: Go's zero time.Time (1 January of year 1) as a Unix second.\<close>

definition zero_time :: int where "zero_time = -62135596800"

definition NewActor :: "actor_config \<Rightarrow> 'v::default actor" where
  "NewActor config =
     (let config = actorConfigEnsure config
      in \<lparr>a_id = cfg_Id config, a_typ = cfg_Type config, mailbox = [],
          mailbox_cap = nat (cfg_ChannelCap config), mailFull = False, stop = False,
          node = cfg_Node config, a_timer = NewTimer, cancelled = False, a_state = default,
          version = 0, handler = None, idleTime = 0, idleTimer = None, aliveTimer = None,
          a_dedup = NewDedup (cfg_DedupCap config), offset = 0, offsetAdvanced = 0,
          snapshotAt = zero_time, a_status = NewStatus ActorStatusInit, phase = NotStarted\<rparr>)"

section \<open>Messages to the node\<close>

text \<open>
  \<open>signal\<close> builds the report; its send is part of the step that returns the report. It has left the
  actor then and reaches the node's mailbox when there is room (\<open>NodeRun\<close>).
\<close>

definition signal :: "'v actor \<Rightarrow> string \<Rightarrow> 'v payload \<Rightarrow> 'v message" where
  "signal a cmd payload =
     zero_message\<lparr>Sender := \<lparr>ref_Type = a_typ a, ref_Id = a_id a\<rparr>,
       Receiver := \<lparr>ref_Type = ''node'', ref_Id = node a\<rparr>,
       Type := MessageTypeMemory, Command := cmd, Payload := payload\<rparr>"

definition snapshot_of :: "'v actor \<Rightarrow> 'v actor_snapshot" where
  "snapshot_of a = \<lparr>snap_ActorId = a_id a, snap_ActorType = [], snap_Version = version a,
     snap_Offset = offset a, snap_State = a_state a, snap_Dedup = dedup_Ids (a_dedup a)\<rparr>"

definition signalSnapshot :: "'v actor \<Rightarrow> 'v message" where
  "signalSnapshot a = signal a CmdActorSnapshot (PSnapshot (snapshot_of a))"

definition signalIdle :: "'v actor \<Rightarrow> 'v message" where
  "signalIdle a = signal a CmdActorIdle PIdle"

definition signalAlive :: "wall \<Rightarrow> 'v actor \<Rightarrow> 'v message" where
  "signalAlive w a = signal a CmdActorAlive (PAlive (Now w))"

definition signalReady :: "'v actor \<Rightarrow> 'v message" where
  "signalReady a = signal a CmdActorReady PReady"

definition signalStopped :: "'v actor \<Rightarrow> 'v message" where
  "signalStopped a = signal a CmdActorStopped PStopped"

lemmas signal_defs [model_defs] = signal_def signalSnapshot_def signalIdle_def signalAlive_def
  signalReady_def signalStopped_def

section \<open>Context (core/context.go)\<close>

record 'v actor_context =
  ctx_actor :: "'v actor"
  ctx_message :: "'v message"
  sequences :: "(string, 64 word) gomap"

definition NewContext :: "'v actor \<Rightarrow> 'v message \<Rightarrow> 'v actor_context" where
  "NewContext a m = \<lparr>ctx_actor = a, ctx_message = m, sequences = NewMap\<rparr>"

definition NewRootContext :: "'v actor \<Rightarrow> string \<Rightarrow> 'v actor_context" where
  "NewRootContext a cause =
     (let traceId = GenerateMessageID cause [] (a_id a) 0;
          ref = \<lparr>ref_Type = a_typ a, ref_Id = a_id a\<rparr>
      in \<lparr>ctx_actor = a,
          ctx_message = zero_message\<lparr>Sender := ref, Receiver := ref, TraceId := traceId,
            MessageId := traceId, Type := MessageTypeMemory, Command := [], Payload := PNil\<rparr>,
          sequences = NewMap\<rparr>)"

definition GetState :: "'v actor_context \<Rightarrow> 'v" where
  "GetState c = a_state (ctx_actor c)"

definition GetActorId :: "'v actor_context \<Rightarrow> string" where
  "GetActorId c = a_id (ctx_actor c)"

definition AddTimer ::
  "wall \<Rightarrow> string \<Rightarrow> string \<Rightarrow> 'v payload \<Rightarrow> int \<Rightarrow> 'v actor \<Rightarrow> 'v actor" where
  "AddTimer w key cmd payload wh a =
     (let messageID = GenerateMessageID key (a_id a) (a_id a) (word_of_int wh);
          self = \<lparr>ref_Type = a_typ a, ref_Id = a_id a\<rparr>;
          message = zero_message\<lparr>Sender := self, Receiver := self, TraceId := messageID,
            MessageId := messageID, Type := MessageTypeTimer, Command := cmd, Payload := payload\<rparr>
      in a\<lparr>a_timer := timer_Add w key message wh (a_timer a)\<rparr>)"

text \<open>A Go map read of a missing key gives 0; \<open>seq + 1\<close> wraps at 64 bits.\<close>

definition nextSequence :: "string \<Rightarrow> 'v actor_context \<Rightarrow> 'v actor_context \<times> 64 word" where
  "nextSequence receiverId c =
     (let seq = (case map_Get (sequences c) receiverId of None \<Rightarrow> 0 | Some s \<Rightarrow> s)
      in (c\<lparr>sequences := map_AddOrUpdate receiverId (seq + 1) (sequences c)\<rparr>, seq))"

definition generateMessageId :: "string \<Rightarrow> string \<Rightarrow> 'v actor_context \<Rightarrow> 'v actor_context \<times> string" where
  "generateMessageId senderId receiverId c =
     (let (c, seq) = nextSequence receiverId c
      in (c, GenerateMessageID (MessageId (ctx_message c)) senderId receiverId seq))"

text \<open>The sender of the new message has its type and id exchanged, as in the code.\<close>

definition NewMessage ::
  "string \<Rightarrow> string \<Rightarrow> string \<Rightarrow> bytes \<Rightarrow> 'v actor_context \<Rightarrow> 'v actor_context \<times> 'v message" where
  "NewMessage receiverId receiverType command payload c =
     (let (c', messageId) = generateMessageId (a_id (ctx_actor c)) receiverId c
      in (c', zero_message\<lparr>Command := command,
            Sender := \<lparr>ref_Type = a_id (ctx_actor c), ref_Id = a_typ (ctx_actor c)\<rparr>,
            Receiver := \<lparr>ref_Type = receiverType, ref_Id = receiverId\<rparr>,
            TraceId := TraceId (ctx_message c), MessageId := messageId,
            Payload := PBytes payload\<rparr>))"

text \<open>Running a handler; the flag tells whether it panicked.\<close>

primrec run_prog :: "'v prog \<Rightarrow> wall \<Rightarrow> 'v actor_context \<Rightarrow> 'v actor_context \<times> bool" where
  "run_prog (Return err) w c = (c, False)"
| "run_prog Panics w c = (c, True)"
| "run_prog (SetState s p) w c = run_prog p w (c\<lparr>ctx_actor := (ctx_actor c)\<lparr>a_state := s\<rparr>\<rparr>)"
| "run_prog (CallNewTimer key cmd payload wh p) w c =
     run_prog p w (c\<lparr>ctx_actor := AddTimer w key cmd payload wh (ctx_actor c)\<rparr>)"
| "run_prog (CallNewMessage rid rtype cmd payload k) w c =
     (let r = NewMessage rid rtype cmd payload c in run_prog (k (snd r)) w (fst r))"

definition run_handler :: "wall \<Rightarrow> 'v handler \<Rightarrow> 'v message \<Rightarrow> 'v actor \<Rightarrow> 'v actor \<times> bool" where
  "run_handler w f m a =
     (let c = NewContext a m; (c, panicked) = run_prog (f (GetActorId c) (GetState c) m) w c
      in (ctx_actor c, panicked))"

section \<open>Handling a message\<close>

type_synonym 'v effect = "'v actor \<times> 'v message list \<times> bool"

definition handleNetwork :: "wall \<Rightarrow> 'v message \<Rightarrow> 'v actor \<Rightarrow> 'v actor \<times> bool" where
  "handleNetwork w m a =
     (if dedup_Has (a_dedup a) (MessageId m) then (a, False)
      else case handler a of
          None \<Rightarrow> (a, True)
        | Some h \<Rightarrow>
            (case GetHandler h (Command m) of
               None \<Rightarrow> (a, False)
             | Some f \<Rightarrow>
                 let (a, panicked) = run_handler w f m a
                 in if panicked then (a, True)
                    else (a\<lparr>a_dedup := fst (dedup_Add (a_dedup a) (MessageId m)),
                             offset := Offset m\<rparr>, False)))"

definition handleMemory :: "'v message \<Rightarrow> 'v actor \<Rightarrow> 'v actor \<times> bool" where
  "handleMemory m a = (a, False)"

definition handleTimer :: "wall \<Rightarrow> 'v message \<Rightarrow> 'v actor \<Rightarrow> 'v actor \<times> bool" where
  "handleTimer w m a =
     (case handler a of
        None \<Rightarrow> (a, True)
      | Some h \<Rightarrow>
          (case GetHandler h (Command m) of
             None \<Rightarrow> (a, False)
           | Some f \<Rightarrow> run_handler w f m a))"

text \<open>
  The mailbox bookkeeping of \<open>handle\<close>, on the mailbox that is left after the receive. The
  capacity is at least one, so \<open>cap - 1\<close> does not go below zero.
\<close>

definition mail_level :: "'v actor \<Rightarrow> 'v actor \<times> 'v message list" where
  "mail_level a =
     (let len = length (mailbox a);
          a = (if len \<ge> mailbox_cap a - 1 then a\<lparr>mailFull := True\<rparr> else a)
      in if mailFull a \<and> len \<le> mailbox_cap a div 2
         then (a\<lparr>mailFull := False\<rparr>, [signalReady a]) else (a, []))"

definition handle :: "wall \<Rightarrow> 'v message \<Rightarrow> 'v actor \<Rightarrow> 'v effect" where
  "handle w m a =
     (let (a, out) = mail_level a;
          (a, panicked) =
            (if Type m = MessageTypeNetwork then handleNetwork w m a
             else if Type m = MessageTypeMemory then handleMemory m a
             else if Type m = MessageTypeTimer then handleTimer w m a
             else (a, False))
      in (a, out, panicked))"

section \<open>Timers\<close>

definition resetIdle :: "wall \<Rightarrow> 'v actor \<Rightarrow> 'v actor" where
  "resetIdle w a = a\<lparr>idleTimer := Some (unix_nanos w + max 0 (idleTime a))\<rparr>"

text \<open>\<open>time.Time.Sub\<close> saturates at the int64 range of nanoseconds.\<close>

definition time_Sub :: "int \<Rightarrow> int \<Rightarrow> int" where
  "time_Sub t u = max (- (2 ^ 63)) (min (2 ^ 63 - 1) (second * (t - u)))"

definition alive :: "wall \<Rightarrow> 'v actor \<Rightarrow> 'v actor \<times> 'v message list" where
  "alive w a =
     (let now = Now w;
          isAdvanced = offsetAdvanced a > 0;
          isAdvancedMuch = offsetAdvanced a > OffsetAdvanced;
          isPastMuch = time_Sub now (snapshotAt a) > SnapshotTime;
          (a, out) =
            (if isAdvancedMuch \<or> (isAdvanced \<and> isPastMuch)
             then (a\<lparr>snapshotAt := now, offsetAdvanced := 0\<rparr>, [signalSnapshot a]) else (a, []))
      in (a\<lparr>aliveTimer := Some (unix_nanos w + AliveTime)\<rparr>, out))"

text \<open>
  The loop of \<open>handleTimerTrigger\<close> moves due items to the mailbox until none is due or the
  mailbox is full (True); each round takes a place in the mailbox.
\<close>

function trigger_loop :: "wall \<Rightarrow> 'v actor \<Rightarrow> 'v actor \<times> bool" where
  "trigger_loop w a =
     (case timer_Peek (a_timer a) of
        None \<Rightarrow> (a, False)
      | Some it \<Rightarrow>
          if When it > NowUnix w then (a, False)
          else if length (mailbox a) < mailbox_cap a then
            trigger_loop w (a\<lparr>mailbox := mailbox a @ [Value it],
              a_timer := timer_Remove (Key it) (a_timer a)\<rparr>)
          else (a\<lparr>a_timer := timer_RetryAfter w second (a_timer a)\<rparr>, True))"
  by pat_completeness auto
termination
  by (relation "measure (\<lambda>(w, a). mailbox_cap a - length (mailbox a))") auto

declare trigger_loop.simps [simp del]

definition handleTimerTrigger :: "wall \<Rightarrow> 'v actor \<Rightarrow> 'v actor" where
  "handleTimerTrigger w a =
     (if IsStatus (a_status a) ActorStatusStopping then a
      else let (a, full) = trigger_loop w a
           in if full then a else a\<lparr>a_timer := timer_Calibration w (a_timer a)\<rparr>)"

section \<open>Start, stop and the goroutine\<close>

definition actor_prepare :: "'v actor \<Rightarrow> 'v actor \<times> bool" where
  "actor_prepare a = (a, False)"

definition actor_beforeStart :: "wall \<Rightarrow> 'v actor \<Rightarrow> 'v actor \<times> bool" where
  "actor_beforeStart w a =
     (a\<lparr>idleTimer := Some (unix_nanos w + max 0 (idleTime a)),
        aliveTimer := Some (unix_nanos w + AliveTime)\<rparr>, False)"

definition actor_afterStart :: "'v actor \<Rightarrow> 'v actor" where
  "actor_afterStart a = a"

text \<open>\<open>Start\<close>: the second component tells whether it returned an error.\<close>

definition actor_Start :: "wall \<Rightarrow> 'v actor \<Rightarrow> 'v actor \<times> bool" where
  "actor_Start w a =
     (if \<not> IsStatus (a_status a) ActorStatusInit then (a, True)
      else let a = a\<lparr>a_status := SetStatus ActorStatusStarting (a_status a)\<rparr>;
               (a, err) = actor_prepare a
           in if err then (a, True)
              else let (a, err) = actor_beforeStart w a
                   in if err then (a, True) else (actor_afterStart (a\<lparr>phase := Spawned\<rparr>), False))"

definition actor_Stop :: "'v actor \<Rightarrow> 'v actor" where
  "actor_Stop a = (if \<not> stop a then a\<lparr>stop := True\<rparr> else a)"

text \<open>A non-blocking send to the mailbox: None when it is full.\<close>

definition try_send :: "'v message \<Rightarrow> 'v actor \<Rightarrow> 'v actor option" where
  "try_send m a =
     (if length (mailbox a) < mailbox_cap a then Some (a\<lparr>mailbox := mailbox a @ [m]\<rparr>) else None)"

definition startStopping :: "'v actor \<Rightarrow> 'v actor" where
  "startStopping a = a\<lparr>a_status := SetStatus ActorStatusStopping (a_status a)\<rparr>"

definition actor_beforeStop :: "'v actor \<Rightarrow> 'v actor" where
  "actor_beforeStop a = a"

definition finish :: "'v actor \<Rightarrow> 'v actor \<times> 'v message list" where
  "finish a =
     (let a = a\<lparr>cancelled := True\<rparr>
      in (a\<lparr>phase := Exited\<rparr>, [signalSnapshot a, signalStopped a]))"

text \<open>After a branch: a panic unwinds to the deferred \<open>finish\<close>.\<close>

definition unwind :: "'v effect \<Rightarrow> 'v actor \<times> 'v message list" where
  "unwind e = (case e of (a, out, panicked) \<Rightarrow>
     if panicked then let (a, out') = finish a in (a, out @ out') else (a, out))"

datatype actor_event = OnBegin | OnMailbox | OnIdle | OnAlive | OnTimer | OnStop | OnDrained

definition due :: "wall \<Rightarrow> int option \<Rightarrow> bool" where
  "due w at = (case at of None \<Rightarrow> False | Some t \<Rightarrow> t \<le> unix_nanos w)"

text \<open>
  The branches of the goroutine that are ready. In the select loop any ready branch can be
  chosen; \<open>drain\<close> receives until the mailbox is empty and then leaves.
\<close>

fun actor_ready :: "wall \<Rightarrow> 'v actor \<Rightarrow> actor_event \<Rightarrow> bool" where
  "actor_ready w a OnBegin \<longleftrightarrow> phase a = Spawned"
| "actor_ready w a OnMailbox \<longleftrightarrow> phase a \<in> {Looping, Draining} \<and> mailbox a \<noteq> []"
| "actor_ready w a OnIdle \<longleftrightarrow> phase a = Looping \<and> due w (idleTimer a)"
| "actor_ready w a OnAlive \<longleftrightarrow> phase a = Looping \<and> due w (aliveTimer a)"
| "actor_ready w a OnTimer \<longleftrightarrow> phase a = Looping \<and> due w (fires (a_timer a))"
| "actor_ready w a OnStop \<longleftrightarrow> phase a = Looping \<and> stop a"
| "actor_ready w a OnDrained \<longleftrightarrow> phase a = Draining \<and> mailbox a = []"

fun actor_step :: "wall \<Rightarrow> actor_event \<Rightarrow> 'v actor \<Rightarrow> 'v actor \<times> 'v message list" where
  "actor_step w OnBegin a =
     (a\<lparr>a_status := SetStatus ActorStatusRunning (a_status a), phase := Looping\<rparr>, [])"
| "actor_step w OnMailbox a =
     (let m = hd (mailbox a); a = a\<lparr>mailbox := tl (mailbox a)\<rparr>;
          a = (if phase a = Looping then resetIdle w a else a)
      in unwind (handle w m a))"
| "actor_step w OnIdle a =
     (let a = resetIdle w (a\<lparr>idleTimer := None\<rparr>) in (a, [signalSnapshot a, signalIdle a]))"
| "actor_step w OnAlive a =
     (let (a, out) = alive w (a\<lparr>aliveTimer := None\<rparr>) in (a, out @ [signalAlive w a]))"
| "actor_step w OnTimer a =
     (handleTimerTrigger w (a\<lparr>a_timer := (a_timer a)\<lparr>fires := None\<rparr>\<rparr>), [])"
| "actor_step w OnStop a = (startStopping (a\<lparr>stop := False, phase := Draining\<rparr>), [])"
| "actor_step w OnDrained a = finish (actor_beforeStop a)"

section \<open>Making actors (core/factory.go)\<close>

definition FactoryWarp :: "'v handlers \<Rightarrow> actor_config \<Rightarrow> 'v::default actor" where
  "FactoryWarp h config = (let actor = NewActor config in actor\<lparr>handler := Some h\<rparr>)"

type_synonym 'v factory = "(string \<times> (actor_config \<Rightarrow> 'v actor)) list"

definition NewFactory :: "'v factory" where
  "NewFactory = []"

definition factory_Register ::
  "string \<Rightarrow> (actor_config \<Rightarrow> 'v actor) \<Rightarrow> 'v factory \<Rightarrow> 'v factory" where
  "factory_Register actorType f r = AList.update actorType f r"

text \<open>None is the error for a type that was never registered.\<close>

definition factory_New :: "'v factory \<Rightarrow> actor_config \<Rightarrow> 'v actor option" where
  "factory_New r config =
     (case map_of r (cfg_Type config) of None \<Rightarrow> None | Some f \<Rightarrow> Some (f config))"

end
