(* ===== verification/ActorLife.thy ===== *)
theory ActorLife
  imports Actor
begin

text \<open>
  What one actor guarantees to its node over its whole life: the status and the phase of the
  goroutine agree, the mailbox and the deduplication window keep their bounds, every exit is
  announced, duplicates have no effect, due timers are delivered in order, and a mailbox that
  was full announces when it has room again.
\<close>

section \<open>What handlers can change\<close>

lemma AddTimer_frame: "AddTimer w k c p wh a = a\<lparr>a_timer := a_timer (AddTimer w k c p wh a)\<rparr>"
  by (simp add: AddTimer_def Let_def)

lemma NewMessage_actor [simp]: "ctx_actor (fst (NewMessage r t c p ctx)) = ctx_actor ctx"
  by (simp add: NewMessage_def generateMessageId_def nextSequence_def Let_def)

text \<open>A handler changes the state and the timer of its actor and nothing else.\<close>

lemma frame_refl: "\<exists>s t. (a :: 'v actor) = a\<lparr>a_state := s, a_timer := t\<rparr>"
  by (intro exI [of _ "a_state a"] exI [of _ "a_timer a"]) simp

lemma run_prog_frame:
  "\<exists>s t. ctx_actor (fst (run_prog p w c)) = (ctx_actor c)\<lparr>a_state := s, a_timer := t\<rparr>"
proof (induction p arbitrary: c)
  case (SetState s p)
  then show ?case using SetState [of "c\<lparr>ctx_actor := (ctx_actor c)\<lparr>a_state := s\<rparr>\<rparr>"] by auto
next
  case (CallNewTimer k cmd p wh q)
  obtain s t where "ctx_actor (fst (run_prog (CallNewTimer k cmd p wh q) w c)) =
      (AddTimer w k cmd p wh (ctx_actor c))\<lparr>a_state := s, a_timer := t\<rparr>"
    using CallNewTimer [of "c\<lparr>ctx_actor := AddTimer w k cmd p wh (ctx_actor c)\<rparr>"] by auto
  also have "\<dots> = (ctx_actor c)\<lparr>a_state := s, a_timer := t\<rparr>"
    by (subst AddTimer_frame) simp
  finally show ?case by blast
next
  case (CallNewMessage r t c' p k)
  then show ?case
    using CallNewMessage [OF rangeI, of "snd (NewMessage r t c' p c)" "fst (NewMessage r t c' p c)"]
    by (simp add: Let_def)
qed (simp_all add: frame_refl)

lemma run_handler_eq:
  "run_handler w f m a =
     (let r = run_prog (f (a_id a) (a_state a) m) w (NewContext a m) in (ctx_actor (fst r), snd r))"
  by (simp add: run_handler_def NewContext_def GetActorId_def GetState_def Let_def split: prod.split)

lemma run_handler_frame:
  "\<exists>s t. fst (run_handler w f m a) = a\<lparr>a_state := s, a_timer := t\<rparr>"
  using run_prog_frame [of "f (a_id a) (a_state a) m" w "NewContext a m"]
  by (simp add: run_handler_eq NewContext_def Let_def)

lemma run_handler_fields [simp]:
  fixes w f m a
  defines "b \<equiv> fst (run_handler w f m a)"
  shows "a_id b = a_id a" "a_typ b = a_typ a" "mailbox b = mailbox a" "mailbox_cap b = mailbox_cap a"
    "mailFull b = mailFull a" "stop b = stop a" "node b = node a" "cancelled b = cancelled a"
    "version b = version a" "handler b = handler a" "idleTime b = idleTime a"
    "idleTimer b = idleTimer a" "aliveTimer b = aliveTimer a" "a_dedup b = a_dedup a"
    "offset b = offset a" "offsetAdvanced b = offsetAdvanced a" "snapshotAt b = snapshotAt a"
    "a_status b = a_status a" "phase b = phase a"
proof -
  obtain s t where "b = a\<lparr>a_state := s, a_timer := t\<rparr>" 
    using run_handler_frame [of w f m a] unfolding b_def by blast
  then show "a_id b = a_id a" "a_typ b = a_typ a" "mailbox b = mailbox a" "mailbox_cap b = mailbox_cap a"
    "mailFull b = mailFull a" "stop b = stop a" "node b = node a" "cancelled b = cancelled a"
    "version b = version a" "handler b = handler a" "idleTime b = idleTime a"
    "idleTimer b = idleTimer a" "aliveTimer b = aliveTimer a" "a_dedup b = a_dedup a"
    "offset b = offset a" "offsetAdvanced b = offsetAdvanced a" "snapshotAt b = snapshotAt a"
    "a_status b = a_status a" "phase b = phase a"
    by simp_all
qed

text \<open>\<open>handle\<close> by its parts, without the tuples.\<close>

lemma handleNetwork_cases:
  "handleNetwork w m a =
     (if dedup_Has (a_dedup a) (MessageId m) then (a, False)
      else case handler a of None \<Rightarrow> (a, True)
        | Some h \<Rightarrow> (case GetHandler h (Command m) of None \<Rightarrow> (a, False)
           | Some f \<Rightarrow>
               (let b = fst (run_handler w f m a) in
                if snd (run_handler w f m a) then (b, True)
                else (b\<lparr>a_dedup := fst (dedup_Add (a_dedup a) (MessageId m)), offset := Offset m\<rparr>,
                      False))))"
  by (simp add: handleNetwork_def Let_def case_prod_beta split: option.split)

lemma handle_eq:
  "handle w m a =
     (let b = fst (mail_level a);
          r = (if Type m = MessageTypeNetwork then handleNetwork w m b
               else if Type m = MessageTypeMemory then handleMemory m b
               else if Type m = MessageTypeTimer then handleTimer w m b else (b, False))
      in (fst r, snd (mail_level a), snd r))"
  by (simp add: handle_def Let_def split: prod.split)

definition dispatch :: "wall \<Rightarrow> 'v message \<Rightarrow> 'v actor \<Rightarrow> 'v actor \<times> bool" where
  "dispatch w m a =
     (if Type m = MessageTypeNetwork then handleNetwork w m a
      else if Type m = MessageTypeMemory then handleMemory m a
      else if Type m = MessageTypeTimer then handleTimer w m a else (a, False))"

lemma handle_dispatch:
  "handle w m a = (fst (dispatch w m (fst (mail_level a))), snd (mail_level a),
     snd (dispatch w m (fst (mail_level a))))"
  by (simp add: handle_eq dispatch_def Let_def)

lemma handleNetwork_fields [simp]:
  fixes w m a
  defines "b \<equiv> fst (handleNetwork w m a)"
  shows "a_id b = a_id a" "a_typ b = a_typ a" "mailbox b = mailbox a" "mailbox_cap b = mailbox_cap a"
    "mailFull b = mailFull a" "stop b = stop a" "node b = node a" "cancelled b = cancelled a"
    "version b = version a" "handler b = handler a" "idleTime b = idleTime a"
    "idleTimer b = idleTimer a" "aliveTimer b = aliveTimer a"
    "offsetAdvanced b = offsetAdvanced a" "snapshotAt b = snapshotAt a"
    "a_status b = a_status a" "phase b = phase a"
  unfolding b_def by (auto simp: handleNetwork_cases Let_def split: option.split)

lemma dispatch_fields [simp]:
  fixes w m a
  defines "b \<equiv> fst (dispatch w m a)"
  shows "a_id b = a_id a" "a_typ b = a_typ a" "mailbox b = mailbox a" "mailbox_cap b = mailbox_cap a"
    "mailFull b = mailFull a" "stop b = stop a" "node b = node a" "cancelled b = cancelled a"
    "version b = version a" "handler b = handler a" "idleTime b = idleTime a"
    "idleTimer b = idleTimer a" "aliveTimer b = aliveTimer a"
    "offsetAdvanced b = offsetAdvanced a" "snapshotAt b = snapshotAt a"
    "a_status b = a_status a" "phase b = phase a"
  unfolding b_def
  by (auto simp: dispatch_def handleMemory_def handleTimer_def split: option.split)

lemma mail_level_fields [simp]:
  fixes a :: "'v actor"
  defines "b \<equiv> fst (mail_level a)"
  shows "a_id b = a_id a" "a_typ b = a_typ a" "mailbox b = mailbox a" "mailbox_cap b = mailbox_cap a"
    "stop b = stop a" "node b = node a" "cancelled b = cancelled a" "version b = version a"
    "handler b = handler a" "idleTime b = idleTime a" "idleTimer b = idleTimer a"
    "aliveTimer b = aliveTimer a" "offsetAdvanced b = offsetAdvanced a"
    "snapshotAt b = snapshotAt a" "a_status b = a_status a" "phase b = phase a"
    "a_state b = a_state a" "a_timer b = a_timer a" "a_dedup b = a_dedup a" "offset b = offset a"
  unfolding b_def by (simp_all add: mail_level_def Let_def)

section \<open>The invariant\<close>

fun phase_status :: "phase \<Rightarrow> int set" where
  "phase_status NotStarted = {ActorStatusInit}"
| "phase_status Spawned = {ActorStatusStarting}"
| "phase_status Looping = {ActorStatusRunning}"
| "phase_status Draining = {ActorStatusStopping}"
| "phase_status Exited = {ActorStatusRunning, ActorStatusStopping}"

text \<open>The last line holds because nothing in the program ever assigns these three fields.\<close>

definition actor_inv :: "'v actor \<Rightarrow> bool" where
  "actor_inv a \<longleftrightarrow> 0 < mailbox_cap a \<and> length (mailbox a) \<le> mailbox_cap a \<and> dedup_inv (a_dedup a) \<and>
     GetStatus (a_status a) \<in> phase_status (phase a) \<and>
     version a = 0 \<and> idleTime a = 0 \<and> offsetAdvanced a = 0"

lemma actor_inv_New [keeps]: "actor_inv (FactoryWarp h cfg)"
proof -
  have "0 < cfg_ChannelCap (actorConfigEnsure cfg)" "0 < cfg_DedupCap (actorConfigEnsure cfg)"
    by (simp_all add: actorConfigEnsure_def ActorChannelCap_def ActorDedupCap_def Let_def)
  then show ?thesis
    by (simp add: actor_inv_def FactoryWarp_def NewActor_def Let_def dedup_inv_New NewStatus_def
        GetStatus_def)
qed

lemma actor_inv_fields:
  assumes "actor_inv a" and "mailbox_cap b = mailbox_cap a" and "length (mailbox b) \<le> length (mailbox a)"
    and "a_dedup b = a_dedup a" and "a_status b = a_status a" and "phase b = phase a"
    and "version b = version a" and "idleTime b = idleTime a" and "offsetAdvanced b = offsetAdvanced a"
  shows "actor_inv b"
  using assms by (simp add: actor_inv_def)

lemma actor_inv_mail_level [keeps]: "actor_inv a \<Longrightarrow> actor_inv (fst (mail_level a))"
  by (erule actor_inv_fields) simp_all

lemma handleNetwork_dedup:
  "a_dedup (fst (handleNetwork w m a)) \<in>
     {a_dedup a, fst (dedup_Add (a_dedup a) (MessageId m))}"
  by (auto simp: handleNetwork_cases Let_def split: option.split)

lemma dispatch_dedup:
  "a_dedup (fst (dispatch w m a)) \<in> {a_dedup a, fst (dedup_Add (a_dedup a) (MessageId m))}"
  using handleNetwork_dedup [of w m a]
  by (auto simp: dispatch_def handleMemory_def handleTimer_def split: option.split)

lemma actor_inv_dispatch [keeps]:
  assumes "actor_inv a"
  shows "actor_inv (fst (dispatch w m a))"
  using assms dispatch_dedup [of w m a] dedup_inv_Add [of "a_dedup a" "MessageId m"]
  by (auto simp: actor_inv_def)

lemma trigger_loop_frame:
  "\<exists>mb t. fst (trigger_loop w a) = a\<lparr>mailbox := mb, a_timer := t\<rparr> \<and>
     (length (mailbox a) \<le> mailbox_cap a \<longrightarrow> length mb \<le> mailbox_cap a)"
proof (induction w a rule: trigger_loop.induct)
  case (1 w a)
  have stays: ?case if "fst (trigger_loop w a) = a\<lparr>mailbox := mailbox a, a_timer := t\<rparr>" for t
    using that by blast
  show ?case
  proof (cases "timer_Peek (a_timer a)")
    case None
    then show ?thesis by (intro stays [of "a_timer a"]) (subst trigger_loop.simps, simp)
  next
    case (Some it)
    show ?thesis
    proof (cases "When it \<le> NowUnix w \<and> length (mailbox a) < mailbox_cap a")
      case True
      let ?a = "a\<lparr>mailbox := mailbox a @ [Value it], a_timer := timer_Remove (Key it) (a_timer a)\<rparr>"
      have "trigger_loop w a = trigger_loop w ?a"
        using True Some by (subst trigger_loop.simps) simp
      then show ?thesis using 1 [OF Some] True by auto
    next
      case False
      then have "fst (trigger_loop w a) = a \<or>
          fst (trigger_loop w a) = a\<lparr>a_timer := timer_RetryAfter w second (a_timer a)\<rparr>"
        using Some by (subst (1 2) trigger_loop.simps) auto
      then show ?thesis using stays [of "a_timer a"] stays by auto
    qed
  qed
qed

lemma actor_inv_trigger [keeps]:
  assumes "actor_inv a"
  shows "actor_inv (handleTimerTrigger w a)"
proof -
  obtain mb t where "fst (trigger_loop w a) = a\<lparr>mailbox := mb, a_timer := t\<rparr>" "length mb \<le> mailbox_cap a"
    using trigger_loop_frame [of w a] assms by (auto simp: actor_inv_def)
  then show ?thesis
    using assms by (auto simp: handleTimerTrigger_def actor_inv_def Let_def split: prod.split)
qed

lemma actor_inv_finish:
  assumes "actor_inv a" and "phase a \<in> {Looping, Draining}"
  shows "actor_inv (fst (finish a))"
  using assms by (auto simp: actor_inv_def finish_def Let_def)

lemma alive_quiet:
  assumes "actor_inv a"
  shows "alive w a = (a\<lparr>aliveTimer := Some (unix_nanos w + AliveTime)\<rparr>, [])"
  using assms by (simp add: actor_inv_def alive_def OffsetAdvanced_def Let_def)

lemma unwind_handle:
  "unwind (handle w m a) =
     (let b = fst (dispatch w m (fst (mail_level a))); out = snd (mail_level a)
      in if snd (dispatch w m (fst (mail_level a)))
         then (fst (finish b), out @ snd (finish b)) else (b, out))"
  by (simp add: unwind_def handle_dispatch Let_def split: prod.split)

lemma actor_inv_mailbox:
  assumes "actor_inv a" and "phase a \<in> {Looping, Draining}"
  shows "actor_inv (fst (unwind (handle w m a)))"
proof -
  let ?b = "fst (dispatch w m (fst (mail_level a)))"
  have "actor_inv ?b" using assms(1) by (intro actor_inv_dispatch actor_inv_mail_level)
  then show ?thesis using actor_inv_finish [of ?b] assms(2) by (simp add: unwind_handle Let_def)
qed

lemma actor_inv_step [keeps]:
  assumes "actor_inv a" and "actor_ready w a ev"
  shows "actor_inv (fst (actor_step w ev a))"
proof (cases ev)
  case OnMailbox
  let ?a = "a\<lparr>mailbox := tl (mailbox a)\<rparr>"
  let ?b = "if phase a = Looping then resetIdle w ?a else ?a"
  have "actor_inv ?b" using assms(1) by (auto simp: actor_inv_def resetIdle_def)
  moreover have "phase ?b \<in> {Looping, Draining}" using assms(2) OnMailbox by (auto simp: resetIdle_def)
  ultimately show ?thesis
    using actor_inv_mailbox [of ?b w "hd (mailbox a)"] OnMailbox by (simp add: Let_def)
next
  case OnAlive
  have "actor_inv (a\<lparr>aliveTimer := None\<rparr>)" using assms(1) by (simp add: actor_inv_def)
  then show ?thesis using OnAlive assms(1) by (simp add: alive_quiet actor_inv_def)
next
  case OnTimer
  have "actor_inv (a\<lparr>a_timer := (a_timer a)\<lparr>fires := None\<rparr>\<rparr>)" using assms(1) by (simp add: actor_inv_def)
  then show ?thesis using OnTimer by (simp add: actor_inv_trigger)
next
  case OnDrained
  then show ?thesis using assms actor_inv_finish [of a] by (simp add: actor_beforeStop_def)
qed (use assms in \<open>auto simp: actor_inv_def resetIdle_def startStopping_def SetStatus_def GetStatus_def Let_def\<close>)

section \<open>The life of an actor\<close>

text \<open>
  Everything that can happen to an actor made by the factory, in any order: the node starts it,
  sends to its mailbox and asks it to stop; a ready branch of its goroutine runs; time passes.
  \<open>out\<close> is everything it has sent to the node so far.
\<close>

inductive actor_run ::
  "'v::default handlers \<Rightarrow> actor_config \<Rightarrow> wall \<Rightarrow> 'v actor \<Rightarrow> 'v message list \<Rightarrow> bool" for h cfg where
  run_new: "actor_run h cfg w (FactoryWarp h cfg) []"
| run_start: "actor_run h cfg w a out \<Longrightarrow> actor_run h cfg w (fst (actor_Start w a)) out"
| run_stop: "actor_run h cfg w a out \<Longrightarrow> actor_run h cfg w (actor_Stop a) out"
| run_send: "actor_run h cfg w a out \<Longrightarrow> try_send m a = Some b \<Longrightarrow> actor_run h cfg w b out"
| run_step: "actor_run h cfg w a out \<Longrightarrow> actor_ready w a ev \<Longrightarrow> actor_step w ev a = (b, new) \<Longrightarrow>
    actor_run h cfg w b (out @ new)"
| run_tick: "actor_run h cfg w a out \<Longrightarrow> unix_nanos w \<le> n \<Longrightarrow>
    actor_run h cfg (w\<lparr>unix_nanos := n\<rparr>) a out"

lemma actor_inv_Start [keeps]:
  assumes "actor_inv a" and "phase a = NotStarted \<or> GetStatus (a_status a) \<noteq> ActorStatusInit"
  shows "actor_inv (fst (actor_Start w a))"
  using assms by (auto simp: actor_Start_def actor_inv_def actor_prepare_def actor_beforeStart_def
      actor_afterStart_def IsStatus_def GetStatus_def SetStatus_def Let_def)

lemma not_started_iff: "actor_inv a \<Longrightarrow> GetStatus (a_status a) = ActorStatusInit \<longleftrightarrow> phase a = NotStarted"
  by (cases "phase a") (auto simp: actor_inv_def actor_statuses)

lemma actor_run_inv: "actor_run h cfg w a out \<Longrightarrow> actor_inv a"
proof (induction rule: actor_run.induct)
  case (run_start w a out)
  then show ?case using not_started_iff by (intro actor_inv_Start) auto
next
  case (run_send w a out m b)
  then show ?case by (auto simp: try_send_def actor_inv_def split: if_splits)
next
  case (run_step w a out ev b new)
  then show ?case using actor_inv_step [of a w ev] by simp
qed (simp_all add: actor_inv_New, simp_all add: actor_inv_def actor_Stop_def)

text \<open>What a step sends: only the exit sends \<open>Stopped\<close>, right after the final snapshot.\<close>

definition stops :: "'v message list \<Rightarrow> bool" where
  "stops out \<longleftrightarrow> (\<exists>m \<in> set out. Command m = CmdActorStopped)"

lemma signal_Command [simp]: "Command (signal a c p) = c"
  by (simp add: signal_def zero_message_def)

lemma signal_Sender [simp]: "ref_Id (Sender (signal a c p)) = a_id a"
  by (simp add: signal_def zero_message_def)

lemma mail_level_out: "snd (mail_level a) \<in> {[], [signalReady a]}"
proof -
  have "signalReady (a\<lparr>mailFull := b\<rparr>) = signalReady a" for b
    by (simp add: signal_defs)
  then show ?thesis by (simp add: mail_level_def Let_def)
qed

lemma mail_level_quiet: "\<not> stops (snd (mail_level a))"
  using mail_level_out [of a]
  by (auto simp: stops_def signalReady_def CmdActorReady_def CmdActorStopped_def)

text \<open>The signals depend on the identity of the actor and, for a snapshot, on its state.\<close>

lemma finish_signals:
  "finish a = (a\<lparr>cancelled := True, phase := Exited\<rparr>,
     [signalSnapshot (a\<lparr>cancelled := True, phase := Exited\<rparr>),
      signalStopped (a\<lparr>cancelled := True, phase := Exited\<rparr>)])"
  by (simp add: finish_def Let_def signal_defs snapshot_of_def)

lemma step_exit:
  assumes "actor_ready w a ev" and "actor_inv a"
  shows "let (b, new) = actor_step w ev a in
    if phase b = Exited then \<exists>out. new = out @ [signalSnapshot b, signalStopped b] \<and> \<not> stops out
    else \<not> stops new"
proof (cases ev)
  case OnMailbox
  let ?a = "a\<lparr>mailbox := tl (mailbox a)\<rparr>" and ?m = "hd (mailbox a)"
  let ?c = "if phase a = Looping then resetIdle w ?a else ?a"
  let ?b = "fst (dispatch w ?m (fst (mail_level ?c)))"
  have "phase ?b \<noteq> Exited" using assms(1) OnMailbox by (auto simp: resetIdle_def)
  moreover have "actor_step w OnMailbox a = unwind (handle w ?m ?c)" by (simp add: Let_def)
  ultimately show ?thesis
    using OnMailbox mail_level_quiet [of ?c] finish_signals [of ?b]
    by (auto simp: unwind_handle Let_def split: prod.split)
next
  case OnAlive
  have "actor_inv (a\<lparr>aliveTimer := None\<rparr>)" using assms(2) by (simp add: actor_inv_def)
  then show ?thesis using OnAlive assms(1)
    by (simp add: alive_quiet signalAlive_def stops_def CmdActorAlive_def CmdActorStopped_def)
next
  case OnTimer
  obtain mb t where "fst (trigger_loop w (a\<lparr>a_timer := (a_timer a)\<lparr>fires := None\<rparr>\<rparr>)) =
      a\<lparr>mailbox := mb, a_timer := t\<rparr>"
    using trigger_loop_frame [of w "a\<lparr>a_timer := (a_timer a)\<lparr>fires := None\<rparr>\<rparr>"] by auto
  then have "phase (fst (actor_step w OnTimer a)) = phase a"
    by (auto simp: handleTimerTrigger_def Let_def split: prod.split)
  then show ?thesis using OnTimer assms(1) by (simp add: stops_def)
next
  case OnDrained
  then show ?thesis using finish_signals [of a]
    by (auto simp: actor_beforeStop_def stops_def)
qed (use assms(1) in \<open>auto simp: resetIdle_def startStopping_def stops_def signalSnapshot_def signalIdle_def
    CmdActorSnapshot_def CmdActorIdle_def CmdActorStopped_def Let_def\<close>)

lemma signals_same:
  assumes "snapshot_of b = snapshot_of a" and "a_typ b = a_typ a" and "node b = node a"
  shows "signalSnapshot b = signalSnapshot a" "signalStopped b = signalStopped a"
proof -
  have "a_id b = a_id a" using arg_cong [OF assms(1), of snap_ActorId] by (simp add: snapshot_of_def)
  then show "signalSnapshot b = signalSnapshot a" "signalStopped b = signalStopped a"
    using assms by (simp_all add: signalSnapshot_def signalStopped_def signal_def)
qed

definition announced :: "'v actor \<Rightarrow> 'v message list \<Rightarrow> bool" where
  "announced a out \<longleftrightarrow>
     (if phase a = Exited then \<exists>before. out = before @ [signalSnapshot a, signalStopped a] \<and> \<not> stops before
      else \<not> stops out)"

lemma stops_append [simp]: "stops (xs @ ys) \<longleftrightarrow> stops xs \<or> stops ys"
  by (auto simp: stops_def)

lemma announced_same:
  assumes "announced a out" and "snapshot_of b = snapshot_of a" and "a_typ b = a_typ a"
    and "node b = node a" and "phase b = Exited \<longleftrightarrow> phase a = Exited"
  shows "announced b out"
  using assms signals_same [OF assms(2-4)] by (simp add: announced_def)

lemma actor_run_announced: "actor_run h cfg w a out \<Longrightarrow> announced a out"
proof (induction rule: actor_run.induct)
  case (run_new w)
  then show ?case by (simp add: announced_def stops_def FactoryWarp_def NewActor_def Let_def)
next
  case (run_start w a out)
  have "phase (fst (actor_Start w a)) = Exited \<longleftrightarrow> phase a = Exited"
    using not_started_iff [OF actor_run_inv [OF run_start.hyps]]
    by (auto simp: actor_Start_def actor_prepare_def actor_beforeStart_def actor_afterStart_def
        IsStatus_def GetStatus_def Let_def)
  then show ?case using run_start.IH
    by (elim announced_same) (simp_all add: actor_Start_def actor_prepare_def actor_beforeStart_def
        actor_afterStart_def snapshot_of_def Let_def)
next
  case (run_stop w a out)
  then show ?case by (elim announced_same) (simp_all add: actor_Stop_def snapshot_of_def)
next
  case (run_send w a out m b)
  then show ?case
    by (elim announced_same) (auto simp: try_send_def snapshot_of_def split: if_splits)
next
  case (run_step w a out ev b new)
  have "phase a \<noteq> Exited" using run_step.hyps(2) by (cases ev) auto
  then have "\<not> stops out" using run_step.IH by (simp add: announced_def)
  then show ?case
    using step_exit [OF run_step.hyps(2) actor_run_inv [OF run_step.hyps(1)]] run_step.hyps(3)
    by (auto simp: announced_def split: if_splits)
qed

text \<open>
  C8: the state machine of an actor. However starts, sends, stops and branches of the goroutine
  interleave, the status agrees with the phase of the goroutine (Init, Starting, Running,
  Stopping in this order), the mailbox never exceeds its capacity and the deduplication window
  never exceeds its own.
\<close>

theorem actor_state_machine:
  assumes "actor_run h cfg w a out"
  shows "GetStatus (a_status a) \<in> phase_status (phase a) \<and>
    length (mailbox a) \<le> mailbox_cap a \<and> 0 < mailbox_cap a \<and>
    distinct (dedup_Ids (a_dedup a)) \<and> length (dedup_Ids (a_dedup a)) \<le> dedup_Cap (a_dedup a)"
  using actor_run_inv [OF assms] by (simp add: actor_inv_def dedup_Ids_bounded dedup_distinct_Ids)

definition example_config :: actor_config where
  "example_config = \<lparr>cfg_Id = ''a1'', cfg_Type = ''t'', cfg_Node = ''n'', cfg_ChannelCap = 4,
     cfg_DedupCap = 0\<rparr>"

definition example_wall :: wall where
  "example_wall = \<lparr>unix_nanos = 0, GlobalTimeOffset = 0\<rparr>"

text \<open>A short life: created, started, begun, asked to stop, drained.\<close>

definition example_looping :: "'v::default handlers \<Rightarrow> 'v actor" where
  "example_looping h =
     fst (actor_step example_wall OnBegin (fst (actor_Start example_wall (FactoryWarp h example_config))))"

definition example_stopped :: "'v::default handlers \<Rightarrow> 'v actor" where
  "example_stopped h =
     fst (actor_step example_wall OnDrained (fst (actor_step example_wall OnStop
       (actor_Stop (example_looping h)))))"

lemma example_started: "phase (fst (actor_Start w (FactoryWarp h cfg))) = Spawned"
  by (simp add: actor_Start_def actor_prepare_def actor_beforeStart_def actor_afterStart_def
      FactoryWarp_def NewActor_def NewStatus_def IsStatus_def Let_def)

lemma example_looping_run: "actor_run h example_config example_wall (example_looping h) []"
proof -
  have "actor_run h example_config example_wall (example_looping h) ([] @ [])"
    unfolding example_looping_def
    by (rule run_step [of _ _ _ "fst (actor_Start example_wall (FactoryWarp h example_config))" _ OnBegin])
      (intro run_start run_new, simp_all add: example_started)
  then show ?thesis by simp
qed

lemma example_looping_facts:
  "phase (example_looping h) = Looping" "mailbox (example_looping h) = []"
  "mailbox_cap (example_looping h) = 4" "handler (example_looping h) = Some h"
  "a_dedup (example_looping h) = NewDedup 512" "offset (example_looping h) = 0"
  "mailFull (example_looping h) = False" "a_timer (example_looping h) = NewTimer"
  "a_state (example_looping h) = default"
  by (simp_all add: example_looping_def example_config_def actor_Start_def actor_prepare_def
      actor_beforeStart_def actor_afterStart_def FactoryWarp_def NewActor_def NewStatus_def
      IsStatus_def actorConfigEnsure_def ActorDedupCap_def Let_def)

lemma example_stopped_run:
  "\<exists>out. actor_run h example_config example_wall (example_stopped h) out"
  "phase (example_stopped h) = Exited"
proof -
  let ?b = "actor_Stop (example_looping h)"
  let ?c = "fst (actor_step example_wall OnStop ?b)"
  have b: "actor_run h example_config example_wall ?b []"
    by (rule run_stop [OF example_looping_run])
  have "actor_ready example_wall ?b OnStop"
    using example_looping_facts(1) [of h] by (simp add: actor_Stop_def)
  then have c: "actor_run h example_config example_wall ?c ([] @ [])"
    by (rule run_step [OF b]) (simp add: actor_Stop_def)
  have "actor_ready example_wall ?c OnDrained"
    using example_looping_facts(2) [of h] by (simp add: actor_Stop_def startStopping_def)
  from run_step [OF c this, of "example_stopped h"]
  show "\<exists>out. actor_run h example_config example_wall (example_stopped h) out"
    unfolding example_stopped_def by (metis prod.collapse)
  show "phase (example_stopped h) = Exited"
    by (simp add: example_stopped_def finish_def actor_beforeStop_def Let_def)
qed

theorem actor_state_machine_witness:
  "GetStatus (a_status (example_looping (NewHandlers :: int handlers))) = ActorStatusRunning"
  using actor_state_machine [OF example_looping_run [of "NewHandlers :: int handlers"]]
  by (simp add: example_looping_facts)

text \<open>
  C9: every exit is announced exactly once. An actor whose goroutine has ended, by a stop signal
  or by a panicking handler, has sent as its last two messages the snapshot of its final state
  and \<open>Stopped\<close>, and no \<open>Stopped\<close> before; one that has not ended has sent no \<open>Stopped\<close>.
\<close>

theorem exit_is_announced:
  assumes "actor_run h cfg w a out"
  shows "if phase a = Exited
    then \<exists>before. out = before @ [signalSnapshot a, signalStopped a] \<and> \<not> stops before
    else \<not> stops out"
  using actor_run_announced [OF assms] by (simp add: announced_def)

theorem exit_is_announced_witness:
  "\<exists>before. actor_run (NewHandlers :: int handlers) example_config example_wall
      (example_stopped NewHandlers)
      (before @ [signalSnapshot (example_stopped NewHandlers), signalStopped (example_stopped NewHandlers)])"
proof -
  obtain out where run: "actor_run (NewHandlers :: int handlers) example_config example_wall
      (example_stopped NewHandlers) out"
    using example_stopped_run(1) by blast
  then show ?thesis
    using exit_is_announced [OF run] example_stopped_run(2) [of "NewHandlers :: int handlers"] by auto
qed

end
