(* ===== verification/ActorMail.thy ===== *)
theory ActorMail
  imports ActorLife
begin

text \<open>
  How an actor treats its messages: redelivered messages have no effect, a panicking handler
  leaves the message unprocessed, a mailbox that was full announces room, and due timers enter
  the mailbox in order. Two theorems show branches that the code never uses as intended (the
  idle timer has no period, the alive timer never snapshots).
\<close>

section \<open>Redelivery\<close>

text \<open>
  Handling a list of network messages one after the other, up to the first whose handler panics: with
  it the goroutine ends.
\<close>

fun process :: "wall \<Rightarrow> 'v message list \<Rightarrow> 'v actor \<Rightarrow> 'v actor \<times> bool" where
  "process w [] a = (a, False)"
| "process w (m # ms) a =
     (let r = handleNetwork w m a in if snd r then r else process w ms (fst r))"

text \<open>The first message of every id, in order.\<close>

fun firsts :: "string set \<Rightarrow> 'v message list \<Rightarrow> 'v message list" where
  "firsts seen [] = []"
| "firsts seen (m # ms) =
     (if MessageId m \<in> seen then firsts seen ms
      else m # firsts (insert (MessageId m) seen) ms)"

text \<open>A message that some registered handler takes, and returns from whatever the state.\<close>

definition handled :: "wall \<Rightarrow> 'v handlers \<Rightarrow> 'v message \<Rightarrow> bool" where
  "handled w h m \<longleftrightarrow> (\<exists>f. GetHandler h (Command m) = Some f \<and> (\<forall>a. \<not> snd (run_handler w f m a)))"

lemma handleNetwork_duplicate:
  "dedup_Has (a_dedup a) (MessageId m) \<Longrightarrow> handleNetwork w m a = (a, False)"
  by (simp add: handleNetwork_def)

lemma handleNetwork_fresh:
  assumes "handler a = Some h" and "handled w h m" and "\<not> dedup_Has (a_dedup a) (MessageId m)"
  shows "\<not> snd (handleNetwork w m a)"
  using assms by (auto simp: handled_def handleNetwork_cases Let_def)

lemma process_append:
  "process w (xs @ ys) a =
     (let r = process w xs a in if snd r then r else process w ys (fst r))"
  by (induction xs arbitrary: a) (simp_all add: Let_def)

lemma firsts_append: "firsts seen (xs @ ys) = firsts seen xs @ firsts (seen \<union> MessageId ` set xs) ys"
  by (induction xs arbitrary: seen) (auto simp: insert_commute Un_commute insert_absorb)

lemma process_keeps:
  "dedup_inv (a_dedup a) \<Longrightarrow> dedup_inv (a_dedup (fst (process w ms a))) \<and>
     dedup_Cap (a_dedup (fst (process w ms a))) = dedup_Cap (a_dedup a) \<and>
     handler (fst (process w ms a)) = handler a \<and>
     set (dedup_Ids (a_dedup (fst (process w ms a)))) \<subseteq> set (dedup_Ids (a_dedup a)) \<union> MessageId ` set ms"
proof (induction ms arbitrary: a)
  case (Cons m ms)
  let ?b = "fst (handleNetwork w m a)"
  have add: "set (dedup_Ids (fst (dedup_Add (a_dedup a) i))) \<subseteq> insert i (set (dedup_Ids (a_dedup a)))" for i
    using Cons.prems
    by (cases "dedup_Has (a_dedup a) i"; cases "dedup_Ids (a_dedup a)") (auto simp: dedup_Add_old dedup_Add_new)
  have "dedup_inv (a_dedup ?b) \<and> dedup_Cap (a_dedup ?b) = dedup_Cap (a_dedup a) \<and> handler ?b = handler a \<and>
      set (dedup_Ids (a_dedup ?b)) \<subseteq> insert (MessageId m) (set (dedup_Ids (a_dedup a)))"
    using handleNetwork_dedup [of w m a] Cons.prems add [of "MessageId m"] by (elim insertE) (auto simp: dedup_inv_Add)
  then show ?case using Cons.IH [of ?b] by (auto simp: Let_def)
qed simp

text \<open>An id near the end of the window is still there after a few more messages.\<close>

lemma process_remembers:
  assumes "dedup_inv (a_dedup a)" and "dedup_Ids (a_dedup a) = us @ i # vs"
    and "length vs + length ms < dedup_Cap (a_dedup a)"
  shows "dedup_Has (a_dedup (fst (process w ms a))) i"
  using assms
proof (induction ms arbitrary: a us vs)
  case Nil
  then show ?case by (simp add: dedup_Has_Ids)
next
  case (Cons m ms)
  let ?b = "fst (handleNetwork w m a)"
  have step: "dedup_inv (a_dedup ?b) \<and> dedup_Cap (a_dedup ?b) = dedup_Cap (a_dedup a) \<and>
      (\<exists>us' vs'. dedup_Ids (a_dedup ?b) = us' @ i # vs' \<and> length vs' \<le> length vs + 1)"
  proof (cases "a_dedup ?b = a_dedup a")
    case True
    then show ?thesis unfolding True using Cons.prems(1,2) by fastforce
  next
    case False
    then have d: "a_dedup ?b = fst (dedup_Add (a_dedup a) (MessageId m))"
      using handleNetwork_dedup [of w m a] by simp
    show ?thesis
      unfolding d using dw.add_window [OF Cons.prems(1,2), of "MessageId m"] Cons.prems(1,3)
      by (simp add: dedup_inv_Add)
  qed
  then obtain us' vs' where ids: "dedup_Ids (a_dedup ?b) = us' @ i # vs'" "length vs' \<le> length vs + 1" by blast
  then have "dedup_Has (a_dedup (fst (process w ms ?b))) i"
    using step Cons.prems(3) by (intro Cons.IH [of ?b us' vs']) simp_all
  moreover have "dedup_Has (a_dedup ?b) i" using step ids by (simp add: dedup_Has_Ids)
  ultimately show ?case by (simp add: Let_def)
qed

text \<open>
  A message and, fewer than a window later, its repetition: whether it had a handler or not, the
  repetition changes nothing.
\<close>

lemma repetition_inert:
  assumes "dedup_inv (a_dedup a)" and "\<not> dedup_Has (a_dedup a) (MessageId m)"
    and "length ms < dedup_Cap (a_dedup a)" and "MessageId m' = MessageId m" and "Command m' = Command m"
    and "process w (m # ms) a = (b, False)"
  shows "handleNetwork w m' b = (b, False)"
proof -
  let ?a = "fst (handleNetwork w m a)"
  have go: "\<not> snd (handleNetwork w m a)" "process w ms ?a = (b, False)"
    using assms(6) by (auto simp: Let_def split: if_splits)
  obtain h where h: "handler a = Some h"
    using go(1) assms(2) by (cases "handler a") (auto simp: handleNetwork_cases)
  show ?thesis
  proof (cases "GetHandler h (Command m)")
    case None
    then have "handler b = Some h" using process_keeps [OF assms(1), of w "m # ms"] assms(6) h by simp
    then show ?thesis using None assms(5) by (simp add: handleNetwork_cases)
  next
    case (Some f)
    then have d: "a_dedup ?a = fst (dedup_Add (a_dedup a) (MessageId m))"
      using go(1) h assms(2) by (auto simp: handleNetwork_cases Let_def split: if_splits)
    then obtain us where "dedup_Ids (a_dedup ?a) = us @ MessageId m # []"
      using dedup_Add_new(3) [OF assms(1,2)] by simp
    then have "dedup_Has (a_dedup (fst (process w ms ?a))) (MessageId m)"
      using process_remembers [of ?a us "MessageId m" "[]" ms w] assms(1,3) d by (simp add: dedup_inv_Add)
    then show ?thesis using go(2) assms(4) by (simp add: handleNetwork_duplicate)
  qed
qed

text \<open>
  C10: redelivery is harmless. The actor is given any sequence of network messages that it has not seen
  before, in which messages repeat with fewer than a window (the capacity of its deduplication) of
  messages in between. Then it ends in the very state (application state, window, offset, timers) in
  which the sequence without the repetitions leaves it, and a handler panics in the one exactly when
  one does in the other. Messages without a handler, which the window does not record, are included.
\<close>

theorem redelivery_has_no_effect:
  assumes "dedup_inv (a_dedup a)" and "\<forall>m \<in> set ms. \<not> dedup_Has (a_dedup a) (MessageId m)"
    and "\<forall>xs m ys m' zs. ms = xs @ m # ys @ m' # zs \<longrightarrow> MessageId m' = MessageId m \<longrightarrow>
      Command m' = Command m \<and> length ys < dedup_Cap (a_dedup a)"
  shows "process w ms a = process w (firsts {} ms) a"
  using assms(2,3)
proof (induction ms rule: rev_induct)
  case (snoc m' ms)
  have "\<forall>xs m ys m' zs. ms = xs @ m # ys @ m' # zs \<longrightarrow> MessageId m' = MessageId m \<longrightarrow>
      Command m' = Command m \<and> length ys < dedup_Cap (a_dedup a)"
    using snoc.prems(2) by (metis append.assoc append_Cons)
  then have IH: "process w ms a = process w (firsts {} ms) a" using snoc by simp
  show ?case
  proof (cases "MessageId m' \<in> MessageId ` set ms")
    case False
    then show ?thesis using IH by (simp add: firsts_append process_append)
  next
    case True
    then have "\<exists>m \<in> set ms. MessageId m = MessageId m'" by force
    then obtain xs m ys where split: "ms = xs @ m # ys" "MessageId m = MessageId m'"
      "\<forall>y \<in> set xs. MessageId y \<noteq> MessageId m'"
      using split_list_first_propE [of ms "\<lambda>m. MessageId m = MessageId m'"] by metis
    have near: "Command m' = Command m" "length ys < dedup_Cap (a_dedup a)"
      using spec [OF snoc.prems(2), of xs] split(1,2) by force+
    let ?r = "process w xs a"
    have r: "dedup_inv (a_dedup (fst ?r))" "dedup_Cap (a_dedup (fst ?r)) = dedup_Cap (a_dedup a)"
      "\<not> dedup_Has (a_dedup (fst ?r)) (MessageId m)"
      using process_keeps [OF assms(1), of w xs] snoc.prems(1) split assms(1)
      by (auto simp: dedup_Has_Ids dest!: subsetD)
    have "handleNetwork w m' (fst (process w ms a)) = (fst (process w ms a), False)"
      if "\<not> snd (process w ms a)"
    proof (rule repetition_inert [OF r(1,3)])
      show "process w (m # ys) (fst ?r) = (fst (process w ms a), False)"
        using that unfolding split(1) process_append by (simp add: Let_def prod_eq_iff split: if_splits)
    qed (use near r(2) split(2) in simp_all)
    then have "process w (ms @ [m']) a = process w ms a"
      by (auto simp: process_append Let_def prod_eq_iff)
    then show ?thesis using IH True by (simp add: firsts_append)
  qed
qed simp

text \<open>A handler that counts the messages of its actor.\<close>

definition counting :: "int handlers" where
  "counting = Register ''inc'' (\<lambda>_ s m. SetState (s + 1) (Return False)) NewHandlers"

definition inc :: "string \<Rightarrow> int \<Rightarrow> int message" where
  "inc i off = zero_message\<lparr>MessageId := i, Offset := off, Type := MessageTypeNetwork, Command := ''inc''\<rparr>"

lemma counting_handled: "handled w counting (inc i off)"
  by (simp add: handled_def counting_def inc_def Register_def NewHandlers_def NewMap_def GetHandler_def
      run_handler_eq Let_def)

theorem redelivery_has_no_effect_witness:
  "process example_wall [inc ''x'' 4, inc ''y'' 5, inc ''x'' 4] (example_looping counting) =
   process example_wall [inc ''x'' 4, inc ''y'' 5] (example_looping counting)"
proof -
  let ?ms = "[inc ''x'' 4, inc ''y'' 5, inc ''x'' 4]"
  have [simp]: "MessageId (inc i off) = i" "Command (inc i off) = ''inc''" for i off by (simp_all add: inc_def)
  have d: "a_dedup (example_looping counting) = NewDedup 512" by (simp add: example_looping_facts)
  have inv: "dedup_inv (NewDedup 512)" "dedup_Cap (NewDedup 512) = 512"
    by (simp_all add: dedup_inv_New) (simp add: dedup_Cap_def NewDedup_def)
  have "Command m' = Command m \<and> length ys < dedup_Cap (NewDedup 512)"
    if "?ms = xs @ m # ys @ m' # zs" for xs m ys m' zs
  proof -
    have "m \<in> set ?ms" "m' \<in> set ?ms" "length ys < length ?ms"
      unfolding that by simp_all
    then show ?thesis using inv(2) by auto
  qed
  then have "process example_wall ?ms (example_looping counting) =
      process example_wall (firsts {} ?ms) (example_looping counting)"
    unfolding d [symmetric]
    by (intro redelivery_has_no_effect)
      (use inv d in \<open>simp_all add: dedup_Has_def NewDedup_def NewSet_def set_Has_def\<close>)
  then show ?thesis by simp
qed

section \<open>Panics\<close>

text \<open>
  C25: a message whose handler panics is not counted as processed. The goroutine ends, the offset
  and the deduplication window of the final snapshot are those before the message, so the
  message can be delivered again to the next incarnation of the actor.
\<close>

theorem panic_keeps_offset:
  assumes "phase a \<in> {Looping, Draining}" and "mailbox a = m # rest"
    and "Type m = MessageTypeNetwork" and "handler a = Some h"
    and "GetHandler h (Command m) = Some f" and "\<not> dedup_Has (a_dedup a) (MessageId m)"
    and "\<forall>b. snd (run_handler w f m b)"
  shows "let (b, out) = actor_step w OnMailbox a
    in phase b = Exited \<and> offset b = offset a \<and> a_dedup b = a_dedup a \<and> mailbox b = rest \<and>
       last out = signalStopped b \<and> signalSnapshot b \<in> set out"
proof -
  let ?a = "a\<lparr>mailbox := rest\<rparr>"
  let ?c = "fst (mail_level (if phase a = Looping then resetIdle w ?a else ?a))"
  have c: "handler ?c = Some h" "a_dedup ?c = a_dedup a" "offset ?c = offset a" "mailbox ?c = rest"
    using assms(4) by (simp_all add: resetIdle_def)
  have "handleNetwork w m ?c = (fst (run_handler w f m ?c), True)"
    using c assms(5-7) by (simp add: handleNetwork_cases Let_def)
  then have d: "dispatch w m ?c = (fst (run_handler w f m ?c), True)"
    using assms(3) by (simp add: dispatch_def)
  have step: "actor_step w OnMailbox a =
      (let b = fst (finish (fst (run_handler w f m ?c)))
       in (b, snd (mail_level (if phase a = Looping then resetIdle w ?a else ?a)) @
             [signalSnapshot b, signalStopped b]))"
    using assms(2) d finish_signals [of "fst (run_handler w f m ?c)"]
    by (simp add: unwind_handle Let_def)
  show ?thesis unfolding step Let_def using c by (simp add: finish_def Let_def)
qed

definition boom :: "int handlers" where
  "boom = Register ''inc'' (\<lambda>_ s m. SetState (s + 1) Panics) NewHandlers"

theorem panic_keeps_offset_witness:
  "let (b, out) = actor_step example_wall OnMailbox ((example_looping boom)\<lparr>mailbox := [inc ''x'' 4]\<rparr>)
   in phase b = Exited \<and> offset b = 0"
proof -
  let ?a = "(example_looping boom)\<lparr>mailbox := [inc ''x'' 4]\<rparr>"
  let ?f = "\<lambda>(_ :: string) s (m :: int message). SetState (s + 1 :: int) Panics"
  have "let (b, out) = actor_step example_wall OnMailbox ?a
    in phase b = Exited \<and> offset b = offset ?a \<and> a_dedup b = a_dedup ?a \<and> mailbox b = [] \<and>
       last out = signalStopped b \<and> signalSnapshot b \<in> set out"
  proof (rule panic_keeps_offset [where h = boom and f = ?f])
    show "\<not> dedup_Has (a_dedup ?a) (MessageId (inc ''x'' 4))"
      by (simp add: example_looping_facts dedup_Has_def NewDedup_def NewSet_def set_Has_def)
  qed (simp_all add: example_looping_facts inc_def boom_def Register_def GetHandler_def NewHandlers_def
      NewMap_def run_handler_eq Let_def)
  then show ?thesis by (simp add: example_looping_facts split: prod.splits)
qed

section \<open>Back-pressure\<close>

text \<open>Receiving \<open>n\<close> messages from the mailbox, nothing else happening.\<close>

fun receive :: "wall \<Rightarrow> nat \<Rightarrow> 'v actor \<Rightarrow> 'v actor \<times> 'v message list" where
  "receive w 0 a = (a, [])"
| "receive w (Suc n) a =
     (let (b, out) = actor_step w OnMailbox a; (c, out') = receive w n b in (c, out @ out'))"

lemma receive_Suc:
  "snd (receive w (Suc n) a) =
     snd (actor_step w OnMailbox a) @ snd (receive w n (fst (actor_step w OnMailbox a)))"
  by (simp only: receive.simps Let_def split: prod.split) simp

text \<open>No message in the mailbox makes its handler panic.\<close>

definition calm_mail :: "wall \<Rightarrow> 'v actor \<Rightarrow> bool" where
  "calm_mail w a \<longleftrightarrow> (\<forall>m \<in> set (mailbox a). \<forall>b. handler b = handler a \<longrightarrow> \<not> snd (dispatch w m b))"

lemma receive_step:
  assumes "phase a \<in> {Looping, Draining}" and "mailbox a = m # rest" and "calm_mail w a"
  defines "c \<equiv> (if phase a = Looping then resetIdle w (a\<lparr>mailbox := rest\<rparr>) else a\<lparr>mailbox := rest\<rparr>)"
  shows "actor_step w OnMailbox a = (fst (dispatch w m (fst (mail_level c))), snd (mail_level c))"
proof -
  have "handler (fst (mail_level c)) = handler a" by (simp add: c_def resetIdle_def)
  then have "\<not> snd (dispatch w m (fst (mail_level c)))"
    using assms(2,3) by (simp add: calm_mail_def)
  then show ?thesis using assms(2) by (simp add: unwind_handle Let_def c_def)
qed

lemma mail_level_ready:
  assumes "length (mailbox a) \<le> mailbox_cap a div 2" and "mailFull a \<or> mailbox_cap a - 1 \<le> length (mailbox a)"
  shows "snd (mail_level a) = [signalReady a]"
proof -
  have "signalReady (a\<lparr>mailFull := b\<rparr>) = signalReady a" for b by (simp add: signal_defs)
  then show ?thesis using assms by (auto simp: mail_level_def Let_def)
qed

lemma mail_level_full:
  assumes "mailbox_cap a div 2 < length (mailbox a)"
    and "mailFull a \<or> mailbox_cap a - 1 \<le> length (mailbox a)"
  shows "mailFull (fst (mail_level a))"
  using assms by (auto simp: mail_level_def Let_def)

lemma signalReady_same: "signalReady b = signalReady a"
  if "a_id b = a_id a" "a_typ b = a_typ a" "node b = node a"
  using that by (simp add: signal_defs)

lemma receive_ready:
  assumes "phase a \<in> {Looping, Draining}" and "calm_mail w a"
    and "mailFull a \<or> mailbox_cap a \<le> length (mailbox a)"
    and "length (mailbox a) = n + mailbox_cap a div 2" and "0 < n"
  shows "signalReady a \<in> set (snd (receive w n a))"
  using assms
proof (induction n arbitrary: a)
  case (Suc n)
  obtain m rest where box: "mailbox a = m # rest" using Suc.prems(4) by (cases "mailbox a") auto
  let ?c = "if phase a = Looping then resetIdle w (a\<lparr>mailbox := rest\<rparr>) else a\<lparr>mailbox := rest\<rparr>"
  let ?b = "fst (dispatch w m (fst (mail_level ?c)))"
  have step: "actor_step w OnMailbox a = (?b, snd (mail_level ?c))"
    by (rule receive_step [OF Suc.prems(1) box Suc.prems(2)])
  have c: "mailbox ?c = rest" "mailbox_cap ?c = mailbox_cap a" "mailFull ?c = mailFull a"
    "a_id ?c = a_id a" "a_typ ?c = a_typ a" "node ?c = node a" "handler ?c = handler a"
    by (simp_all add: resetIdle_def)
  have full: "mailFull ?c \<or> mailbox_cap ?c - 1 \<le> length (mailbox ?c)"
    using Suc.prems(3) box c by auto
  show ?case
  proof (cases n)
    case 0
    then have "snd (mail_level ?c) = [signalReady ?c]"
      using full Suc.prems(4) box c by (intro mail_level_ready) simp_all
    then show ?thesis unfolding receive_Suc step using signalReady_same [OF c(4-6)] by simp
  next
    case (Suc k)
    have "mailbox_cap ?c div 2 < length (mailbox ?c)"
      using Suc.prems(4) box c Suc by simp
    then have "mailFull ?b" using mail_level_full [OF _ full] by simp
    moreover have "calm_mail w ?b" using Suc.prems(2) box c(1,7) by (simp add: calm_mail_def)
    moreover have "length (mailbox ?b) = n + mailbox_cap ?b div 2"
      using Suc.prems(4) box c by simp
    moreover have "phase ?b \<in> {Looping, Draining}" using Suc.prems(1) by (auto simp: resetIdle_def)
    ultimately have "signalReady ?b \<in> set (snd (receive w n ?b))"
      using Suc by (intro Suc.IH) simp_all
    moreover have "signalReady ?b = signalReady a" using c by (intro signalReady_same) simp_all
    ultimately show ?thesis unfolding receive_Suc step by simp
  qed
qed simp

text \<open>
  Back-pressure is released. Once the node has found a mailbox full, the actor sends
  \<open>Ready\<close> while it works the mailbox down to half its capacity, so the node learns when to
  seek back to the messages it had to skip.
\<close>

theorem full_mailbox_announces_room:
  assumes "phase a \<in> {Looping, Draining}" and "calm_mail w a"
    and "length (mailbox a) = mailbox_cap a" and "0 < mailbox_cap a"
  shows "signalReady a \<in> set (snd (receive w (mailbox_cap a - mailbox_cap a div 2) a))"
  using assms by (intro receive_ready) auto

theorem full_mailbox_announces_room_witness:
  "signalReady (example_looping counting) \<in>
     set (snd (receive example_wall 2 ((example_looping counting)\<lparr>mailbox := replicate 4 (inc ''x'' 1)\<rparr>)))"
proof -
  let ?a = "(example_looping counting)\<lparr>mailbox := replicate 4 (inc ''x'' 1)\<rparr>"
  have "\<not> snd (dispatch example_wall (inc ''x'' 1) b)" if "handler b = Some counting" for b
  proof -
    have "Type (inc ''x'' 1) = MessageTypeNetwork" by (simp add: inc_def)
    moreover have "\<not> snd (handleNetwork example_wall (inc ''x'' 1) b)"
      using handleNetwork_fresh [OF that counting_handled] handleNetwork_duplicate [of b "inc ''x'' 1"]
      by (cases "dedup_Has (a_dedup b) (MessageId (inc ''x'' 1))") auto
    ultimately show ?thesis by (simp add: dispatch_def)
  qed
  then have "calm_mail example_wall ?a" by (auto simp: calm_mail_def example_looping_facts)
  moreover have "signalReady ?a = signalReady (example_looping counting)"
    by (rule signalReady_same) simp_all
  ultimately show ?thesis
    using full_mailbox_announces_room [of ?a example_wall] by (simp add: example_looping_facts)
qed

section \<open>Due timers\<close>

definition due_items :: "wall \<Rightarrow> 'v timer \<Rightarrow> (string, 'v message, int) heap_item list" where
  "due_items w t = takeWhile (\<lambda>x. When x \<le> NowUnix w) (sort_key When (pending t))"

lemma timer_Remove_peek:
  assumes "timer_inv t" and "timer_Peek t = Some it"
  shows "timer_inv (timer_Remove (Key it) t)"
    and "sort_key When (pending t) = it # sort_key When (pending (timer_Remove (Key it) t))"
  using assms heap_Remove_abs(1) [of "agenda t" "Key it"] qh.take_first(1) [of "agenda t" it]
  by (simp_all add: timer_inv_def timer_Remove_def timer_Peek_def)

lemma trigger_loop_due:
  assumes "timer_inv (a_timer a)" and "length (mailbox a) \<le> mailbox_cap a"
  shows "let due = due_items w (a_timer a); k = min (mailbox_cap a - length (mailbox a)) (length due);
             (b, full) = trigger_loop w a
    in timer_inv (a_timer b) \<and> mailbox b = mailbox a @ map Value (take k due) \<and>
       sort_key When (pending (a_timer b)) = drop k (sort_key When (pending (a_timer a))) \<and>
       (full \<longleftrightarrow> k < length due) \<and>
       (full \<longrightarrow> fires (a_timer b) = Some (unix_nanos w + second))"
  using assms
proof (induction w a rule: trigger_loop.induct)
  case (1 w a)
  show ?case
  proof (cases "timer_Peek (a_timer a)")
    case None
    then have "pending (a_timer a) = []"
      using qh.peek_empty [of "agenda (a_timer a)"] "1.prems"(1) by (simp add: timer_inv_def timer_Peek_def)
    then show ?thesis
      using None "1.prems"(1) by (subst trigger_loop.simps) (simp add: due_items_def)
  next
    case (Some it)
    note rem = timer_Remove_peek [OF "1.prems"(1) Some]
    let ?r = "timer_Remove (Key it) (a_timer a)"
    have due: "due_items w (a_timer a) = (if When it \<le> NowUnix w then it # due_items w ?r else [])"
      unfolding due_items_def rem(2) by simp
    consider (later) "NowUnix w < When it" | (full) "When it \<le> NowUnix w" "length (mailbox a) = mailbox_cap a"
      | (go) "When it \<le> NowUnix w" "length (mailbox a) < mailbox_cap a"
      using "1.prems"(2) by linarith
    then show ?thesis
    proof cases
      case later
      then show ?thesis using Some due "1.prems"(1) by (subst trigger_loop.simps) simp
    next
      case full
      then show ?thesis using Some due "1.prems"(1)
        by (subst trigger_loop.simps)
          (simp add: timer_RetryAfter_def gotimer_Reset_def timer_inv_def second_def)
    next
      case go
      let ?a = "a\<lparr>mailbox := mailbox a @ [Value it], a_timer := ?r\<rparr>"
      have loop: "trigger_loop w a = trigger_loop w ?a"
        using go Some by (subst trigger_loop.simps) simp
      have room: "mailbox_cap a - length (mailbox a) = Suc (mailbox_cap a - Suc (length (mailbox a)))"
        using go(2) by simp
      show ?thesis
        using "1.IH" [OF Some] go rem due room unfolding loop by (simp add: Let_def)
    qed
  qed
qed

text \<open>
  C24: due timers enter the mailbox in order and none is lost. When the wake-up fires in an actor
  that is not stopping, the items that are due move to the end of the mailbox, earliest deadline
  first and in order of creation for equal deadlines, as many as there is room for; exactly the
  others stay pending, and when the mailbox was too small the Go timer is armed to retry in one
  second.
\<close>

theorem due_timers_enter_mailbox:
  assumes "timer_inv (a_timer a)" and "length (mailbox a) \<le> mailbox_cap a"
    and "GetStatus (a_status a) \<noteq> ActorStatusStopping"
  shows "let due = due_items w (a_timer a); k = min (mailbox_cap a - length (mailbox a)) (length due);
             b = handleTimerTrigger w a
    in mailbox b = mailbox a @ map Value (take k due) \<and>
       sort_key When (pending (a_timer b)) = drop k (sort_key When (pending (a_timer a))) \<and>
       (k < length due \<longrightarrow> fires (a_timer b) = Some (unix_nanos w + second))"
  using trigger_loop_due [OF assms(1,2), of w] assms(3)
  by (cases "trigger_loop w a")
    (auto simp: handleTimerTrigger_def IsStatus_def GetStatus_def Let_def)

theorem due_timers_enter_mailbox_witness:
  "let a = AddTimer example_wall ''k'' ''tick'' PNil 0 (example_looping counting);
       b = handleTimerTrigger example_wall a
   in length (mailbox b) = 1 \<and> pending (a_timer b) = []"
proof -
  let ?a = "AddTimer example_wall ''k'' ''tick'' PNil 0 (example_looping counting)"
  have fields: "mailbox ?a = []" "mailbox_cap ?a = 4" "a_status ?a = a_status (example_looping counting)"
    by (simp_all add: AddTimer_def Let_def example_looping_facts)
  obtain m where m: "a_timer ?a = timer_Add example_wall ''k'' m 0 NewTimer"
    unfolding AddTimer_def Let_def by (auto simp: example_looping_facts)
  obtain x where t: "timer_inv (a_timer ?a)" "pending (a_timer ?a) = [x]" "When x = 0"
    unfolding m using timer_Add_pending [OF timer_inv_New, of example_wall "''k''" m 0] by auto
  have "GetStatus (a_status ?a) \<noteq> ActorStatusStopping"
    using actor_state_machine [OF example_looping_run [of counting]] fields(3)
    by (simp add: example_looping_facts actor_statuses)
  moreover have "due_items example_wall (a_timer ?a) = [x]"
    using t by (simp add: due_items_def example_wall_def NowUnix_def wrap64_id second_def)
  ultimately show ?thesis
    using due_timers_enter_mailbox [OF t(1), of example_wall] fields t(2)
    by (simp add: Let_def sort_key_Nil_iff)
qed

text \<open>
  The trigger puts the timer back into a state in which it wakes the actor in time (property of
  \<open>Timer\<close>): it retries in one second when the mailbox was too small, and is calibrated otherwise.
\<close>

lemma trigger_loop_timer_run:
  "timer_run w (a_timer a) s \<Longrightarrow> timer_run w (a_timer (fst (trigger_loop w a)))
     (if snd (trigger_loop w a) then Retrying (unix_nanos w + second) else s)"
proof (induction w a rule: trigger_loop.induct)
  case (1 w a)
  show ?case
  proof (cases "timer_Peek (a_timer a)")
    case None
    then show ?thesis using "1.prems" by (subst (1 2) trigger_loop.simps) simp
  next
    case (Some it)
    consider (later) "NowUnix w < When it" | (full) "When it \<le> NowUnix w" "\<not> length (mailbox a) < mailbox_cap a"
      | (go) "When it \<le> NowUnix w" "length (mailbox a) < mailbox_cap a"
      by linarith
    then show ?thesis
    proof cases
      case later
      then show ?thesis using Some "1.prems" by (subst (1 2) trigger_loop.simps) simp
    next
      case full
      have "timer_run w (timer_RetryAfter w second (a_timer a)) (Retrying (unix_nanos w + second))"
        using timer_retry [OF "1.prems", of second] by (simp add: second_def)
      then show ?thesis using Some full by (subst (1 2) trigger_loop.simps) simp
    next
      case go
      have loop: "trigger_loop w a = trigger_loop w (a\<lparr>mailbox := mailbox a @ [Value it],
          a_timer := timer_Remove (Key it) (a_timer a)\<rparr>)"
        using go Some by (subst trigger_loop.simps) simp
      show ?thesis
        using "1.IH" [OF Some] go timer_remove [OF "1.prems", of "Key it"] unfolding loop by simp
    qed
  qed
qed

lemma trigger_rearms:
  assumes "timer_run w (a_timer a) s" and "GetStatus (a_status a) \<noteq> ActorStatusStopping"
  shows "\<exists>s'. timer_run w (a_timer (fst (actor_step w OnTimer a))) s' \<and>
    (s' = Retrying (unix_nanos w + second) \<or> s' = Armed \<or>
     s' = Loose \<and> \<not> calm w (a_timer (fst (actor_step w OnTimer a))))"
proof -
  let ?r = "trigger_loop w (a\<lparr>a_timer := (a_timer a)\<lparr>fires := None\<rparr>\<rparr>)"
  have loop: "timer_run w (a_timer (fst ?r)) (if snd ?r then Retrying (unix_nanos w + second) else Loose)"
    by (rule trigger_loop_timer_run) (simp add: timer_receive [OF assms(1)])
  have step: "a_timer (fst (actor_step w OnTimer a)) =
      (if snd ?r then a_timer (fst ?r) else timer_Calibration w (a_timer (fst ?r)))"
    using assms(2) by (simp add: handleTimerTrigger_def IsStatus_def GetStatus_def Let_def split: prod.split)
  have "calm w (timer_Calibration w t) = calm w t" for t :: "'a timer" by (simp add: calm_def)
  then show ?thesis
    using loop timer_calibrate [OF loop] unfolding step by (cases "snd ?r"; cases "calm w (a_timer (fst ?r))") auto
qed

section \<open>Branches without effect\<close>

lemma trigger_keeps_idle:
  "idleTimer (handleTimerTrigger w a) = idleTimer a" "phase (handleTimerTrigger w a) = phase a"
proof -
  obtain mb t where "fst (trigger_loop w a) = a\<lparr>mailbox := mb, a_timer := t\<rparr>"
    using trigger_loop_frame [of w a] by blast
  then show "idleTimer (handleTimerTrigger w a) = idleTimer a"
    "phase (handleTimerTrigger w a) = phase a"
    by (auto simp: handleTimerTrigger_def Let_def split: prod.split)
qed

lemma idle_step:
  assumes "actor_inv a" and "actor_ready w a ev" and "phase a \<in> {Spawned, Looping} \<Longrightarrow> due w (idleTimer a)"
    and "phase (fst (actor_step w ev a)) \<in> {Spawned, Looping}"
  shows "due w (idleTimer (fst (actor_step w ev a)))"
proof (cases ev)
  case OnMailbox
  let ?a = "a\<lparr>mailbox := tl (mailbox a)\<rparr>" and ?m = "hd (mailbox a)"
  let ?c = "if phase a = Looping then resetIdle w ?a else ?a"
  let ?b = "fst (dispatch w ?m (fst (mail_level ?c)))"
  have step: "actor_step w OnMailbox a = unwind (handle w ?m ?c)" by (simp add: Let_def)
  have idle: "idleTime a = 0" using assms(1) by (simp add: actor_inv_def)
  have "fst (unwind (handle w ?m ?c)) \<in> {?b, fst (finish ?b)}"
    by (simp add: unwind_handle Let_def)
  moreover have "phase (fst (finish ?b)) = Exited" by (simp add: finish_def Let_def)
  ultimately have b: "fst (actor_step w ev a) = ?b" using assms(4) OnMailbox step by auto
  then have "phase a = Looping" using assms(2,4) OnMailbox by (auto simp: resetIdle_def split: if_splits)
  then show ?thesis using b idle by (simp add: resetIdle_def due_def)
next
  case OnIdle
  then show ?thesis using assms(1) by (simp add: resetIdle_def due_def actor_inv_def Let_def)
next
  case OnAlive
  have "actor_inv (a\<lparr>aliveTimer := None\<rparr>)" using assms(1) by (simp add: actor_inv_def)
  then show ?thesis using OnAlive assms(2,3) by (simp add: alive_quiet)
next
  case OnTimer
  then show ?thesis using assms(2,3) by (simp add: trigger_keeps_idle)
next
  case OnDrained
  then show ?thesis using assms(4) by (simp add: finish_def Let_def)
qed (use assms in \<open>simp_all add: startStopping_def\<close>)

lemma idle_due:
  "actor_run h cfg w a out \<Longrightarrow> phase a \<in> {Spawned, Looping} \<Longrightarrow> due w (idleTimer a)"
proof (induction rule: actor_run.induct)
  case (run_new w)
  then show ?case by (simp add: FactoryWarp_def NewActor_def Let_def)
next
  case (run_start w a out)
  have "idleTime a = 0" using actor_run_inv [OF run_start.hyps] by (simp add: actor_inv_def)
  then show ?case using run_start
    by (auto simp: actor_Start_def actor_prepare_def actor_beforeStart_def actor_afterStart_def
        due_def Let_def)
next
  case (run_stop w a out)
  then show ?case by (simp add: actor_Stop_def split: if_splits)
next
  case (run_send w a out m b)
  then show ?case by (auto simp: try_send_def split: if_splits)
next
  case (run_step w a out ev b new)
  then show ?case using idle_step [OF actor_run_inv [OF run_step.hyps(1)] run_step.hyps(2)] by auto
next
  case (run_tick w a out n)
  then show ?case by (auto simp: due_def split: option.splits)
qed

text \<open>
  An idle actor spins. Nothing sets \<open>idleTime\<close>, so in every state of the select loop the
  idle branch is ready; it sends a snapshot and \<open>Idle\<close> and is ready again at the same instant.
\<close>

theorem idle_branch_always_ready:
  assumes "actor_run h cfg w a out" and "phase a = Looping"
  shows "actor_ready w a OnIdle \<and>
    (let (b, new) = actor_step w OnIdle a
     in actor_ready w b OnIdle \<and> new = [signalSnapshot a, signalIdle a])"
proof -
  have "due w (idleTimer a)" "idleTime a = 0"
    using idle_due [OF assms(1)] actor_run_inv [OF assms(1)] assms(2) by (simp_all add: actor_inv_def)
  then show ?thesis
    using assms(2)
    by (simp add: resetIdle_def due_def Let_def signal_defs snapshot_of_def)
qed

theorem idle_branch_always_ready_witness:
  "actor_ready example_wall (example_looping counting) OnIdle"
  using idle_branch_always_ready [OF example_looping_run example_looping_facts(1)] by blast

text \<open>
  The alive branch never takes a snapshot. \<open>offsetAdvanced\<close> is never increased, so however
  many messages were handled and however old the last snapshot is, the branch only reports
  that the actor is alive.
\<close>

theorem alive_never_snapshots:
  assumes "actor_run h cfg w a out" and "actor_ready w a OnAlive"
  shows "snd (actor_step w OnAlive a) = [signalAlive w a]"
proof -
  have "actor_inv (a\<lparr>aliveTimer := None\<rparr>)"
    using actor_run_inv [OF assms(1)] by (simp add: actor_inv_def)
  then show ?thesis by (simp add: alive_quiet signal_defs)
qed

lemma example_later:
  "actor_run h example_config (example_wall\<lparr>unix_nanos := AliveTime\<rparr>) (example_looping h) []"
  "actor_ready (example_wall\<lparr>unix_nanos := AliveTime\<rparr>) (example_looping h) OnAlive"
proof -
  show "actor_run h example_config (example_wall\<lparr>unix_nanos := AliveTime\<rparr>) (example_looping h) []"
    by (rule run_tick [OF example_looping_run]) (simp add: example_wall_def AliveTime_def second_def)
  have "aliveTimer (example_looping h) = Some AliveTime"
    by (simp add: example_looping_def actor_Start_def actor_prepare_def actor_beforeStart_def
        actor_afterStart_def FactoryWarp_def NewActor_def NewStatus_def IsStatus_def example_wall_def Let_def)
  then show "actor_ready (example_wall\<lparr>unix_nanos := AliveTime\<rparr>) (example_looping h) OnAlive"
    by (simp add: example_looping_facts due_def)
qed

theorem alive_never_snapshots_witness:
  "snd (actor_step (example_wall\<lparr>unix_nanos := AliveTime\<rparr>) OnAlive (example_looping counting)) =
     [signalAlive (example_wall\<lparr>unix_nanos := AliveTime\<rparr>) (example_looping counting)]"
  by (rule alive_never_snapshots [OF example_later])

text \<open>
  A panic can leave half an effect behind. When a handler writes the state and then panics,
  the final snapshot stores the new state together with the old offset, so the redelivered
  message meets its own partial effect: the counter of this handler is already 1 in a snapshot
  that says offset 0 and no id was processed.
\<close>

theorem panic_snapshot_keeps_partial_state:
  "let (b, out) = actor_step example_wall OnMailbox ((example_looping boom)\<lparr>mailbox := [inc ''x'' 4]\<rparr>)
   in \<exists>s. PSnapshot s \<in> Payload ` set out \<and>
     snap_State s = 1 \<and> snap_Offset s = 0 \<and> snap_Dedup s = []"
proof -
  let ?a = "(example_looping boom)\<lparr>mailbox := [inc ''x'' 4]\<rparr>"
  let ?c = "fst (mail_level (resetIdle example_wall (?a\<lparr>mailbox := []\<rparr>)))"
  have c: "handler ?c = Some boom" "a_dedup ?c = NewDedup 512" "offset ?c = 0" "a_state ?c = 0"
    by (simp_all add: resetIdle_def example_looping_facts default_int_def)
  have "\<not> dedup_Has (NewDedup 512) ''x''"
    by (simp add: dedup_Has_def NewDedup_def NewSet_def set_Has_def)
  then have "dispatch example_wall (inc ''x'' 4) ?c = (?c\<lparr>a_state := 1\<rparr>, True)"
    using c by (simp add: dispatch_def inc_def handleNetwork_def boom_def Register_def GetHandler_def
        NewHandlers_def NewMap_def run_handler_eq NewContext_def Let_def)
  then have step: "actor_step example_wall OnMailbox ?a =
      (let b = fst (finish (?c\<lparr>a_state := 1\<rparr>))
       in (b, snd (mail_level (resetIdle example_wall (?a\<lparr>mailbox := []\<rparr>))) @
             [signalSnapshot b, signalStopped b]))"
    using finish_signals [of "?c\<lparr>a_state := 1\<rparr>"]
    by (simp add: unwind_handle example_looping_facts Let_def)
  let ?b = "fst (finish (?c\<lparr>a_state := 1\<rparr>))"
  have "snap_State (snapshot_of ?b) = 1" "snap_Offset (snapshot_of ?b) = 0"
    "snap_Dedup (snapshot_of ?b) = []"
    using c by (simp_all add: finish_def snapshot_of_def Let_def dedup_Ids_def NewDedup_def)
  moreover have "Payload (signalSnapshot ?b) = PSnapshot (snapshot_of ?b)"
    by (simp add: signalSnapshot_def signal_def)
  ultimately show ?thesis unfolding step Let_def by (auto intro!: exI [of _ "snapshot_of ?b"])
qed

section \<open>Draining ends\<close>

text \<open>The loop of \<open>drain\<close> and the exit after it, with a bound on the rounds.\<close>

fun drain_rounds :: "wall \<Rightarrow> nat \<Rightarrow> 'v actor \<Rightarrow> 'v actor" where
  "drain_rounds w 0 a = a"
| "drain_rounds w (Suc k) a =
     (if phase a \<noteq> Draining then a
      else drain_rounds w k (fst (actor_step w (if mailbox a = [] then OnDrained else OnMailbox) a)))"

lemma drain_rounds_done: "phase a \<noteq> Draining \<Longrightarrow> drain_rounds w k a = a"
  by (cases k) simp_all

text \<open>
  Once an actor drains and no more is sent to it, its goroutine ends: after one round per waiting
  message and one more it has exited, handlers that panic included. This rests on two limits of the
  model: a handler returns or panics, and the node takes the reports (the send of \<open>signal\<close> can block).
\<close>

theorem draining_ends:
  assumes "phase a = Draining"
  shows "phase (drain_rounds w (Suc (length (mailbox a))) a) = Exited"
  using assms
proof (induction "length (mailbox a)" arbitrary: a)
  case 0
  then show ?case by (simp add: finish_def actor_beforeStop_def Let_def)
next
  case (Suc k)
  let ?b = "a\<lparr>mailbox := tl (mailbox a)\<rparr>"
  let ?m = "fst (mail_level ?b)"
  let ?d = "dispatch w (hd (mailbox a)) ?m"
  let ?c = "fst (actor_step w OnMailbox a)"
  have ne: "mailbox a \<noteq> []" using Suc.hyps(2) by auto
  have c: "?c = (if snd ?d then fst (finish (fst ?d)) else fst ?d)"
    using Suc.prems by (simp add: unwind_handle Let_def)
  have d: "phase (fst ?d) = Draining" "mailbox (fst ?d) = tl (mailbox a)"
    using Suc.prems by simp_all
  have "phase (drain_rounds w (Suc k) ?c) = Exited"
  proof (cases "snd ?d")
    case True
    then have "phase ?c = Exited" using c by (simp add: finish_def Let_def)
    then show ?thesis by (simp add: drain_rounds_done del: drain_rounds.simps)
  next
    case False
    then have "phase ?c = Draining" "k = length (mailbox ?c)" using c d Suc.hyps(2) by simp_all
    then show ?thesis using Suc.hyps(1) [of ?c] by simp
  qed
  then show ?case using Suc.prems Suc.hyps(2) ne by (simp del: actor_step.simps)
qed

theorem draining_ends_witness:
  "phase (drain_rounds example_wall 3 (fst (actor_step example_wall OnStop
     ((example_looping counting)\<lparr>mailbox := [inc ''x'' 4, inc ''y'' 5], stop := True\<rparr>)))) = Exited"
  using draining_ends [of "fst (actor_step example_wall OnStop
     ((example_looping counting)\<lparr>mailbox := [inc ''x'' 4, inc ''y'' 5], stop := True\<rparr>))" example_wall]
  by (simp add: startStopping_def numeral_3_eq_3 del: drain_rounds.simps)

end
