(* ===== verification/Node.thy ===== *)
theory Node
  imports ActorLife Inflight
begin

text \<open>
  core/node.go, core/node_actor.go and core/node_shard.go: the node. One goroutine owns the
  shards, the actors and the windows of offsets; it receives the messages polled from the queue
  and the reports of the actors, and talks to the queue and the store. Those two are interfaces
  of the program (mq.IMQ, storage.IStore): every call is recorded in \<open>calls\<close>, and an
  environment answers it, depending on all calls made before. The environment also picks the
  order in which Go ranges over a map. A step may panic, or block on a channel only it reads.
\<close>

section \<open>State\<close>

definition SnapShotDuration :: int where "SnapShotDuration = 60 * second"
definition NodeChannelCapacity :: nat where "NodeChannelCapacity = 1024"
definition NodeStopTimeout :: int where "NodeStopTimeout = second * 10"

record node_shard =
  shard_actors :: "string goset"
  window :: inflight
  shard_pause :: "int bool_value"

definition NewNodeShard :: node_shard where
  "NewNodeShard = \<lparr>shard_actors = NewSet, window = NewInflight InflightWindowLimit,
     shard_pause = NewBoolValue\<rparr>"

record 'v node_actor =
  na_actor :: "'v actor"
  keepAlive :: int
  na_stopping :: bool
  na_snapshot :: "'v actor_snapshot bool_value"
  na_pause :: "int bool_value"
  na_pending :: "int bool_value"

definition NewNodeActor :: "wall \<Rightarrow> 'v::default actor \<Rightarrow> 'v node_actor" where
  "NewNodeActor w a = \<lparr>na_actor = a, keepAlive = Now w, na_stopping = False,
     na_snapshot = NewBoolValue, na_pause = NewBoolValue, na_pending = NewBoolValue\<rparr>"

text \<open>The calls to the queue and the store.\<close>

datatype 'v call =
    CallSeek int int
  | CallPause int
  | CallResume int
  | CallCommit int int
  | CallDLQ "'v message" string
  | CallClose
  | CallSave "'v actor_snapshot list"

record 'v env =
  fails :: "'v call list \<Rightarrow> 'v call \<Rightarrow> bool"
  saves :: "'v call list \<Rightarrow> 'v actor_snapshot list \<Rightarrow> string list \<times> bool"
  actor_order :: "'v call list \<Rightarrow> string \<Rightarrow> nat"
  shard_order :: "'v call list \<Rightarrow> int \<Rightarrow> nat"

text \<open>
  \<open>n_stop\<close> and \<open>n_end\<close>: whether the channels of capacity one hold a token. \<open>polling\<close>:
  whether the poll goroutine has not been cancelled.
\<close>

record 'v node =
  n_id :: string
  registerShards :: "int goset"
  shards :: "(int, node_shard) gomap"
  actors :: "(string, 'v node_actor) gomap"
  disableActors :: "string goset"
  n_mailbox :: "'v message list"
  n_factory :: "'v factory"
  snapshotTimer :: "int option"
  n_stop :: bool
  n_end :: bool
  endTimer :: "int option"
  n_stopping :: bool
  polling :: bool
  calls :: "'v call list"

definition NewNode :: "'v node" where
  "NewNode = \<lparr>n_id = [], registerShards = NewSet, shards = NewMap, actors = NewMap,
     disableActors = NewSet, n_mailbox = [], n_factory = NewFactory, snapshotTimer = None,
     n_stop = False, n_end = False, endTimer = None, n_stopping = False, polling = False,
     calls = []\<rparr>"

section \<open>Calls to the queue and the store\<close>

definition mq_call :: "'v env \<Rightarrow> 'v call \<Rightarrow> 'v node \<Rightarrow> 'v node \<times> bool" where
  "mq_call e c n = (n\<lparr>calls := calls n @ [c]\<rparr>, fails e (calls n) c)"

definition saveSnapshot ::
  "'v env \<Rightarrow> 'v actor_snapshot list \<Rightarrow> 'v node \<Rightarrow> 'v node \<times> string list \<times> bool" where
  "saveSnapshot e ss n = (n\<lparr>calls := calls n @ [CallSave ss]\<rparr>, saves e (calls n) ss)"

text \<open>Writing through the pointers that the maps hold.\<close>

definition set_actor :: "string \<Rightarrow> 'v node_actor \<Rightarrow> 'v node \<Rightarrow> 'v node" where
  "set_actor i a n = n\<lparr>actors := map_AddOrUpdate i a (actors n)\<rparr>"

definition set_shard :: "int \<Rightarrow> node_shard \<Rightarrow> 'v node \<Rightarrow> 'v node" where
  "set_shard s sh n = n\<lparr>shards := map_AddOrUpdate s sh (shards n)\<rparr>"

section \<open>Snapshots and offsets\<close>

definition completeOffset ::
  "'v env \<Rightarrow> int \<Rightarrow> inflight_complete list \<Rightarrow> 'v node \<Rightarrow> 'v node \<times> bool" where
  "completeOffset e shardId list n =
     (case map_Get (shards n) shardId of
        None \<Rightarrow> (n, False)
      | Some shard \<Rightarrow>
          let (f, nextOffset, advanced) = infl_Complete (window shard) list;
              n = set_shard shardId (shard\<lparr>window := f\<rparr>) n
          in if \<not> advanced then (n, False) else mq_call e (CallCommit shardId nextOffset) n)"

definition resumeOffset :: "'v env \<Rightarrow> int \<Rightarrow> 'v node \<Rightarrow> 'v node \<times> bool" where
  "resumeOffset e shardId n =
     (case map_Get (shards n) shardId of
        None \<Rightarrow> (n, False)
      | Some shard \<Rightarrow>
          let (off, isEnabled) = bv_Get (shard_pause shard)
          in if \<not> isEnabled then (n, False)
             else let (n, err) = mq_call e (CallSeek shardId off) n
             in if err then (n, True)
             else let (n, err) = mq_call e (CallResume shardId) n
             in if err then (n, True)
             else (set_shard shardId (shard\<lparr>shard_pause := Disable (shard_pause shard)\<rparr>) n, False))"

definition completed_by :: "'v actor_snapshot \<Rightarrow> inflight_complete" where
  "completed_by s = \<lparr>ic_ActorId = snap_ActorId s, ic_MaxOffset = snap_Offset s\<rparr>"

definition complete_and_resume ::
  "'v env \<Rightarrow> int \<Rightarrow> inflight_complete list \<Rightarrow> 'v node \<Rightarrow> 'v node" where
  "complete_and_resume e shardId list n =
     (let (n, err) = completeOffset e shardId list n
      in if err then n else fst (resumeOffset e shardId n))"

definition snapshot :: "'v env \<Rightarrow> string \<Rightarrow> 'v node \<Rightarrow> 'v node" where
  "snapshot e actorId n =
     (case map_Get (actors n) actorId of
        None \<Rightarrow> n
      | Some actor \<Rightarrow>
          let (snap, changed) = bv_Get (na_snapshot actor)
          in if \<not> changed then n
             else let (n, success, err) = saveSnapshot e [snap] n
             in if err then n
             else let n = set_actor actorId (actor\<lparr>na_snapshot := Disable (na_snapshot actor)\<rparr>) n
             in complete_and_resume e (ActorShard (a_id (na_actor actor))) [completed_by snap] n)"

text \<open>
  The three loops of \<open>snapshotBatch\<close>: collect the enabled snapshots, group the completed
  offsets of the actors whose snapshot was stored by shard, and complete shard by shard.
\<close>

definition batch_snapshots :: "'v env \<Rightarrow> 'v node \<Rightarrow> 'v actor_snapshot list" where
  "batch_snapshots e n =
     map (\<lambda>(i, a). bvalue (na_snapshot a))
       (filter (\<lambda>(i, a). IsEnabled (na_snapshot a))
          (sort_key (\<lambda>(i, a). actor_order e (calls n) i) (map_entries (actors n))))"

definition batch_group ::
  "string \<Rightarrow> 'v node \<times> (int, inflight_complete list) gomap \<Rightarrow>
   'v node \<times> (int, inflight_complete list) gomap" where
  "batch_group actorId = (\<lambda>(n, completed).
     case map_Get (actors n) actorId of
       None \<Rightarrow> (n, completed)
     | Some actor \<Rightarrow>
         let (snap, isEnabled) = bv_Get (na_snapshot actor)
         in if \<not> isEnabled then (n, completed)
            else let n = set_actor actorId (actor\<lparr>na_snapshot := Disable (na_snapshot actor)\<rparr>) n;
                     shardId = ActorShard (a_id (na_actor actor));
                     completed = map_AddIfNotExist shardId [] completed
            in (n, map_AddOrUpdate shardId (map_GetDefault completed shardId @ [completed_by snap])
                     completed))"

definition snapshotBatch :: "'v env \<Rightarrow> 'v node \<Rightarrow> 'v node" where
  "snapshotBatch e n =
     (let (n, success, err) = saveSnapshot e (batch_snapshots e n) n
      in if err \<or> success = [] then n
         else let (n, completed) = fold batch_group success (n, NewMap)
         in fold (\<lambda>shardId n. complete_and_resume e shardId (map_GetDefault completed shardId) n)
              (map_Keys (shard_order e (calls n)) completed) n)"

section \<open>Starting and stopping actors\<close>

definition stopActor :: "string \<Rightarrow> 'v node \<Rightarrow> 'v node" where
  "stopActor actorId n =
     (case map_Get (actors n) actorId of
        None \<Rightarrow> n
      | Some actor \<Rightarrow>
          set_actor actorId (actor\<lparr>na_stopping := True, na_actor := actor_Stop (na_actor actor)\<rparr>) n)"

text \<open>The flag is the error of the factory or of \<open>Start\<close>.\<close>

definition startActor ::
  "wall \<Rightarrow> message_ref \<Rightarrow> 'v::default node \<Rightarrow> ('v node \<times> bool) outcome" where
  "startActor w ref n =
     (let config = ActorConfigDefault\<lparr>cfg_Id := ref_Id ref, cfg_Type := ref_Type ref, cfg_Node := n_id n\<rparr>
      in case factory_New (n_factory n) config of
           None \<Rightarrow> Inr (n, True)
         | Some actor \<Rightarrow>
             let (actor, err) = actor_Start w actor
             in if err then Inr (n, True)
                else let n = n\<lparr>actors := map_AddOrUpdate (ref_Id ref) (NewNodeActor w actor) (actors n)\<rparr>;
                         shardId = ActorShard (ref_Id ref)
                in case map_Get (shards n) shardId of
                     None \<Rightarrow> Inl Panic
                   | Some shard \<Rightarrow>
                       Inr (set_shard shardId
                              (shard\<lparr>shard_actors := set_Add (ref_Id ref) (shard_actors shard)\<rparr>) n, False))"

definition recycleActor :: "'v env \<Rightarrow> string \<Rightarrow> 'v node \<Rightarrow> 'v node outcome" where
  "recycleActor e actorId n =
     (case map_Get (actors n) actorId of
        None \<Rightarrow> Inr n
      | Some actor \<Rightarrow>
          let shardId = ActorShard actorId
          in case map_Get (shards n) shardId of
               None \<Rightarrow> Inl Panic
             | Some shard \<Rightarrow>
                 and_then (infl_GetMinOffset (window shard) actorId) (\<lambda>(off, ok).
                   if ok then Inr (fst (mq_call e (CallSeek shardId off) n))
                   else let (off, ok) = bv_Get (na_pause actor)
                   in if ok then Inr (fst (mq_call e (CallSeek shardId off) n))
                   else let n = (if IsEnabled (na_snapshot actor) then snapshotBatch e n else n)
                   in Inr (stopActor actorId n)))"

definition startShard :: "int \<Rightarrow> 'v node \<Rightarrow> 'v node" where
  "startShard shardId n =
     (let n = n\<lparr>registerShards := set_Add shardId (registerShards n)\<rparr>
      in if map_Exist shardId (shards n) then n
         else n\<lparr>shards := map_AddOrUpdate shardId NewNodeShard (shards n)\<rparr>)"

definition stopShard :: "'v env \<Rightarrow> int \<Rightarrow> 'v node \<Rightarrow> 'v node" where
  "stopShard e shardId n =
     (case map_Get (shards n) shardId of
        None \<Rightarrow> n
      | Some shard \<Rightarrow> fold stopActor (set_All (actor_order e (calls n)) (shard_actors shard)) n)"

section \<open>Reports of the actors\<close>

definition receiveIdle :: "'v env \<Rightarrow> string \<Rightarrow> 'v node \<Rightarrow> 'v node outcome" where
  "receiveIdle e actorId n = recycleActor e actorId n"

definition receiveSnapshot :: "string \<Rightarrow> 'v actor_snapshot \<Rightarrow> 'v node \<Rightarrow> 'v node" where
  "receiveSnapshot actorId snap n =
     (case map_Get (actors n) actorId of
        None \<Rightarrow> n
      | Some actor \<Rightarrow>
          set_actor actorId (actor\<lparr>na_snapshot := UpdateEnable snap (na_snapshot actor)\<rparr>) n)"

definition receiveAlive :: "string \<Rightarrow> int \<Rightarrow> 'v node \<Rightarrow> 'v node" where
  "receiveAlive actorId time n =
     (case map_Get (actors n) actorId of
        None \<Rightarrow> n
      | Some actor \<Rightarrow> set_actor actorId (actor\<lparr>keepAlive := time\<rparr>) n)"

definition receiveReady :: "'v env \<Rightarrow> string \<Rightarrow> 'v node \<Rightarrow> 'v node" where
  "receiveReady e actorId n =
     (case map_Get (actors n) actorId of
        None \<Rightarrow> n
      | Some actor \<Rightarrow>
          let (off, isEnabled) = bv_Get (na_pause actor)
          in if \<not> isEnabled then n
             else let n = set_actor actorId (actor\<lparr>na_pause := Disable (na_pause actor)\<rparr>) n
             in fst (mq_call e (CallSeek (ActorShard actorId) off) n))"

definition handleEnding :: "'v node \<Rightarrow> 'v node outcome" where
  "handleEnding n =
     (if map_Length (actors n) = 0
      then if n_end n then Inl Blocked else Inr (n\<lparr>n_end := True\<rparr>)
      else Inr n)"

definition drop_actor :: "string \<Rightarrow> 'v node \<Rightarrow> 'v node" where
  "drop_actor actorId n =
     (let n = n\<lparr>disableActors := set_Del actorId (disableActors n),
                actors := map_Del actorId (actors n)\<rparr>;
          shardId = ActorShard actorId
      in case map_Get (shards n) shardId of
           None \<Rightarrow> n
         | Some shard \<Rightarrow>
             let shard = shard\<lparr>shard_actors := set_Del actorId (shard_actors shard)\<rparr>;
                 n = set_shard shardId shard n
             in if set_Len (shard_actors shard) = 0 \<and> \<not> set_Has shardId (registerShards n)
                then n\<lparr>shards := map_Del shardId (shards n)\<rparr> else n)"

definition receiveStopped :: "'v env \<Rightarrow> string \<Rightarrow> 'v node \<Rightarrow> 'v node outcome" where
  "receiveStopped e actorId n =
     (case map_Get (actors n) actorId of
        None \<Rightarrow> Inr n
      | Some actor \<Rightarrow>
          let n = drop_actor actorId (snapshot e actorId n)
          in if n_stopping n then handleEnding n
             else let (off, pend) = bv_Get (na_pending actor)
             in if \<not> pend then Inr n
             else Inr (fst (mq_call e (CallSeek (ActorShard actorId) off) n)))"

section \<open>Dispatching messages of the queue\<close>

definition dead_letter :: "'v env \<Rightarrow> int \<Rightarrow> 'v message \<Rightarrow> 'v node \<Rightarrow> node_shard \<Rightarrow> 'v node" where
  "dead_letter e shardId m n shard =
     (let actorId = ref_Id (Receiver m); off = Offset m;
          n = fst (mq_call e (CallDLQ m ''disable'') n);
          n = set_shard shardId (shard\<lparr>window := infl_Add (window shard) off actorId\<rparr>) n
      in fst (completeOffset e shardId [\<lparr>ic_ActorId = actorId, ic_MaxOffset = off\<rparr>] n))"

text \<open>Handing the message to an actor that is running or was just started.\<close>

definition deliver :: "int \<Rightarrow> 'v message \<Rightarrow> 'v node \<Rightarrow> 'v node outcome" where
  "deliver shardId m n =
     (let actorId = ref_Id (Receiver m); off = Offset m
      in case (map_Get (shards n) shardId, map_Get (actors n) actorId) of
           (Some shard, Some actor) \<Rightarrow>
             let n = set_shard shardId (shard\<lparr>window := infl_Add (window shard) off actorId\<rparr>) n
             in if na_stopping actor
                then Inr (set_actor actorId (actor\<lparr>na_pending := Enable off (na_pending actor)\<rparr>) n)
                else if IsEnabled (na_pause actor) then Inr n
                else (case try_send m (na_actor actor) of
                        Some a \<Rightarrow> Inr (set_actor actorId (actor\<lparr>na_actor := a\<rparr>) n)
                      | None \<Rightarrow> Inr (set_actor actorId (actor\<lparr>na_pause := Enable off (na_pause actor)\<rparr>) n))
         | _ \<Rightarrow> Inl Panic)"

definition Dispatcher :: "wall \<Rightarrow> 'v env \<Rightarrow> 'v::default message \<Rightarrow> 'v node \<Rightarrow> 'v node outcome" where
  "Dispatcher w e m n =
     (let actorId = ref_Id (Receiver m); off = Offset m; shardId = ActorShard actorId
      in if \<not> set_Has shardId (registerShards n) then Inr n
         else case map_Get (shards n) shardId of
           None \<Rightarrow> Inr n
         | Some shard \<Rightarrow>
             if IsEnabled (shard_pause shard) then Inr n
             else if infl_Full (window shard) off then
               let n = set_shard shardId (shard\<lparr>shard_pause := Enable off (shard_pause shard)\<rparr>) n
               in Inr (fst (mq_call e (CallPause shardId) n))
             else if set_Has actorId (disableActors n) then Inr (dead_letter e shardId m n shard)
             else case map_Get (actors n) actorId of
               Some actor \<Rightarrow> deliver shardId m n
             | None \<Rightarrow> and_then (startActor w (Receiver m) n)
                 (\<lambda>(n, err). if err then Inr n else deliver shardId m n))"

text \<open>A failed type assertion on the payload panics.\<close>

definition node_handle :: "wall \<Rightarrow> 'v env \<Rightarrow> 'v::default message \<Rightarrow> 'v node \<Rightarrow> 'v node outcome" where
  "node_handle w e m n =
     (if Type m = MessageTypeMemory then
        let actorId = ref_Id (Sender m); payload = Payload m
        in if Command m = CmdActorIdle then
             (case payload of PIdle \<Rightarrow> receiveIdle e actorId n | _ \<Rightarrow> Inl Panic)
           else if Command m = CmdActorSnapshot then
             (case payload of PSnapshot s \<Rightarrow> Inr (receiveSnapshot actorId s n) | _ \<Rightarrow> Inl Panic)
           else if Command m = CmdActorAlive then
             (case payload of PAlive t \<Rightarrow> Inr (receiveAlive actorId t n) | _ \<Rightarrow> Inl Panic)
           else if Command m = CmdActorReady then
             (case payload of PReady \<Rightarrow> Inr (receiveReady e actorId n) | _ \<Rightarrow> Inl Panic)
           else if Command m = CmdActorStopped then
             (case payload of PStopped \<Rightarrow> receiveStopped e actorId n | _ \<Rightarrow> Inl Panic)
           else Inr n
      else if Type m = MessageTypeNetwork then Dispatcher w e m n
      else Inr n)"

section \<open>The node's goroutine\<close>

definition startPoll :: "'v node \<Rightarrow> 'v node" where
  "startPoll n = n\<lparr>polling := True\<rparr>"

definition stopPoll :: "'v node \<Rightarrow> 'v node" where
  "stopPoll n = (if polling n then n\<lparr>polling := False\<rparr> else n)"

definition node_beforeStart :: "wall \<Rightarrow> 'v node \<Rightarrow> 'v node" where
  "node_beforeStart w n = startPoll (n\<lparr>snapshotTimer := Some (unix_nanos w + SnapShotDuration)\<rparr>)"

definition node_beforeStop :: "wall \<Rightarrow> 'v env \<Rightarrow> 'v node \<Rightarrow> 'v node outcome" where
  "node_beforeStop w e n =
     (if n_stopping n then Inr n
      else let n = stopPoll (n\<lparr>n_stopping := True\<rparr>);
               n = fst (mq_call e CallClose n);
               n = n\<lparr>registerShards := set_Clear (registerShards n)\<rparr>;
               n = fold (stopShard e) (map_Keys (shard_order e (calls n)) (shards n)) n
           in and_then (handleEnding n) (\<lambda>n.
                Inr (n\<lparr>endTimer := Some (unix_nanos w + NodeStopTimeout)\<rparr>)))"

definition node_afterStop :: "'v env \<Rightarrow> 'v node \<Rightarrow> 'v node" where
  "node_afterStop e n = snapshotBatch e (n\<lparr>endTimer := None\<rparr>)"

definition node_finish :: "'v node \<Rightarrow> 'v node" where
  "node_finish n = n\<lparr>snapshotTimer := None\<rparr>"

text \<open>\<open>r\<close> is the random number of seconds below sixty.\<close>

definition restartTimer :: "wall \<Rightarrow> int \<Rightarrow> 'v node \<Rightarrow> 'v node" where
  "restartTimer w r n = n\<lparr>snapshotTimer := Some (unix_nanos w + (SnapShotDuration + r * second))\<rparr>"

datatype node_event = NodeMailbox | NodeSnapshotTimer int | NodeStop | NodeEnd

fun node_ready :: "wall \<Rightarrow> 'v node \<Rightarrow> node_event \<Rightarrow> bool" where
  "node_ready w n NodeMailbox \<longleftrightarrow> n_mailbox n \<noteq> []"
| "node_ready w n (NodeSnapshotTimer r) \<longleftrightarrow> due w (snapshotTimer n) \<and> 0 \<le> r \<and> r < 60"
| "node_ready w n NodeStop \<longleftrightarrow> n_stop n"
| "node_ready w n NodeEnd \<longleftrightarrow> n_end n"

text \<open>One round of the select loop; the flag tells whether the goroutine returned.\<close>

fun node_step :: "wall \<Rightarrow> 'v env \<Rightarrow> node_event \<Rightarrow> 'v::default node \<Rightarrow> ('v node \<times> bool) outcome" where
  "node_step w e NodeMailbox n =
     and_then (node_handle w e (hd (n_mailbox n)) (n\<lparr>n_mailbox := tl (n_mailbox n)\<rparr>)) (\<lambda>n. Inr (n, False))"
| "node_step w e (NodeSnapshotTimer r) n =
     Inr (restartTimer w r (snapshotBatch e (n\<lparr>snapshotTimer := None\<rparr>)), False)"
| "node_step w e NodeStop n =
     and_then (node_beforeStop w e (n\<lparr>n_stop := False\<rparr>)) (\<lambda>n. Inr (n, False))"
| "node_step w e NodeEnd n = Inr (node_finish (node_afterStop e (n\<lparr>n_end := False\<rparr>)), True)"

end
