(* ===== verification/NodeInv.thy ===== *)
theory NodeInv
  imports Node
begin

text \<open>
  The invariant of the node and the progress relation of its steps. \<open>node_inv L n\<close>: actors,
  shards and windows agree, where \<open>L s off\<close> is the receiver of the message at an offset of a
  shard (a queue never changes what it holds at an offset). \<open>progress e n n'\<close>: between two
  states calls are only appended, an offset leaves a window only after a stored snapshot of its
  actor covers it, and every commit lies at or below all offsets still in flight.
\<close>

section \<open>The invariant\<close>

definition actors_ok :: "'v node \<Rightarrow> bool" where
  "actors_ok n \<longleftrightarrow> map_wf (actors n) \<and> (\<forall>i a. map_Get (actors n) i = Some a \<longrightarrow>
     a_id (na_actor a) = i \<and>
     (IsEnabled (na_snapshot a) \<longrightarrow> snap_ActorId (bvalue (na_snapshot a)) = i) \<and>
     (\<exists>sh. map_Get (shards n) (ActorShard i) = Some sh \<and> i \<in> set (shard_actors sh)))"

definition window_ok :: "(int \<Rightarrow> int \<Rightarrow> string) \<Rightarrow> int \<Rightarrow> inflight \<Rightarrow> bool" where
  "window_ok L s f \<longleftrightarrow> infl_inv f \<and>
     (\<forall>off i. map_Get (offsetActor f) off = Some i \<longrightarrow> i = L s off \<and> ActorShard i = s)"

definition shards_ok :: "(int \<Rightarrow> int \<Rightarrow> string) \<Rightarrow> 'v node \<Rightarrow> bool" where
  "shards_ok L n \<longleftrightarrow> map_wf (shards n) \<and>
     (\<forall>s sh. map_Get (shards n) s = Some sh \<longrightarrow> window_ok L s (window sh)) \<and>
     (\<forall>s \<in> set (registerShards n). map_Get (shards n) s \<noteq> None)"

definition factory_ok :: "'v factory \<Rightarrow> bool" where
  "factory_ok r \<longleftrightarrow> (\<forall>t f c. map_of r t = Some f \<longrightarrow> a_id (f c) = cfg_Id c)"

text \<open>No operation ever adds to \<open>disableActors\<close>: the set stays empty.\<close>

definition node_inv :: "(int \<Rightarrow> int \<Rightarrow> string) \<Rightarrow> 'v node \<Rightarrow> bool" where
  "node_inv L n \<longleftrightarrow> actors_ok n \<and> shards_ok L n \<and> factory_ok (n_factory n) \<and>
     set (disableActors n) = {}"

lemma node_inv_New [keeps]: "node_inv L NewNode"
  by (simp add: node_inv_def actors_ok_def shards_ok_def factory_ok_def NewNode_def NewFactory_def)

lemma window_ok_New [keeps]: "window_ok L s (NewInflight l)"
  by (simp add: window_ok_def infl_New) (simp add: NewInflight_def)

lemma factory_ok_Warp: "factory_ok (map (\<lambda>(t, h). (t, FactoryWarp h)) hs)"
  by (auto simp: factory_ok_def FactoryWarp_def NewActor_def actorConfigEnsure_def Let_def
      dest!: map_of_SomeD)

lemma node_inv_calls [simp]:
  "node_inv L (n\<lparr>calls := c\<rparr>) = node_inv L n" "node_inv L (n\<lparr>n_stopping := b\<rparr>) = node_inv L n"
  "node_inv L (n\<lparr>polling := b\<rparr>) = node_inv L n" "node_inv L (n\<lparr>n_end := b\<rparr>) = node_inv L n"
  "node_inv L (n\<lparr>endTimer := t\<rparr>) = node_inv L n" "node_inv L (n\<lparr>snapshotTimer := t\<rparr>) = node_inv L n"
  "node_inv L (n\<lparr>n_mailbox := ms\<rparr>) = node_inv L n" "node_inv L (n\<lparr>n_stop := b\<rparr>) = node_inv L n"
  by (simp_all add: node_inv_def actors_ok_def shards_ok_def)

lemma inv_actor:
  assumes "node_inv L n" and "map_Get (actors n) i = Some a"
  shows "a_id (na_actor a) = i"
    and "IsEnabled (na_snapshot a) \<Longrightarrow> snap_ActorId (bvalue (na_snapshot a)) = i"
    and "\<exists>sh. map_Get (shards n) (ActorShard i) = Some sh \<and> i \<in> set (shard_actors sh)"
  using assms by (simp_all add: node_inv_def actors_ok_def)

lemma inv_window:
  assumes "node_inv L n" and "map_Get (shards n) s = Some sh"
  shows "window_ok L s (window sh)"
  using assms by (simp add: node_inv_def shards_ok_def)

lemma set_actor_fields [simp]:
  "shards (set_actor i a n) = shards n" "calls (set_actor i a n) = calls n"
  "n_stopping (set_actor i a n) = n_stopping n" "n_end (set_actor i a n) = n_end n"
  "registerShards (set_actor i a n) = registerShards n" "n_factory (set_actor i a n) = n_factory n"
  "n_mailbox (set_actor i a n) = n_mailbox n" "n_id (set_actor i a n) = n_id n"
  "map_Get (actors (set_actor i a n)) j = (if j = i then Some a else map_Get (actors n) j)"
  "disableActors (set_actor i a n) = disableActors n"
  by (simp_all add: set_actor_def)

lemma set_shard_fields [simp]:
  "actors (set_shard s sh n) = actors n" "calls (set_shard s sh n) = calls n"
  "n_stopping (set_shard s sh n) = n_stopping n" "n_end (set_shard s sh n) = n_end n"
  "registerShards (set_shard s sh n) = registerShards n" "n_factory (set_shard s sh n) = n_factory n"
  "n_mailbox (set_shard s sh n) = n_mailbox n" "n_id (set_shard s sh n) = n_id n"
  "map_Get (shards (set_shard s sh n)) t = (if t = s then Some sh else map_Get (shards n) t)"
  "disableActors (set_shard s sh n) = disableActors n"
  by (simp_all add: set_shard_def)

lemma mq_call_fields [simp]:
  "fst (mq_call e c n) = n\<lparr>calls := calls n @ [c]\<rparr>"
  by (simp add: mq_call_def)

lemma inv_set_actor [keeps]:
  assumes "node_inv L n" and "map_Get (actors n) i = Some a" and "a_id (na_actor b) = i"
    and "IsEnabled (na_snapshot b) \<Longrightarrow> snap_ActorId (bvalue (na_snapshot b)) = i"
  shows "node_inv L (set_actor i b n)"
  using assms by (simp add: node_inv_def actors_ok_def shards_ok_def) (simp add: set_actor_def)

lemma inv_set_shard [keeps]:
  assumes "node_inv L n" and "map_Get (shards n) s = Some sh"
    and "set (shard_actors sh) \<subseteq> set (shard_actors sh')" and "window_ok L s (window sh')"
  shows "node_inv L (set_shard s sh' n)"
proof -
  have "actors_ok (set_shard s sh' n)"
    using assms(1-3) unfolding node_inv_def actors_ok_def by fastforce
  moreover have "shards_ok L (set_shard s sh' n)"
    using assms(1,4) by (simp add: node_inv_def shards_ok_def) (simp add: set_shard_def)
  ultimately show ?thesis using assms(1) by (simp add: node_inv_def)
qed

lemma window_ok_Complete [keeps]: "window_ok L s f \<Longrightarrow> window_ok L s (fst (infl_Complete f list))"
  unfolding window_ok_def
  using infl_inv_Complete [of f list] infl_Complete_shrinks(2) [of f _ list]
  by (metis (mono_tags, lifting) in_flight_def mem_Collect_eq option.distinct(1))

lemma window_ok_Add [keeps]:
  assumes "window_ok L s f" and "0 \<le> off" and "L s off = i" and "ActorShard i = s"
  shows "window_ok L s (infl_Add f off i)"
proof -
  have "map_Get (offsetActor f) off \<in> {None, Some i}"
    using assms(1,3) by (cases "map_Get (offsetActor f) off") (auto simp: window_ok_def)
  then show ?thesis
    using assms infl_inv_Add [of f off i] by (auto simp: window_ok_def infl_Add_fields)
qed

section \<open>Progress of a step\<close>

text \<open>
  \<open>stored e log i off\<close>: some call to \<open>Save\<close> in the log returned no error and contained a
  snapshot of \<open>i\<close> at or above \<open>off\<close> that the store reported as saved (a call for a single
  snapshot reports by its error alone).
\<close>

definition stored :: "'v env \<Rightarrow> 'v call list \<Rightarrow> string \<Rightarrow> int \<Rightarrow> bool" where
  "stored e log i off \<longleftrightarrow> (\<exists>pre ss post. log = pre @ CallSave ss # post \<and> \<not> snd (saves e pre ss) \<and>
     (\<exists>s \<in> set ss. snap_ActorId s = i \<and> off \<le> snap_Offset s \<and> (i \<in> set (fst (saves e pre ss)) \<or> ss = [s])))"

lemma stored_append: "stored e log i off \<Longrightarrow> stored e (log @ suffix) i off"
  unfolding stored_def by (metis append.assoc append_Cons)

definition dom_same :: "'v node \<Rightarrow> 'v node \<Rightarrow> bool" where
  "dom_same n n' \<longleftrightarrow> (\<forall>s. map_Get (shards n) s = None \<longleftrightarrow> map_Get (shards n') s = None)"

text \<open>The windows only shrink, and only by offsets whose actor has a stored snapshot.\<close>

definition shrinks :: "'v env \<Rightarrow> 'v node \<Rightarrow> 'v node \<Rightarrow> bool" where
  "shrinks e n n' \<longleftrightarrow> (\<forall>s sh sh'. map_Get (shards n) s = Some sh \<longrightarrow> map_Get (shards n') s = Some sh' \<longrightarrow>
     in_flight (window sh') \<subseteq> in_flight (window sh) \<and>
     (\<forall>off i. map_Get (offsetActor (window sh)) off = Some i \<longrightarrow>
        map_Get (offsetActor (window sh')) off = Some i \<or>
        map_Get (offsetActor (window sh')) off = None \<and> stored e (calls n') i off))"

definition commits_safe :: "'v call list \<Rightarrow> 'v node \<Rightarrow> bool" where
  "commits_safe new n' \<longleftrightarrow> (\<forall>s c sh. CallCommit s c \<in> set new \<longrightarrow> map_Get (shards n') s = Some sh \<longrightarrow>
     (\<forall>off \<in> in_flight (window sh). c \<le> off))"

text \<open>What no operation below \<open>Dispatcher\<close> and \<open>receiveStopped\<close> changes.\<close>

definition kept :: "'v node \<Rightarrow> 'v node \<Rightarrow> bool" where
  "kept n n' \<longleftrightarrow> n_end n' = n_end n \<and> n_stopping n' = n_stopping n \<and>
     registerShards n' = registerShards n \<and> n_mailbox n' = n_mailbox n \<and>
     (\<forall>i. map_Get (actors n') i = None \<longleftrightarrow> map_Get (actors n) i = None)"

lemma kept_refl [simp]: "kept n n"
  by (simp add: kept_def)

lemma kept_trans: "kept n n' \<Longrightarrow> kept n' n'' \<Longrightarrow> kept n n''"
  by (simp add: kept_def)

lemma kept_calls [simp]: "kept n (n'\<lparr>calls := c\<rparr>) = kept n n'"
  by (simp add: kept_def)

lemma kept_set_shard [simp]: "kept n (set_shard s sh n') = kept n n'"
  by (simp add: kept_def)

lemma kept_set_actor: "map_Get (actors n) i \<noteq> None \<Longrightarrow> kept n (set_actor i a n)"
  by (simp add: kept_def)

definition progress :: "'v env \<Rightarrow> 'v node \<Rightarrow> 'v node \<Rightarrow> bool" where
  "progress e n n' \<longleftrightarrow> kept n n' \<and> dom_same n n' \<and> shrinks e n n' \<and>
     (\<exists>new. calls n' = calls n @ new \<and> commits_safe new n')"

lemma progress_same:
  "shards n' = shards n \<Longrightarrow> calls n' = calls n \<Longrightarrow> kept n n' \<Longrightarrow> progress e n n'"
  by (simp add: progress_def dom_same_def shrinks_def commits_safe_def)

lemma progress_refl [simp]: "progress e n n"
  by (rule progress_same) simp_all

lemma commits_safe_shrinks:
  assumes "commits_safe new n'" and "dom_same n' n''" and "shrinks e n' n''"
  shows "commits_safe new n''"
  unfolding commits_safe_def
proof (intro allI impI ballI)
  fix s c sh off
  assume c: "CallCommit s c \<in> set new" and sh: "map_Get (shards n'') s = Some sh"
    and off: "off \<in> in_flight (window sh)"
  obtain sh' where sh': "map_Get (shards n') s = Some sh'"
    using assms(2) sh unfolding dom_same_def by (metis not_None_eq)
  then have "off \<in> in_flight (window sh')" using assms(3) sh off unfolding shrinks_def by blast
  then show "c \<le> off" using assms(1) c sh' unfolding commits_safe_def by blast
qed

lemma shrinks_trans:
  assumes "shrinks e n n'" and "shrinks e n' n''" and "dom_same n n'" and "calls n'' = calls n' @ new"
  shows "shrinks e n n''"
  unfolding shrinks_def
proof (intro allI impI)
  fix s sh sh''
  assume sh: "map_Get (shards n) s = Some sh" "map_Get (shards n'') s = Some sh''"
  obtain sh' where sh': "map_Get (shards n') s = Some sh'"
    using assms(3) sh(1) unfolding dom_same_def by (metis not_None_eq)
  note one = assms(1) [unfolded shrinks_def, rule_format, OF sh(1) sh']
    and two = assms(2) [unfolded shrinks_def, rule_format, OF sh' sh(2)]
  have "map_Get (offsetActor (window sh'')) off = Some i \<or>
      map_Get (offsetActor (window sh'')) off = None \<and> stored e (calls n'') i off"
    if i: "map_Get (offsetActor (window sh)) off = Some i" for off i
  proof (cases "map_Get (offsetActor (window sh')) off = Some i")
    case True
    then show ?thesis using two by blast
  next
    case False
    then have "map_Get (offsetActor (window sh')) off = None" "stored e (calls n') i off"
      using one i by blast+
    then have "off \<notin> in_flight (window sh'')" "stored e (calls n'') i off"
      using two assms(4) stored_append [of e "calls n'" i off new] by (auto simp: in_flight_def)
    then show ?thesis by (simp add: in_flight_def)
  qed
  then show "in_flight (window sh'') \<subseteq> in_flight (window sh) \<and>
     (\<forall>off i. map_Get (offsetActor (window sh)) off = Some i \<longrightarrow>
        map_Get (offsetActor (window sh'')) off = Some i \<or>
        map_Get (offsetActor (window sh'')) off = None \<and> stored e (calls n'') i off)"
    using one two by blast
qed

lemma progress_trans:
  assumes "progress e n n'" and "progress e n' n''"
  shows "progress e n n''"
proof -
  obtain new new2 where new: "calls n' = calls n @ new" "commits_safe new n'"
    and more: "calls n'' = calls n' @ new2" "commits_safe new2 n''"
    using assms unfolding progress_def by blast
  have "commits_safe new n''"
    using commits_safe_shrinks [OF new(2)] assms(2) unfolding progress_def by blast
  then have "calls n'' = calls n @ (new @ new2) \<and> commits_safe (new @ new2) n''"
    using new(1) more by (auto simp: commits_safe_def)
  moreover have "dom_same n n''" using assms unfolding progress_def dom_same_def by blast
  moreover have "kept n n''" using assms kept_trans unfolding progress_def by blast
  moreover have "shrinks e n n''"
    using shrinks_trans [of e n n' n'' new2] assms more(1) unfolding progress_def by blast
  ultimately show ?thesis unfolding progress_def by blast
qed

lemma progress_call:
  assumes "\<forall>s off. CallCommit s off \<noteq> c"
  shows "progress e n (n\<lparr>calls := calls n @ [c]\<rparr>)"
  using assms by (simp add: progress_def dom_same_def shrinks_def commits_safe_def)

lemma progress_set_actor: "map_Get (actors n) i \<noteq> None \<Longrightarrow> progress e n (set_actor i a n)"
  by (rule progress_same) (simp_all add: kept_set_actor)

lemma progress_set_shard:
  assumes "map_Get (shards n) s = Some sh" and "window sh' = window sh"
  shows "progress e n (set_shard s sh' n)"
  using assms by (auto simp: progress_def dom_same_def shrinks_def commits_safe_def)

section \<open>Snapshots and offsets\<close>

text \<open>What both hold of an operation: it keeps the invariant and makes progress.\<close>

definition sound :: "(int \<Rightarrow> int \<Rightarrow> string) \<Rightarrow> 'v env \<Rightarrow> 'v node \<Rightarrow> 'v node \<Rightarrow> bool" where
  "sound L e n n' \<longleftrightarrow> (node_inv L n \<longrightarrow> node_inv L n' \<and> progress e n n')"

lemma sound_refl [simp]: "sound L e n n"
  by (simp add: sound_def)

lemma sound_trans: "sound L e n n' \<Longrightarrow> sound L e n' n'' \<Longrightarrow> sound L e n n''"
  unfolding sound_def using progress_trans by blast

lemma sound_call: "\<forall>s off. CallCommit s off \<noteq> c \<Longrightarrow> sound L e n (n\<lparr>calls := calls n @ [c]\<rparr>)"
  by (simp add: sound_def progress_call)

lemma sound_set_actor:
  assumes "node_inv L n \<Longrightarrow> map_Get (actors n) i = Some a \<and> a_id (na_actor b) = i \<and>
    (IsEnabled (na_snapshot b) \<longrightarrow> snap_ActorId (bvalue (na_snapshot b)) = i)"
  shows "sound L e n (set_actor i b n)"
  using assms by (auto simp: sound_def intro!: inv_set_actor progress_set_actor)

lemma sound_set_shard:
  assumes "map_Get (shards n) s = Some sh" and "window sh' = window sh"
    and "set (shard_actors sh) \<subseteq> set (shard_actors sh')"
  shows "sound L e n (set_shard s sh' n)"
  using assms inv_window [of L n s sh]
  by (auto simp: sound_def intro: inv_set_shard progress_set_shard)

text \<open>
  Completing offsets that are covered by stored snapshots. The commit it may send is
  \<open>complete_step_safe\<close>'s next offset.
\<close>

lemma sound_completeOffset:
  assumes "\<forall>it \<in> set list. \<forall>off. off \<le> ic_MaxOffset it \<longrightarrow> stored e (calls n) (ic_ActorId it) off"
  shows "sound L e n (fst (completeOffset e s list n))"
proof (cases "map_Get (shards n) s")
  case None
  then show ?thesis by (simp add: completeOffset_def)
next
  case (Some sh)
  let ?r = "infl_Complete (window sh) list"
  let ?f = "fst ?r" and ?next = "fst (snd ?r)" and ?adv = "snd (snd ?r)"
  let ?n = "set_shard s (sh\<lparr>window := ?f\<rparr>) n"
  have eq: "fst (completeOffset e s list n) =
      (if ?adv then ?n\<lparr>calls := calls n @ [CallCommit s ?next]\<rparr> else ?n)"
    using Some by (simp add: completeOffset_def Let_def split: prod.split)
  show ?thesis
    unfolding sound_def
  proof (intro impI conjI)
    assume inv: "node_inv L n"
    have w: "window_ok L s (window sh)" using inv Some by (rule inv_window)
    then have infl: "infl_inv (window sh)" by (simp add: window_ok_def)
    have "node_inv L ?n" using window_ok_Complete [OF w] by (intro inv_set_shard [OF inv Some]) simp_all
    then show "node_inv L (fst (completeOffset e s list n))" unfolding eq by simp
    have gone: "map_Get (offsetActor ?f) off = Some i \<or>
        map_Get (offsetActor ?f) off = None \<and> stored e (calls n) i off"
      if i: "map_Get (offsetActor (window sh)) off = Some i" for off i
    proof (cases "off \<in> in_flight ?f")
      case True
      then show ?thesis using infl_Complete_shrinks(2) [OF infl] i by simp
    next
      case False
      have "off \<in> in_flight (window sh)" using i by (simp add: in_flight_def)
      then obtain it where "it \<in> set list" "i = ic_ActorId it" "off \<le> ic_MaxOffset it"
        using infl_Complete_covered [OF infl _ False] i by auto
      then show ?thesis using assms False by (simp add: in_flight_def)
    qed
    have shr: "shrinks e n (m::'a node)"
      if "\<And>t. map_Get (shards m) t = map_Get (shards ?n) t" "\<exists>new. calls m = calls n @ new" for m
      unfolding shrinks_def
    proof (intro allI impI)
      note logged = that(2)
      fix t sh1 sh2
      assume t: "map_Get (shards n) t = Some sh1" "map_Get (shards m) t = Some sh2"
      show "in_flight (window sh2) \<subseteq> in_flight (window sh1) \<and>
        (\<forall>off i. map_Get (offsetActor (window sh1)) off = Some i \<longrightarrow>
          map_Get (offsetActor (window sh2)) off = Some i \<or>
          map_Get (offsetActor (window sh2)) off = None \<and> stored e (calls m) i off)"
      proof (cases "t = s")
        case True
        then have "sh1 = sh" "window sh2 = ?f" using t Some that(1) [of t] by auto
        moreover obtain new where "calls m = calls n @ new" using logged by blast
        ultimately show ?thesis
          using gone infl_Complete_shrinks(1) [OF infl, of list] stored_append by metis
      next
        case False
        then have "sh2 = sh1" using t that(1) [of t] by simp
        then show ?thesis by simp
      qed
    qed
    have "commits_safe [CallCommit s ?next] (?n\<lparr>calls := c\<rparr>)" if "?adv" for c
      using infl_Complete_safe(1) [OF infl, of list ?f ?next] that
      by (cases ?r) (simp add: commits_safe_def)
    moreover have "dom_same n (m::'a node)" if "\<And>t. map_Get (shards m) t = map_Get (shards ?n) t" for m
      using that Some by (simp add: dom_same_def)
    ultimately show "progress e n (fst (completeOffset e s list n))"
      unfolding eq progress_def using shr by (auto simp: commits_safe_def)
  qed
qed

lemma sound_resumeOffset: "sound L e n (fst (resumeOffset e s n))"
proof (cases "map_Get (shards n) s")
  case None
  then show ?thesis by (simp add: resumeOffset_def)
next
  case (Some sh)
  let ?off = "fst (bv_Get (shard_pause sh))"
  let ?n1 = "n\<lparr>calls := calls n @ [CallSeek s ?off]\<rparr>"
  let ?n2 = "?n1\<lparr>calls := calls ?n1 @ [CallResume s]\<rparr>"
  let ?n3 = "set_shard s (sh\<lparr>shard_pause := Disable (shard_pause sh)\<rparr>) ?n2"
  have s1: "sound L e n ?n1" by (rule sound_call) simp
  have s2: "sound L e n ?n2" by (rule sound_trans [OF s1], rule sound_call) simp
  have s3: "sound L e n ?n3"
    by (rule sound_trans [OF s2], rule sound_set_shard [where sh = sh]) (simp_all add: Some)
  have "fst (resumeOffset e s n) \<in> {n, ?n1, ?n2, ?n3}"
    using Some by (simp add: resumeOffset_def mq_call_def Let_def split: prod.split)
  then show ?thesis using s1 s2 s3 by auto
qed

lemma complete_and_resume_eq:
  "complete_and_resume e s list n \<in>
     {fst (completeOffset e s list n), fst (resumeOffset e s (fst (completeOffset e s list n)))}"
  by (simp add: complete_and_resume_def Let_def split: prod.split)

lemma sound_complete_and_resume:
  assumes "\<forall>it \<in> set list. \<forall>off. off \<le> ic_MaxOffset it \<longrightarrow> stored e (calls n) (ic_ActorId it) off"
  shows "sound L e n (complete_and_resume e s list n)"
  using complete_and_resume_eq [of e s list n] sound_completeOffset [OF assms, of L s]
    sound_trans [OF sound_completeOffset [OF assms, of L s] sound_resumeOffset] by auto

lemma saveSnapshot_fields [simp]:
  "fst (saveSnapshot e ss n) = n\<lparr>calls := calls n @ [CallSave ss]\<rparr>"
  "snd (saveSnapshot e ss n) = saves e (calls n) ss"
  by (simp_all add: saveSnapshot_def)

lemma stored_save:
  assumes "\<not> snd (saves e log ss)" and "s \<in> set ss"
    and "snap_ActorId s \<in> set (fst (saves e log ss)) \<or> ss = [s]"
  shows "off \<le> snap_Offset s \<Longrightarrow> stored e (log @ [CallSave ss]) (snap_ActorId s) off"
  unfolding stored_def using assms by (intro exI [of _ log] exI [of _ ss] exI [of _ "[]"]) auto

lemma sound_snapshot: "sound L e n (snapshot e i n)"
proof (cases "map_Get (actors n) i")
  case None
  then show ?thesis by (simp add: snapshot_def)
next
  case (Some a)
  let ?s = "bvalue (na_snapshot a)"
  let ?n1 = "n\<lparr>calls := calls n @ [CallSave [?s]]\<rparr>"
  let ?n2 = "set_actor i (a\<lparr>na_snapshot := Disable (na_snapshot a)\<rparr>) ?n1"
  let ?n3 = "complete_and_resume e (ActorShard (a_id (na_actor a))) [completed_by ?s] ?n2"
  have s1: "sound L e n ?n1" by (rule sound_call) simp
  have s2: "sound L e n ?n2"
    by (rule sound_trans [OF s1], rule sound_set_actor [where a = a])
      (use Some in \<open>auto dest: inv_actor simp: bool_value_defs\<close>)
  have s3: "sound L e n ?n3" if "\<not> snd (saves e (calls n) [?s])"
    by (rule sound_trans [OF s2], rule sound_complete_and_resume)
      (use stored_save [of e "calls n" "[?s]" ?s] that in \<open>simp add: completed_by_def\<close>)
  have "snapshot e i n = (if \<not> enabled (na_snapshot a) then n
      else if snd (saves e (calls n) [?s]) then ?n1 else ?n3)"
    using Some by (simp add: snapshot_def bv_Get_def saveSnapshot_def Let_def split: prod.split)
  then show ?thesis using s1 s3 by auto
qed

section \<open>The batch\<close>

text \<open>
  While the success list is grouped, every completed item stems from a snapshot of the
  request; \<open>requested\<close> is the part of the actors' snapshots the grouping can still meet.
\<close>

definition grouped_ok ::
  "'v env \<Rightarrow> 'v call list \<Rightarrow> (int, inflight_complete list) gomap \<Rightarrow> bool" where
  "grouped_ok e log g \<longleftrightarrow> (\<forall>s list it off. map_Get g s = Some list \<longrightarrow> it \<in> set list \<longrightarrow>
     off \<le> ic_MaxOffset it \<longrightarrow> stored e log (ic_ActorId it) off)"

definition requested :: "'v node \<Rightarrow> 'v actor_snapshot list \<Rightarrow> bool" where
  "requested n ss \<longleftrightarrow> (\<forall>i a. map_Get (actors n) i = Some a \<longrightarrow> IsEnabled (na_snapshot a) \<longrightarrow>
     bvalue (na_snapshot a) \<in> set ss)"

lemma map_entries_Get: "map_wf m \<Longrightarrow> (k, v) \<in> set (map_entries m) \<longleftrightarrow> map_Get m k = Some v"
  by (cases m) (simp_all add: map_wf_def)

lemma batch_requested:
  assumes "node_inv L n"
  shows "requested n (batch_snapshots e n)"
  using assms map_entries_Get [of "actors n"]
  unfolding requested_def batch_snapshots_def node_inv_def actors_ok_def
  by (force simp: image_iff)

lemma batch_group_step:
  assumes "node_inv L n" and "requested n ss" and "i \<in> set (fst (saves e log ss))"
    and "\<not> snd (saves e log ss)" and "calls n = log @ [CallSave ss]" and "grouped_ok e (calls n) g"
  defines "r \<equiv> batch_group i (n, g)"
  shows "node_inv L (fst r) \<and> requested (fst r) ss \<and> calls (fst r) = calls n \<and>
    shards (fst r) = shards n \<and> kept n (fst r) \<and> grouped_ok e (calls n) (snd r)"
proof (cases "map_Get (actors n) i")
  case None
  then show ?thesis using assms by (simp add: batch_group_def)
next
  case (Some a)
  show ?thesis
  proof (cases "enabled (na_snapshot a)")
    case False
    then show ?thesis using assms Some by (simp add: batch_group_def bv_Get_def)
  next
    case True
    let ?s = "bvalue (na_snapshot a)" and ?sh = "ActorShard (a_id (na_actor a))"
    let ?n = "set_actor i (a\<lparr>na_snapshot := Disable (na_snapshot a)\<rparr>) n"
    let ?g = "map_AddIfNotExist ?sh [] g"
    have r: "r = (?n, map_AddOrUpdate ?sh (map_GetDefault ?g ?sh @ [completed_by ?s]) ?g)"
      using Some True by (simp add: r_def batch_group_def bv_Get_def Let_def)
    have owner: "snap_ActorId ?s = i" "a_id (na_actor a) = i"
      using inv_actor [OF assms(1) Some] True by (simp_all add: IsEnabled_def)
    have "node_inv L ?n"
      using owner by (intro inv_set_actor [OF assms(1) Some]) (simp_all add: bool_value_defs)
    moreover have "kept n ?n" using Some by (intro kept_set_actor) simp
    moreover have "requested ?n ss"
      using assms(2) by (simp add: requested_def bool_value_defs)
    moreover have "grouped_ok e (calls n) (map_AddOrUpdate ?sh (map_GetDefault ?g ?sh @ [completed_by ?s]) ?g)"
    proof -
      have "?s \<in> set ss" using assms(2) Some True by (simp add: requested_def IsEnabled_def)
      then have new: "stored e (calls n) i off" if "off \<le> snap_Offset ?s" for off
        using stored_save [OF assms(4), of ?s] assms(3,5) owner(1) that by simp
      have "map_GetDefault ?g ?sh = (case map_Get g ?sh of None \<Rightarrow> [] | Some l \<Rightarrow> l)"
        by (simp add: map_GetDefault_def default_list_def split: option.split)
      then show ?thesis
        using assms(6) new owner(1)
        by (auto simp: grouped_ok_def completed_by_def split: if_splits option.splits)
    qed
    ultimately show ?thesis unfolding r by simp
  qed
qed

lemma batch_group_fold:
  "node_inv L n \<Longrightarrow> requested n ss \<Longrightarrow> set is \<subseteq> set (fst (saves e log ss)) \<Longrightarrow>
   \<not> snd (saves e log ss) \<Longrightarrow> calls n = log @ [CallSave ss] \<Longrightarrow> grouped_ok e (calls n) g \<Longrightarrow>
   (let r = fold batch_group is (n, g)
    in node_inv L (fst r) \<and> calls (fst r) = calls n \<and> shards (fst r) = shards n \<and>
       kept n (fst r) \<and> grouped_ok e (calls n) (snd r))"
proof (induction "is" arbitrary: n g)
  case (Cons i "is")
  let ?r = "batch_group i (n, g)"
  have step: "node_inv L (fst ?r) \<and> requested (fst ?r) ss \<and> calls (fst ?r) = calls n \<and>
      shards (fst ?r) = shards n \<and> kept n (fst ?r) \<and> grouped_ok e (calls n) (snd ?r)"
    using Cons.prems by (intro batch_group_step [of L n ss i e log]) simp_all
  have "let r = fold batch_group is (fst ?r, snd ?r)
    in node_inv L (fst r) \<and> calls (fst r) = calls (fst ?r) \<and> shards (fst r) = shards (fst ?r) \<and>
       kept (fst ?r) (fst r) \<and> grouped_ok e (calls (fst ?r)) (snd r)"
    using step Cons.prems by (intro Cons.IH) simp_all
  then show ?case using step kept_trans [OF _ , of n] by (auto simp: Let_def)
qed simp

lemma sound_fold: "(\<And>x n. x \<in> set xs \<Longrightarrow> sound L e n (f x n)) \<Longrightarrow> sound L e n (fold f xs n)"
proof (induction xs arbitrary: n)
  case (Cons x xs)
  then have "sound L e n (f x n)" "sound L e (f x n) (fold f xs (f x n))" by simp_all
  then show ?case using sound_trans by auto
qed simp

lemma sound_logged: "sound L e n n' \<Longrightarrow> node_inv L n \<Longrightarrow> \<exists>new. calls n' = calls n @ new"
  unfolding sound_def progress_def by blast

lemma grouped_ok_later: "grouped_ok e log g \<Longrightarrow> grouped_ok e (log @ suffix) g"
  unfolding grouped_ok_def using stored_append by blast

text \<open>Completing the groups one after the other, whatever the order.\<close>

lemma complete_groups:
  "node_inv L n \<Longrightarrow> grouped_ok e (calls n) g \<Longrightarrow>
   progress e n (fold (\<lambda>s n. complete_and_resume e s (map_GetDefault g s) n) ss n) \<and>
   node_inv L (fold (\<lambda>s n. complete_and_resume e s (map_GetDefault g s) n) ss n)"
proof (induction ss arbitrary: n)
  case (Cons s ss)
  let ?m = "complete_and_resume e s (map_GetDefault g s) n"
  have "\<forall>it \<in> set (map_GetDefault g s). \<forall>off. off \<le> ic_MaxOffset it \<longrightarrow>
      stored e (calls n) (ic_ActorId it) off"
    using Cons.prems(2)
    by (cases "map_Get g s") (auto simp: map_GetDefault_def default_list_def grouped_ok_def)
  then have snd: "sound L e n ?m" by (rule sound_complete_and_resume)
  then obtain new where "calls ?m = calls n @ new" using sound_logged Cons.prems(1) by blast
  then have "grouped_ok e (calls ?m) g" using grouped_ok_later Cons.prems(2) by simp
  then show ?case
    using Cons.IH [of ?m] snd Cons.prems(1) progress_trans unfolding sound_def by auto
qed simp

lemma sound_snapshotBatch: "sound L e n (snapshotBatch e n)"
  unfolding sound_def
proof (intro impI)
  assume inv: "node_inv L n"
  let ?ss = "batch_snapshots e n"
  let ?n = "n\<lparr>calls := calls n @ [CallSave ?ss]\<rparr>"
  have save: "sound L e n ?n" by (rule sound_call) simp
  let ?ok = "fst (saves e (calls n) ?ss)"
  show "node_inv L (snapshotBatch e n) \<and> progress e n (snapshotBatch e n)"
  proof (cases "snd (saves e (calls n) ?ss) \<or> ?ok = []")
    case True
    then have "snapshotBatch e n = ?n"
      by (auto simp: snapshotBatch_def saveSnapshot_def Let_def split: prod.split)
    then show ?thesis using save inv unfolding sound_def by simp
  next
    case False
    let ?r = "fold batch_group ?ok (?n, NewMap)"
    have "requested ?n ?ss" using batch_requested [OF inv] by (simp add: requested_def)
    then have r: "node_inv L (fst ?r)" "calls (fst ?r) = calls ?n" "shards (fst ?r) = shards ?n"
      "kept ?n (fst ?r)" "grouped_ok e (calls ?n) (snd ?r)"
      using batch_group_fold [of L ?n ?ss ?ok e "calls n" NewMap] False inv
      by (simp_all add: Let_def grouped_ok_def)
    let ?m = "fold (\<lambda>s n. complete_and_resume e s (map_GetDefault (snd ?r) s) n)
        (map_Keys (shard_order e (calls (fst ?r))) (snd ?r)) (fst ?r)"
    have eq: "snapshotBatch e n = ?m"
      using False unfolding snapshotBatch_def by (simp add: Let_def case_prod_beta)
    have "progress e (fst ?r) ?m \<and> node_inv L ?m"
      by (rule complete_groups [OF r(1)]) (use r(2,5) in simp)
    moreover have "progress e n (fst ?r)"
    proof (rule progress_trans)
      show "progress e n ?n" using save inv unfolding sound_def by blast
      show "progress e ?n (fst ?r)" by (rule progress_same [OF r(3) r(2) r(4)])
    qed
    ultimately show ?thesis unfolding eq using progress_trans by blast
  qed
qed

section \<open>Stopping and reports\<close>

lemma actor_Stop_id [simp]: "a_id (actor_Stop a) = a_id a"
  by (simp add: actor_Stop_def)

lemma sound_stopActor: "sound L e n (stopActor i n)"
proof (cases "map_Get (actors n) i")
  case (Some a)
  then show ?thesis
    unfolding stopActor_def by (simp, intro sound_set_actor) (use inv_actor in auto)
qed (simp add: stopActor_def)

lemma sound_stopShard: "sound L e n (stopShard e s n)"
  by (cases "map_Get (shards n) s") (simp_all add: stopShard_def sound_fold sound_stopActor)

lemma sound_receiveSnapshot:
  assumes "snap_ActorId snap = i"
  shows "sound L e n (receiveSnapshot i snap n)"
proof (cases "map_Get (actors n) i")
  case (Some a)
  then show ?thesis
    unfolding receiveSnapshot_def
    by (simp, intro sound_set_actor) (use inv_actor assms in \<open>auto simp: bool_value_defs\<close>)
qed (simp add: receiveSnapshot_def)

lemma sound_receiveAlive: "sound L e n (receiveAlive i t n)"
proof (cases "map_Get (actors n) i")
  case (Some a)
  then show ?thesis
    unfolding receiveAlive_def by (simp, intro sound_set_actor) (use inv_actor in auto)
qed (simp add: receiveAlive_def)

lemma sound_receiveReady: "sound L e n (receiveReady e i n)"
proof (cases "map_Get (actors n) i")
  case (Some a)
  let ?n = "set_actor i (a\<lparr>na_pause := Disable (na_pause a)\<rparr>) n"
  have one: "sound L e n ?n" by (intro sound_set_actor) (use Some inv_actor in auto)
  have "sound L e n (?n\<lparr>calls := calls ?n @ [CallSeek (ActorShard i) (bvalue (na_pause a))]\<rparr>)"
    by (rule sound_trans [OF one], rule sound_call) simp
  then show ?thesis using Some by (simp add: receiveReady_def bv_Get_def)
qed (simp add: receiveReady_def)

text \<open>Panics: \<open>recycleActor\<close> finds the shard and an offset list that is not empty.\<close>

lemma recycleActor_ok:
  assumes "node_inv L n"
  shows "\<exists>n'. recycleActor e i n = Inr n' \<and> sound L e n n'"
proof (cases "map_Get (actors n) i")
  case None
  then show ?thesis by (simp add: recycleActor_def)
next
  case (Some a)
  obtain sh where sh: "map_Get (shards n) (ActorShard i) = Some sh"
    using inv_actor(3) [OF assms Some] by blast
  have "infl_core (window sh)"
    using inv_window [OF assms sh] by (simp add: window_ok_def infl_inv_core)
  then obtain off ok where min: "infl_GetMinOffset (window sh) i = Inr (off, ok)"
    using GetMinOffset_core by (metis (full_types))
  have seek: "sound L e n (n\<lparr>calls := calls n @ [CallSeek (ActorShard i) o1]\<rparr>)" for o1
    by (rule sound_call) simp
  have stop: "sound L e n (stopActor i (if IsEnabled (na_snapshot a) then snapshotBatch e n else n))"
    using sound_trans [OF sound_snapshotBatch sound_stopActor] sound_stopActor by auto
  show ?thesis
    using Some sh min seek stop by (simp add: recycleActor_def bv_Get_def Let_def)
qed

end
