(* ===== verification/NodeStep.thy ===== *)
theory NodeStep
  imports NodeInv
begin

text \<open>
  The steps of the node's goroutine: starting and dropping actors, dispatching a message of the
  queue, shutting down. Every step keeps the invariant, panics only on a foreign report (a message of
  the queue that poses as the report of an actor), sends only commits that are safe, and lets an
  offset leave a window only when the store holds its effect.
\<close>

section \<open>Messages in the node's mailbox\<close>

text \<open>
  What a message polled from the queue and a report of an actor look like: an offset of the
  queue belongs to the receiver, and a report carries the payload of its command.
\<close>

definition message_ok :: "(int \<Rightarrow> int \<Rightarrow> string) \<Rightarrow> 'v message \<Rightarrow> bool" where
  "message_ok L m \<longleftrightarrow>
     (Type m = MessageTypeNetwork \<longrightarrow> 0 \<le> Offset m \<and>
        L (ActorShard (ref_Id (Receiver m))) (Offset m) = ref_Id (Receiver m)) \<and>
     (Type m = MessageTypeMemory \<longrightarrow>
        (Command m = CmdActorIdle \<longrightarrow> Payload m = PIdle) \<and>
        (Command m = CmdActorSnapshot \<longrightarrow>
           (\<exists>s. Payload m = PSnapshot s \<and> snap_ActorId s = ref_Id (Sender m))) \<and>
        (Command m = CmdActorAlive \<longrightarrow> (\<exists>t. Payload m = PAlive t)) \<and>
        (Command m = CmdActorReady \<longrightarrow> Payload m = PReady) \<and>
        (Command m = CmdActorStopped \<longrightarrow> Payload m = PStopped))"

text \<open>
  A message of the queue always has raw bytes as its payload, so one with the type of memory messages
  and the command of a report does not carry what the command announces: a foreign report.
\<close>

definition foreign_report :: "'v message \<Rightarrow> bool" where
  "foreign_report m \<longleftrightarrow> Type m = MessageTypeMemory \<and> (case Payload m of PRaw _ \<Rightarrow> True | _ \<Rightarrow> False) \<and>
     Command m \<in> {CmdActorIdle, CmdActorSnapshot, CmdActorAlive, CmdActorReady, CmdActorStopped}"

lemma foreign_report_not_ok: "foreign_report m \<Longrightarrow> \<not> message_ok L m"
  by (auto simp: foreign_report_def message_ok_def split: payload.splits)

lemma foreign_report_handle: "foreign_report m \<Longrightarrow> node_handle w e m n = Inl Panic"
  by (auto simp: foreign_report_def node_handle_def Let_def split: payload.splits)

section \<open>Steps that complete nothing\<close>

text \<open>
  \<open>quiet\<close>: no commit, and the shards that remain keep their windows. \<open>safe\<close>: what holds
  of a whole step of the goroutine.
\<close>

definition quiet :: "'v node \<Rightarrow> 'v node \<Rightarrow> bool" where
  "quiet n n' \<longleftrightarrow> n_mailbox n' = n_mailbox n \<and> (\<exists>new. calls n' = calls n @ new \<and> (\<forall>s c. CallCommit s c \<notin> set new)) \<and>
     (\<forall>s sh'. map_Get (shards n') s = Some sh' \<longrightarrow>
        (\<exists>sh. map_Get (shards n) s = Some sh \<and> window sh' = window sh))"

definition safe :: "'v env \<Rightarrow> 'v node \<Rightarrow> 'v node \<Rightarrow> bool" where
  "safe e n n' \<longleftrightarrow> n_mailbox n' = n_mailbox n \<and> (\<exists>new. calls n' = calls n @ new \<and> commits_safe new n') \<and>
     (\<forall>s sh sh' off i. map_Get (shards n) s = Some sh \<longrightarrow> map_Get (shards n') s = Some sh' \<longrightarrow>
        map_Get (offsetActor (window sh)) off = Some i \<longrightarrow>
        map_Get (offsetActor (window sh')) off = Some i \<or>
        map_Get (offsetActor (window sh')) off = None \<and> stored e (calls n') i off)"

lemma quiet_same:
  "shards n' = shards n \<Longrightarrow> calls n' = calls n \<Longrightarrow> n_mailbox n' = n_mailbox n \<Longrightarrow> quiet n n'"
  by (simp add: quiet_def)

lemma quiet_call: "quiet n n' \<Longrightarrow> \<forall>s off. CallCommit s off \<noteq> c \<Longrightarrow> quiet n (n'\<lparr>calls := calls n' @ [c]\<rparr>)"
  by (fastforce simp: quiet_def)

lemma quiet_trans:
  assumes "quiet n n'" and "quiet n' n''"
  shows "quiet n n''"
proof -
  obtain new new2 where "calls n' = calls n @ new" "\<forall>s c. CallCommit s c \<notin> set new"
    "calls n'' = calls n' @ new2" "\<forall>s c. CallCommit s c \<notin> set new2"
    using assms unfolding quiet_def by blast
  then have "calls n'' = calls n @ (new @ new2) \<and> (\<forall>s c. CallCommit s c \<notin> set (new @ new2))" by simp
  moreover have "\<exists>sh. map_Get (shards n) s = Some sh \<and> window sh'' = window sh"
    if "map_Get (shards n'') s = Some sh''" for s sh''
    using that assms unfolding quiet_def by metis
  moreover have "n_mailbox n'' = n_mailbox n" using assms by (simp add: quiet_def)
  ultimately show ?thesis unfolding quiet_def by blast
qed

lemma progress_then_quiet:
  assumes "progress e n n'" and "quiet n' n''"
  shows "safe e n n''"
proof -
  obtain new new2 where new: "calls n' = calls n @ new" "commits_safe new n'"
    and log2: "calls n'' = calls n' @ new2" "\<forall>s c. CallCommit s c \<notin> set new2"
    using assms unfolding quiet_def progress_def by blast
  have prev: "\<exists>sh'. map_Get (shards n') s = Some sh' \<and> window sh'' = window sh'"
    if "map_Get (shards n'') s = Some sh''" for s sh''
    using assms(2) that unfolding quiet_def by blast
  have "commits_safe (new @ new2) n''"
    unfolding commits_safe_def
  proof (intro allI impI)
    fix s :: int and c :: int and sh''
    assume c: "CallCommit s c \<in> set (new @ new2)" and sh: "map_Get (shards n'') s = Some sh''"
    then obtain sh' where "map_Get (shards n') s = Some sh'" "window sh'' = window sh'"
      using prev by blast
    then show "\<forall>off \<in> in_flight (window sh''). c \<le> off"
      using new(2) c log2(2) unfolding commits_safe_def by auto
  qed
  then have "calls n'' = calls n @ (new @ new2) \<and> commits_safe (new @ new2) n''"
    using new(1) log2(1) by simp
  moreover have "map_Get (offsetActor (window sh'')) off = Some i \<or>
      map_Get (offsetActor (window sh'')) off = None \<and> stored e (calls n'') i off"
    if sh: "map_Get (shards n) s = Some sh" "map_Get (shards n'') s = Some sh''"
      and i: "map_Get (offsetActor (window sh)) off = Some i" for s sh sh'' off i
  proof -
    obtain sh' where sh': "map_Get (shards n') s = Some sh'" "window sh'' = window sh'"
      using prev [OF sh(2)] by blast
    have "shrinks e n n'" using assms(1) by (simp add: progress_def)
    then show ?thesis
      using sh' sh(1) i log2(1) stored_append unfolding shrinks_def by metis
  qed
  moreover have "n_mailbox n'' = n_mailbox n"
    using assms by (simp add: quiet_def progress_def kept_def)
  ultimately show ?thesis unfolding safe_def by blast
qed

lemma progress_safe: "progress e n n' \<Longrightarrow> safe e n n'"
  using progress_then_quiet [OF _ quiet_same] by blast

text \<open>Windows that only grow, after a quiet part.\<close>

lemma quiet_then_grows:
  assumes "quiet n n'" and "calls n'' = calls n'" and "n_mailbox n'' = n_mailbox n'"
    and "\<And>s sh' sh'' off i. map_Get (shards n') s = Some sh' \<Longrightarrow> map_Get (shards n'') s = Some sh'' \<Longrightarrow>
      map_Get (offsetActor (window sh')) off = Some i \<Longrightarrow> map_Get (offsetActor (window sh'')) off = Some i"
    and "\<And>s. map_Get (shards n') s = None \<Longrightarrow> map_Get (shards n'') s = None"
  shows "safe e n n''"
proof -
  obtain new where "calls n' = calls n @ new" "\<forall>s c. CallCommit s c \<notin> set new"
    using assms(1) unfolding quiet_def by blast
  then have "calls n'' = calls n @ new \<and> commits_safe new n''"
    using assms(2) by (simp add: commits_safe_def)
  moreover have "map_Get (offsetActor (window sh'')) off = Some i"
    if sh: "map_Get (shards n) s = Some sh" "map_Get (shards n'') s = Some sh''"
      and i: "map_Get (offsetActor (window sh)) off = Some i" for s sh sh'' off i
  proof -
    obtain sh' where sh': "map_Get (shards n') s = Some sh'" using assms(5) sh(2) by fastforce
    then have "window sh' = window sh" using assms(1) sh(1) unfolding quiet_def by fastforce
    then show ?thesis using assms(4) [OF sh' sh(2)] i by simp
  qed
  moreover have "n_mailbox n'' = n_mailbox n" using assms(1,3) by (simp add: quiet_def)
  ultimately show ?thesis unfolding safe_def by blast
qed

section \<open>Starting an actor\<close>

lemma actor_Start_id [simp]: "a_id (fst (actor_Start w a)) = a_id a"
  by (simp add: actor_Start_def actor_prepare_def actor_beforeStart_def actor_afterStart_def Let_def)

lemma actors_okE:
  assumes "actors_ok n" and "map_Get (actors n) i = Some a"
  obtains sh where "a_id (na_actor a) = i" "map_Get (shards n) (ActorShard i) = Some sh"
    "i \<in> set (shard_actors sh)"
    "IsEnabled (na_snapshot a) \<longrightarrow> snap_ActorId (bvalue (na_snapshot a)) = i"
  using assms unfolding actors_ok_def by blast

lemma node_inv_startShard [keeps]:
  assumes "node_inv L n"
  shows "node_inv L (startShard s n)"
proof (cases "map_Get (shards n) s")
  case None
  have "ActorShard i \<noteq> s" if "map_Get (actors n) i = Some a" for i a
    using assms that None unfolding node_inv_def by (auto elim: actors_okE)
  then show ?thesis
    using assms None unfolding node_inv_def actors_ok_def shards_ok_def
    by (auto simp: startShard_def Let_def NewNodeShard_def window_ok_New)
next
  case (Some sh)
  then show ?thesis
    using assms by (auto simp: startShard_def Let_def node_inv_def actors_ok_def shards_ok_def)
qed

text \<open>A new actor enters the map and the set of its shard together.\<close>

lemma node_inv_add_actor:
  assumes inv: "node_inv L n" and id: "a_id (na_actor a) = i" "\<not> IsEnabled (na_snapshot a)"
    and sh: "map_Get (shards n) (ActorShard i) = Some sh"
  shows "node_inv L (set_shard (ActorShard i) (sh\<lparr>shard_actors := set_Add i (shard_actors sh)\<rparr>)
    (n\<lparr>actors := map_AddOrUpdate i a (actors n)\<rparr>))" (is "node_inv L ?m")
proof -
  have "actors_ok n" "shards_ok L n" using inv by (simp_all add: node_inv_def)
  then have "actors_ok ?m"
    using id sh unfolding actors_ok_def by (auto simp: set_shard_def) (metis option.inject)
  moreover have "shards_ok L ?m"
    using \<open>shards_ok L n\<close> sh by (simp add: shards_ok_def) (simp add: set_shard_def)
  ultimately show ?thesis using inv by (simp add: node_inv_def)
qed

lemma startActor_ok:
  assumes inv: "node_inv L n" and sh: "map_Get (shards n) (ActorShard (ref_Id ref)) = Some sh"
  shows "startActor w ref n = Inr (n, True) \<or>
    (\<exists>n'. startActor w ref n = Inr (n', False) \<and> node_inv L n' \<and> quiet n n' \<and>
       dom_same n n' \<and> map_Get (actors n') (ref_Id ref) \<noteq> None)"
proof (cases "factory_New (n_factory n)
    (ActorConfigDefault\<lparr>cfg_Id := ref_Id ref, cfg_Type := ref_Type ref, cfg_Node := n_id n\<rparr>)")
  case None
  then show ?thesis by (simp add: startActor_def Let_def)
next
  case (Some a)
  let ?i = "ref_Id ref" and ?r = "actor_Start w a"
  let ?a = "NewNodeActor w (fst ?r)"
  let ?m = "set_shard (ActorShard ?i) (sh\<lparr>shard_actors := set_Add ?i (shard_actors sh)\<rparr>)
    (n\<lparr>actors := map_AddOrUpdate ?i ?a (actors n)\<rparr>)"
  have "factory_ok (n_factory n)" using inv by (simp add: node_inv_def)
  then have "a_id a = ?i"
    using Some unfolding factory_ok_def factory_New_def by (force split: option.splits)
  then have "node_inv L ?m"
    by (intro node_inv_add_actor [OF inv _ _ sh]) (simp_all add: NewNodeActor_def bool_value_defs)
  moreover have "quiet n ?m" "dom_same n ?m" using sh by (auto simp: quiet_def dom_same_def)
  moreover have "startActor w ref n = Inr (if snd ?r then (n, True) else (?m, False))"
    using Some sh by (simp add: startActor_def Let_def case_prod_beta)
  ultimately show ?thesis by auto
qed

section \<open>Dropping an actor\<close>

lemma set_Del_Nil [simp]: "set_Del i s = [] \<longleftrightarrow> set s \<subseteq> {i}"
  by (auto simp: set_Del_def removeAll_filter_not_eq filter_empty_conv)

lemma drop_actor_ok:
  assumes inv: "node_inv L n"
  shows "node_inv L (drop_actor i n) \<and> quiet n (drop_actor i n) \<and>
    n_end (drop_actor i n) = n_end n \<and> n_stopping (drop_actor i n) = n_stopping n"
proof -
  let ?n = "n\<lparr>disableActors := set_Del i (disableActors n), actors := map_Del i (actors n)\<rparr>"
  have ok: "actors_ok n" "shards_ok L n" using inv by (simp_all add: node_inv_def)
  have one: "node_inv L ?n" using inv by (auto simp: node_inv_def actors_ok_def shards_ok_def)
  show ?thesis
  proof (cases "map_Get (shards n) (ActorShard i)")
    case None
    then show ?thesis using one by (simp add: drop_actor_def Let_def quiet_def)
  next
    case (Some sh)
    let ?s = "ActorShard i"
    let ?sh = "sh\<lparr>shard_actors := set_Del i (shard_actors sh)\<rparr>"
    let ?m = "set_shard ?s ?sh ?n"
    let ?k = "?m\<lparr>shards := map_Del ?s (shards ?m)\<rparr>"
    have acts: "actors_ok ?m"
      unfolding actors_ok_def
    proof (intro conjI allI impI)
      show "map_wf (actors ?m)" using one by (simp add: node_inv_def actors_ok_def)
      fix j a
      assume "map_Get (actors ?m) j = Some a"
      then have j: "map_Get (actors n) j = Some a" "j \<noteq> i" by (auto split: if_splits)
      obtain sh' where "a_id (na_actor a) = j" "map_Get (shards n) (ActorShard j) = Some sh'"
        "j \<in> set (shard_actors sh')"
        "IsEnabled (na_snapshot a) \<longrightarrow> snap_ActorId (bvalue (na_snapshot a)) = j"
        using ok(1) j(1) by (rule actors_okE)
      then show "a_id (na_actor a) = j"
        "IsEnabled (na_snapshot a) \<Longrightarrow> snap_ActorId (bvalue (na_snapshot a)) = j"
        "\<exists>sh. map_Get (shards ?m) (ActorShard j) = Some sh \<and> j \<in> set (shard_actors sh)"
        using Some j(2) by auto
    qed
    have wins: "shards_ok L ?m"
      using ok(2) Some by (simp add: shards_ok_def) (simp add: set_shard_def)
    have m: "node_inv L ?m" using one acts wins by (simp add: node_inv_def)
    have k: "node_inv L ?k" if "set_Len (shard_actors ?sh) = 0" "\<not> set_Has ?s (registerShards ?m)"
    proof -
      have "set (shard_actors ?sh) = {}" using that(1) by simp
      then have "ActorShard j \<noteq> ?s" if "map_Get (actors ?m) j \<noteq> None" for j
        using acts that unfolding actors_ok_def by fastforce
      then have "actors_ok ?k" using acts unfolding actors_ok_def by fastforce
      moreover have "shards_ok L ?k" using wins that(2) by (auto simp: shards_ok_def)
      ultimately show ?thesis using m by (simp add: node_inv_def)
    qed
    have "drop_actor i n = (if set_Len (shard_actors ?sh) = 0 \<and> \<not> set_Has ?s (registerShards ?m)
        then ?k else ?m)"
      using Some by (simp add: drop_actor_def Let_def)
    moreover have "quiet n ?m" "quiet n ?k" using Some by (auto simp: quiet_def)
    ultimately show ?thesis using m k by simp
  qed
qed

lemma inv_no_panic_shard:
  assumes "node_inv L n" and "map_Get (actors n) i = Some a"
  obtains sh where "map_Get (shards n) (ActorShard i) = Some sh"
  using inv_actor(3) [OF assms] by blast

section \<open>Handling a message\<close>

lemma deliver_ok:
  assumes inv: "node_inv L n" and m: "message_ok L m" "Type m = MessageTypeNetwork"
    and sh: "map_Get (shards n) (ActorShard (ref_Id (Receiver m))) = Some sh"
    and a: "map_Get (actors n) (ref_Id (Receiver m)) = Some a" and q: "quiet n0 n"
  shows "\<exists>n'. deliver (ActorShard (ref_Id (Receiver m))) m n = Inr n' \<and> node_inv L n' \<and>
    safe e n0 n'"
proof -
  let ?i = "ref_Id (Receiver m)" and ?off = "Offset m"
  let ?s = "ActorShard ?i"
  let ?sh = "sh\<lparr>window := infl_Add (window sh) ?off ?i\<rparr>"
  let ?n = "set_shard ?s ?sh n"
  have off: "0 \<le> ?off" "L ?s ?off = ?i" using m by (simp_all add: message_ok_def)
  have win: "window_ok L ?s (infl_Add (window sh) ?off ?i)"
    using inv_window [OF inv sh] off by (intro window_ok_Add) simp_all
  have one: "node_inv L ?n" using win by (intro inv_set_shard [OF inv sh]) simp_all
  have keep: "map_Get (offsetActor (infl_Add (window sh) ?off ?i)) x = Some j"
    if "map_Get (offsetActor (window sh)) x = Some j" for x j
  proof -
    have "j = L ?s x" using inv_window [OF inv sh] that unfolding window_ok_def by blast
    then show ?thesis using that off(2) by (simp add: infl_Add_fields)
  qed
  have grow: "safe e n0 k" if "shards k = shards ?n" "calls k = calls n" "n_mailbox k = n_mailbox n" for k
    by (rule quiet_then_grows [OF q that(2,3)])
      (use that(1) sh keep in \<open>auto split: if_splits\<close>)
  have b: "node_inv L (set_actor ?i b ?n) \<and> safe e n0 (set_actor ?i b ?n)"
    if "a_id (na_actor b) = a_id (na_actor a)" "na_snapshot b = na_snapshot a" for b
  proof
    have "map_Get (actors ?n) ?i = Some a" using a by simp
    note a' = inv_actor(1,2) [OF one this]
    show "node_inv L (set_actor ?i b ?n)"
      by (rule inv_set_actor [OF one]) (use a a' that in auto)
    show "safe e n0 (set_actor ?i b ?n)" by (rule grow) simp_all
  qed
  have n: "node_inv L ?n \<and> safe e n0 ?n" using one grow by simp
  have sent: "a_id c = a_id (na_actor a)" if "try_send m (na_actor a) = Some c" for c
    using that by (auto simp: try_send_def split: if_splits)
  have eq: "deliver ?s m n =
      (if na_stopping a then Inr (set_actor ?i (a\<lparr>na_pending := Enable ?off (na_pending a)\<rparr>) ?n)
       else if IsEnabled (na_pause a) then Inr ?n
       else (case try_send m (na_actor a) of
           Some c \<Rightarrow> Inr (set_actor ?i (a\<lparr>na_actor := c\<rparr>) ?n)
         | None \<Rightarrow> Inr (set_actor ?i (a\<lparr>na_pause := Enable ?off (na_pause a)\<rparr>) ?n)))"
    using a sh by (simp add: deliver_def Let_def)
  consider "na_stopping a" | "\<not> na_stopping a" "IsEnabled (na_pause a)"
    | "\<not> na_stopping a" "\<not> IsEnabled (na_pause a)" "try_send m (na_actor a) = None"
    | c where "\<not> na_stopping a" "\<not> IsEnabled (na_pause a)" "try_send m (na_actor a) = Some c"
    by blast
  then show ?thesis
  proof cases
    case 1
    then show ?thesis using b [of "a\<lparr>na_pending := Enable ?off (na_pending a)\<rparr>"] unfolding eq by simp
  next
    case 2
    then show ?thesis using n unfolding eq by simp
  next
    case 3
    then show ?thesis using b [of "a\<lparr>na_pause := Enable ?off (na_pause a)\<rparr>"] unfolding eq by simp
  next
    case 4
    then show ?thesis using b [of "a\<lparr>na_actor := c\<rparr>"] sent [OF 4(3)] unfolding eq by simp
  qed
qed

lemma Dispatcher_ok:
  assumes inv: "node_inv L n" and m: "message_ok L m" "Type m = MessageTypeNetwork"
  shows "\<exists>n'. Dispatcher w e m n = Inr n' \<and> node_inv L n' \<and> safe e n n'"
proof -
  let ?i = "ref_Id (Receiver m)"
  let ?s = "ActorShard ?i"
  have same: "node_inv L n \<and> safe e n n" using inv progress_safe progress_refl by blast
  show ?thesis
  proof (cases "map_Get (shards n) ?s")
    case None
    then show ?thesis using same by (simp add: Dispatcher_def Let_def)
  next
    case (Some sh)
    let ?n = "set_shard ?s (sh\<lparr>shard_pause := Enable (Offset m) (shard_pause sh)\<rparr>) n"
    have "sound L e n (?n\<lparr>calls := calls ?n @ [CallPause ?s]\<rparr>)"
      by (rule sound_trans [OF sound_set_shard [OF Some] sound_call]) simp_all
    then have pause: "node_inv L (?n\<lparr>calls := calls ?n @ [CallPause ?s]\<rparr>) \<and>
        safe e n (?n\<lparr>calls := calls ?n @ [CallPause ?s]\<rparr>)"
      using inv progress_safe unfolding sound_def by blast
    have known: "\<exists>n'. deliver ?s m n = Inr n' \<and> node_inv L n' \<and> safe e n n'"
      if "map_Get (actors n) ?i = Some a" for a
      using deliver_ok [OF inv m Some that] quiet_same by blast
    have fresh: "\<exists>n'. and_then (startActor w (Receiver m) n)
        (\<lambda>(n, err). if err then Inr n else deliver ?s m n) = Inr n' \<and> node_inv L n' \<and> safe e n n'"
      using startActor_ok [OF inv Some, of w]
    proof (elim disjE exE conjE)
      fix n1
      assume st: "startActor w (Receiver m) n = Inr (n1, False)" "node_inv L n1" "quiet n n1"
        "dom_same n n1" "map_Get (actors n1) ?i \<noteq> None"
      obtain sh1 where sh1: "map_Get (shards n1) ?s = Some sh1"
        using st(4) Some unfolding dom_same_def by (metis not_None_eq)
      then show ?thesis
        using deliver_ok [OF st(2) m sh1 _ st(3)] st(1,5) by auto
    qed (use same in simp)
    show ?thesis
      using Some pause same known fresh inv
      by (auto simp: Dispatcher_def Let_def node_inv_def split: option.split)
  qed
qed

lemma sound_ok: "sound L e n n' \<Longrightarrow> node_inv L n \<Longrightarrow> node_inv L n' \<and> safe e n n'"
  using progress_safe unfolding sound_def by blast

lemma receiveStopped_ok:
  assumes inv: "node_inv L n"
  shows "(\<exists>n'. receiveStopped e i n = Inr n' \<and> node_inv L n' \<and> safe e n n') \<or>
    receiveStopped e i n = Inl Blocked \<and> n_end n"
proof (cases "map_Get (actors n) i")
  case None
  then show ?thesis using inv progress_safe [OF progress_refl] by (simp add: receiveStopped_def)
next
  case (Some a)
  let ?m = "snapshot e i n"
  let ?d = "drop_actor i ?m"
  have m: "node_inv L ?m" "progress e n ?m"
    using sound_snapshot inv unfolding sound_def by blast+
  note d = drop_actor_ok [OF m(1), of i]
  have flags: "n_end ?d = n_end n"
    using d m(2) by (simp add: progress_def kept_def)
  have quiet: "node_inv L k \<and> safe e n k" if "node_inv L ?d \<Longrightarrow> node_inv L k" "quiet ?d k" for k
    using progress_then_quiet [OF m(2) quiet_trans] d that by blast
  let ?k = "?d\<lparr>calls := calls ?d @ [CallSeek (ActorShard i) (fst (bv_Get (na_pending a)))]\<rparr>"
  have "receiveStopped e i n \<in> {Inr ?d, Inr (?d\<lparr>n_end := True\<rparr>), Inr ?k} \<or>
      receiveStopped e i n = Inl Blocked \<and> n_end ?d"
    using Some by (auto simp: receiveStopped_def handleEnding_def Let_def bv_Get_def)
  moreover have "quiet ?d ?k" by (rule quiet_call) (simp_all add: quiet_same)
  ultimately show ?thesis
    using quiet [of ?d] quiet [of "?d\<lparr>n_end := True\<rparr>"] quiet [of ?k] flags
    by (auto simp: quiet_same)
qed

lemma node_handle_ok:
  assumes inv: "node_inv L n" and m: "message_ok L m"
  shows "(\<exists>n'. node_handle w e m n = Inr n' \<and> node_inv L n' \<and> safe e n n') \<or>
    node_handle w e m n = Inl Blocked \<and> n_end n"
proof -
  let ?i = "ref_Id (Sender m)"
  have same: "node_inv L n \<and> safe e n n" using inv progress_safe progress_refl by blast
  consider (queue) "Type m = MessageTypeNetwork" | (other) "Type m \<noteq> MessageTypeNetwork" "Type m \<noteq> MessageTypeMemory"
    | (idle) "Type m = MessageTypeMemory" "Command m = CmdActorIdle"
    | (snap) "Type m = MessageTypeMemory" "Command m = CmdActorSnapshot"
    | (alive) "Type m = MessageTypeMemory" "Command m = CmdActorAlive"
    | (ready) "Type m = MessageTypeMemory" "Command m = CmdActorReady"
    | (stopped) "Type m = MessageTypeMemory" "Command m = CmdActorStopped"
    | (unknown) "Type m = MessageTypeMemory" "Command m \<notin> {CmdActorIdle, CmdActorSnapshot,
        CmdActorAlive, CmdActorReady, CmdActorStopped}"
    by blast
  then show ?thesis
  proof cases
    case queue
    then show ?thesis using Dispatcher_ok [OF inv m queue, of w e]
      by (auto simp: node_handle_def MessageTypeMemory_def MessageTypeNetwork_def)
  next
    case idle
    then show ?thesis using m recycleActor_ok [OF inv, of e ?i] sound_ok [OF _ inv]
      by (auto simp: node_handle_def message_ok_def receiveIdle_def)
  next
    case snap
    then obtain s where "Payload m = PSnapshot s" "snap_ActorId s = ?i" using m by (auto simp: message_ok_def)
    then show ?thesis using snap sound_ok [OF sound_receiveSnapshot inv]
      by (simp add: node_handle_def CmdActorIdle_def CmdActorSnapshot_def)
  next
    case alive
    then obtain t where "Payload m = PAlive t" using m by (auto simp: message_ok_def)
    then show ?thesis using alive sound_ok [OF sound_receiveAlive inv]
      by (simp add: node_handle_def CmdActorIdle_def CmdActorSnapshot_def CmdActorAlive_def)
  next
    case ready
    then show ?thesis using m sound_ok [OF sound_receiveReady inv]
      by (simp add: node_handle_def message_ok_def CmdActorIdle_def CmdActorSnapshot_def
          CmdActorAlive_def CmdActorReady_def)
  next
    case stopped
    then show ?thesis using m receiveStopped_ok [OF inv, of e ?i]
      by (simp add: node_handle_def message_ok_def CmdActorIdle_def CmdActorSnapshot_def
          CmdActorAlive_def CmdActorReady_def CmdActorStopped_def)
  qed (use same in \<open>simp_all add: node_handle_def\<close>)
qed

section \<open>The goroutine\<close>

lemma node_inv_unregister: "node_inv L n \<Longrightarrow> node_inv L (n\<lparr>registerShards := []\<rparr>)"
  by (simp add: node_inv_def actors_ok_def shards_ok_def)

text \<open>The loop of \<open>beforeStop\<close>: only the stop signals and flags of actors change.\<close>

lemma sound_stopShards: "sound L e n (fold (stopShard e) ss n)"
  by (intro sound_fold) (rule sound_stopShard)

lemma stopPoll_fields [simp]:
  "shards (stopPoll n) = shards n" "calls (stopPoll n) = calls n" "n_end (stopPoll n) = n_end n"
  "actors (stopPoll n) = actors n" "registerShards (stopPoll n) = registerShards n"
  "n_stopping (stopPoll n) = n_stopping n" "n_mailbox (stopPoll n) = n_mailbox n" "node_inv L (stopPoll n) = node_inv L n"
  by (simp_all add: stopPoll_def)

lemma handleEnding_cases:
  "handleEnding n = Inr n \<or> handleEnding n = Inr (n\<lparr>n_end := True\<rparr>) \<or>
   handleEnding n = Inl Blocked \<and> n_end n"
  by (simp add: handleEnding_def)

lemma node_beforeStop_ok:
  assumes inv: "node_inv L n"
  shows "(\<exists>n'. node_beforeStop w e n = Inr n' \<and> node_inv L n' \<and> safe e n n') \<or>
    node_beforeStop w e n = Inl Blocked \<and> n_end n"
proof (cases "n_stopping n")
  case True
  then show ?thesis
    using inv progress_safe [OF progress_refl] by (simp add: node_beforeStop_def)
next
  case False
  let ?n = "(stopPoll (n\<lparr>n_stopping := True\<rparr>))\<lparr>calls := calls n @ [CallClose], registerShards := []\<rparr>"
  define m where "m = fold (stopShard e) (map_Keys (shard_order e (calls ?n)) (shards ?n)) ?n"
  have n: "node_inv L ?n" "shards ?n = shards n" "n_end ?n = n_end n"
    using inv by (simp_all add: node_inv_unregister)
  have m: "node_inv L m" "progress e ?n m" unfolding m_def using sound_stopShards n(1) unfolding sound_def by blast+
  have safe: "safe e n k"
    if "shards k = shards m" "calls k = calls m" "n_mailbox k = n_mailbox m" for k
  proof -
    obtain new where new: "calls m = calls ?n @ new" "commits_safe new m"
      using m(2) unfolding progress_def by blast
    have "calls m = calls n @ (CallClose # new)" "commits_safe (CallClose # new) m"
      using new by (simp_all add: commits_safe_def)
    moreover have "shrinks e ?n m" using m(2) by (simp add: progress_def)
    moreover have "n_mailbox m = n_mailbox n" using m(2) by (simp add: progress_def kept_def)
    ultimately show ?thesis
      using that n(2) unfolding safe_def shrinks_def commits_safe_def by metis
  qed
  have "n_end m = n_end n" using m(2) n(3) by (simp add: progress_def kept_def)
  moreover have "node_beforeStop w e n = and_then (handleEnding m)
      (\<lambda>n. Inr (n\<lparr>endTimer := Some (unix_nanos w + NodeStopTimeout)\<rparr>))"
    using False by (simp add: node_beforeStop_def Let_def mq_call_def m_def)
  ultimately show ?thesis
    using handleEnding_cases [of m] safe m(1) by auto
qed

end
