(* ===== verification/NodeRun.thy ===== *)
theory NodeRun
  imports NodeStep ActorMail
begin

text \<open>
  The node in operation: its goroutine, the poll goroutine, the actors it started and the
  timer that forces its end, interleaved in any order, with the messages that are on their way
  from an actor to the node. The properties of the node over all its reachable states.
\<close>

section \<open>A step of the goroutine\<close>

lemma node_step_ok:
  assumes inv: "node_inv L n" and mail: "\<forall>m \<in> set (n_mailbox n). message_ok L m \<or> foreign_report m"
    and ready: "node_ready w n ev"
  shows "(\<exists>n' fin. node_step w e ev n = Inr (n', fin) \<and> node_inv L n' \<and>
      set (n_mailbox n') \<subseteq> set (n_mailbox n) \<and>
      safe e (n\<lparr>n_mailbox := n_mailbox n'\<rparr>) n') \<or>
    node_step w e ev n = Inl Blocked \<and> n_end n \<or>
    node_step w e ev n = Inl Panic \<and> ev = NodeMailbox \<and> foreign_report (hd (n_mailbox n))"
proof (cases ev)
  case NodeMailbox
  let ?m = "hd (n_mailbox n)" and ?n = "n\<lparr>n_mailbox := tl (n_mailbox n)\<rparr>"
  have ne: "n_mailbox n \<noteq> []" using ready NodeMailbox by simp
  consider (foreign) "foreign_report ?m" | (known) "message_ok L ?m"
    using mail list.set_sel(1) [OF ne] by blast
  then show ?thesis
  proof cases
    case foreign
    then show ?thesis using foreign_report_handle [OF foreign] NodeMailbox by simp
  next
    case known
  have n: "node_inv L ?n" using inv by simp
  have tl: "set (tl (n_mailbox n)) \<subseteq> set (n_mailbox n)" by (meson list.set_sel(2) ne subsetI)
    show ?thesis
      using node_handle_ok [OF n known, of w e]
    proof (elim disjE exE conjE)
      fix n'
      assume "node_handle w e ?m ?n = Inr n'" "node_inv L n'" and safe: "safe e ?n n'"
      moreover have "n_mailbox n' = tl (n_mailbox n)" using safe by (simp add: safe_def)
      ultimately show ?thesis using NodeMailbox tl by auto
    qed (use NodeMailbox in simp)
  qed
next
  case (NodeSnapshotTimer r)
  let ?n = "n\<lparr>snapshotTimer := None\<rparr>"
  have n: "node_inv L ?n" using inv by simp
  then have m: "node_inv L (snapshotBatch e ?n)" "safe e ?n (snapshotBatch e ?n)"
    using sound_ok [OF sound_snapshotBatch] by blast+
  then have "n_mailbox (snapshotBatch e ?n) = n_mailbox n" by (simp add: safe_def)
  then show ?thesis
    using m NodeSnapshotTimer by (auto simp: restartTimer_def safe_def commits_safe_def)
next
  case NodeStop
  let ?n = "n\<lparr>n_stop := False\<rparr>"
  have n: "node_inv L ?n" using inv by simp
  show ?thesis
    using node_beforeStop_ok [OF n, of w e]
  proof (elim disjE exE conjE)
    fix n'
    assume "node_beforeStop w e ?n = Inr n'" "node_inv L n'" and safe: "safe e ?n n'"
    moreover have "n_mailbox n' = n_mailbox n" using safe by (simp add: safe_def)
    ultimately show ?thesis using NodeStop by (auto simp: safe_def)
  qed (use NodeStop in simp)
next
  case NodeEnd
  let ?n = "n\<lparr>n_end := False, endTimer := None\<rparr>"
  have n: "node_inv L ?n" using inv by simp
  then have m: "node_inv L (snapshotBatch e ?n)" "safe e ?n (snapshotBatch e ?n)"
    using sound_ok [OF sound_snapshotBatch] by blast+
  then have "n_mailbox (snapshotBatch e ?n) = n_mailbox n" by (simp add: safe_def)
  then show ?thesis
    using m NodeEnd by (auto simp: node_finish_def node_afterStop_def safe_def commits_safe_def)
qed

section \<open>Reports of the actors\<close>

lemma signals_message_ok [simp]:
  "message_ok L (signalSnapshot a)" "message_ok L (signalIdle a)" "message_ok L (signalReady a)"
  "message_ok L (signalAlive w a)" "message_ok L (signalStopped a)"
  by (simp_all add: message_ok_def signal_defs snapshot_of_def message_types commands)

lemma finish_reports: "m \<in> set (snd (finish a)) \<Longrightarrow> message_ok L m"
  by (auto simp: finish_def Let_def)

lemma actor_step_reports: "m \<in> set (snd (actor_step w ev a)) \<Longrightarrow> message_ok L m"
proof (cases ev)
  case OnMailbox
  assume m: "m \<in> set (snd (actor_step w ev a))"
  let ?b = "(if phase a = Looping then resetIdle w (a\<lparr>mailbox := tl (mailbox a)\<rparr>) else a\<lparr>mailbox := tl (mailbox a)\<rparr>)"
  have "\<forall>m \<in> set (snd (mail_level c)). message_ok L m" for c :: "'a actor"
    using mail_level_out [of c] by auto
  moreover have "snd (actor_step w ev a) =
    (let r = handle w (hd (mailbox a)) ?b in fst (snd r) @ (if snd (snd r) then snd (finish (fst r)) else []))"
    using OnMailbox by (simp add: unwind_def Let_def split: prod.split)
  ultimately show ?thesis
    using m finish_reports by (fastforce simp: handle_dispatch Let_def split: if_splits)
next
  case OnAlive
  assume "m \<in> set (snd (actor_step w ev a))"
  then show ?thesis using OnAlive by (auto simp: alive_def Let_def split: if_splits)
qed (auto simp: Let_def finish_def)

lemma trigger_loop_id: "a_id (fst (trigger_loop w a)) = a_id a"
  using trigger_loop_frame [of w a] by auto

lemma finish_id [simp]: "a_id (fst (finish a)) = a_id a"
  by (simp add: finish_def Let_def)

lemma actor_step_id: "a_id (fst (actor_step w ev a)) = a_id a"
  by (cases ev) (auto simp: unwind_handle Let_def resetIdle_def alive_def handleTimerTrigger_def
      startStopping_def actor_beforeStop_def trigger_loop_id case_prod_beta)

section \<open>The running node\<close>

text \<open>
  Everything that can happen after \<open>Start\<close>, in any order. \<open>way\<close>: reports an actor
  has sent that are not in the mailbox yet. The owner of the node gives it shards and asks it to
  stop; the poll goroutine and the actors send while the mailbox has room; a ready branch of an
  actor or of the node runs; the end timer fires. A polled message has any type the queue delivers (one that
  is not of the network has raw bytes as its payload, as the adapter makes it), and \<open>L\<close> names its
  receiver: the queue holds the same message at an offset of a shard forever.
\<close>

inductive node_run :: "(int \<Rightarrow> int \<Rightarrow> string) \<Rightarrow> 'v::default env \<Rightarrow> 'v node \<Rightarrow> 'v message list \<Rightarrow> bool"
  for L e where
  node_new: "factory_ok r \<Longrightarrow>
    node_run L e (node_beforeStart w (NewNode\<lparr>n_id := i, n_factory := r\<rparr>)) []"
| node_shard: "node_run L e n way \<Longrightarrow> node_run L e (startShard s n) way"
| node_poll: "node_run L e n way \<Longrightarrow> polling n \<Longrightarrow> length (n_mailbox n) < NodeChannelCapacity \<Longrightarrow>
    Type m = MessageTypeNetwork \<or> (\<exists>b. Payload m = PRaw b) \<Longrightarrow> 0 \<le> Offset m \<Longrightarrow>
    L (ActorShard (ref_Id (Receiver m))) (Offset m) = ref_Id (Receiver m) \<Longrightarrow>
    node_run L e (n\<lparr>n_mailbox := n_mailbox n @ [m]\<rparr>) way"
| node_report: "node_run L e n (pre @ m # post) \<Longrightarrow> length (n_mailbox n) < NodeChannelCapacity \<Longrightarrow>
    node_run L e (n\<lparr>n_mailbox := n_mailbox n @ [m]\<rparr>) (pre @ post)"
| node_actor: "node_run L e n way \<Longrightarrow> map_Get (actors n) i = Some a \<Longrightarrow>
    actor_ready w (na_actor a) ev \<Longrightarrow> actor_step w ev (na_actor a) = (b, out) \<Longrightarrow>
    node_run L e (set_actor i (a\<lparr>na_actor := b\<rparr>) n) (way @ out)"
| node_signal: "node_run L e n way \<Longrightarrow> node_run L e (n\<lparr>n_stop := True\<rparr>) way"
| node_expire: "node_run L e n way \<Longrightarrow> due w (endTimer n) \<Longrightarrow> \<not> n_end n \<Longrightarrow>
    node_run L e (n\<lparr>n_end := True\<rparr>) way"
| node_turn: "node_run L e n way \<Longrightarrow> node_ready w n ev \<Longrightarrow> node_step w e ev n = Inr (n', False) \<Longrightarrow>
    node_run L e n' way"

definition run_ok :: "(int \<Rightarrow> int \<Rightarrow> string) \<Rightarrow> 'v node \<Rightarrow> 'v message list \<Rightarrow> bool" where
  "run_ok L n way \<longleftrightarrow> node_inv L n \<and> (\<forall>m \<in> set (n_mailbox n). message_ok L m \<or> foreign_report m) \<and>
     (\<forall>m \<in> set way. message_ok L m)"

lemma startShard_mailbox [simp]: "n_mailbox (startShard s n) = n_mailbox n"
  by (simp add: startShard_def Let_def)

lemma node_run_ok: "node_run L e n way \<Longrightarrow> run_ok L n way"
proof (induction rule: node_run.induct)
  case (node_new r w i)
  then show ?case
    by (simp add: run_ok_def node_beforeStart_def startPoll_def NewNode_def node_inv_def
        actors_ok_def shards_ok_def)
next
  case (node_actor n way i a w ev b out)
  have "a_id b = a_id (na_actor a)" using actor_step_id [of w ev "na_actor a"] node_actor(4) by simp
  then have "node_inv L (set_actor i (a\<lparr>na_actor := b\<rparr>) n)"
    using node_actor(2,5) inv_actor unfolding run_ok_def by (intro inv_set_actor) auto
  moreover have "\<forall>m \<in> set out. message_ok L m"
    using actor_step_reports [of _ w ev "na_actor a" L] node_actor(4) by simp
  ultimately show ?case using node_actor(5) by (auto simp: run_ok_def)
next
  case (node_turn n way w ev n')
  then show ?case
    using node_step_ok [of L n w ev e] by (auto simp: run_ok_def)
next
  case (node_poll n way m)
  then have "message_ok L m \<or> foreign_report m"
    by (auto simp: message_ok_def foreign_report_def message_types split: payload.split)
  then show ?case using node_poll by (simp add: run_ok_def)
qed (auto simp: run_ok_def node_inv_startShard)

end
