(* ===== verification/NodeProps.thy ===== *)
theory NodeProps
  imports NodeRun
begin

text \<open>
  The properties of the node, over every state it can reach, and the situations in which its
  code loses a message or stops working.
\<close>

section \<open>A small node\<close>

definition example_env :: "int env" where
  "example_env = \<lparr>fails = (\<lambda>_ _. False), saves = (\<lambda>_ ss. (map snap_ActorId ss, False)),
     actor_order = (\<lambda>_ _. 0), shard_order = (\<lambda>_ _. 0)\<rparr>"

definition to_a :: "string \<Rightarrow> int \<Rightarrow> int message" where
  "to_a i off = (inc i off)\<lparr>Receiver := \<lparr>ref_Type = ''t'', ref_Id = ''a''\<rparr>\<rparr>"

text \<open>Started, with the shard of one actor, and one message polled.\<close>

definition example_idle :: "int node" where
  "example_idle = startShard (ActorShard ''a'') (node_beforeStart example_wall
     (NewNode\<lparr>n_id := ''n'', n_factory := [(''t'', FactoryWarp counting)]\<rparr>))"

definition example_polled :: "int node" where
  "example_polled = example_idle\<lparr>n_mailbox := n_mailbox example_idle @ [to_a ''m'' 7]\<rparr>"

lemma example_idle_run: "node_run (\<lambda>_ _. ''a'') example_env example_idle []"
  unfolding example_idle_def
  by (intro node_shard node_new) (use factory_ok_Warp [of "[(''t'', counting)]"] in simp)

lemma example_polled_run: "node_run (\<lambda>_ _. ''a'') example_env example_polled []"
  unfolding example_polled_def
  by (rule node_poll [OF example_idle_run])
    (simp_all add: example_idle_def node_beforeStart_def startPoll_def startShard_def NewNode_def
      NodeChannelCapacity_def to_a_def inc_def Let_def)

definition example_running :: "int node" where
  "example_running = (case node_step example_wall example_env NodeMailbox example_polled of
     Inr (n, _) \<Rightarrow> n | _ \<Rightarrow> example_polled)"

lemma example_running_step:
  "node_step example_wall example_env NodeMailbox example_polled = Inr (example_running, False)"
proof -
  have "case node_step example_wall example_env NodeMailbox example_polled of
      Inr (_, fin) \<Rightarrow> \<not> fin | _ \<Rightarrow> False"
    by code_simp
  then show ?thesis by (auto simp: example_running_def split: sum.splits)
qed

lemma example_polled_ready: "node_ready example_wall example_polled NodeMailbox"
  by code_simp

lemma example_running_run: "node_run (\<lambda>_ _. ''a'') example_env example_running []"
  using example_polled_run example_polled_ready example_running_step by (rule node_turn)

text \<open>
  The actor handles the message and, idle at once, reports its snapshot; the node takes the
  report and, one minute later, its snapshot timer fires.
\<close>

definition turn :: "string \<Rightarrow> actor_event \<Rightarrow> 'v node \<Rightarrow> 'v node \<times> 'v message list" where
  "turn i ev n = (case map_Get (actors n) i of
       None \<Rightarrow> (n, [])
     | Some a \<Rightarrow> let (b, out) = actor_step example_wall ev (na_actor a)
         in (set_actor i (a\<lparr>na_actor := b\<rparr>) n, out))"

definition can_turn :: "string \<Rightarrow> actor_event \<Rightarrow> 'v node \<Rightarrow> bool" where
  "can_turn i ev n = (case map_Get (actors n) i of
       None \<Rightarrow> False | Some a \<Rightarrow> actor_ready example_wall (na_actor a) ev)"

lemma turn_run:
  assumes "node_run L e n way" and "can_turn i ev n"
  shows "node_run L e (fst (turn i ev n)) (way @ snd (turn i ev n))"
proof -
  obtain a where a: "map_Get (actors n) i = Some a" "actor_ready example_wall (na_actor a) ev"
    using assms(2) by (auto simp: can_turn_def split: option.splits)
  show ?thesis
    using node_actor [OF assms(1) a, of "fst (actor_step example_wall ev (na_actor a))"
      "snd (actor_step example_wall ev (na_actor a))"] a(1)
    by (simp add: turn_def case_prod_beta Let_def)
qed

definition example_handled :: "int node" where
  "example_handled = fst (turn ''a'' OnMailbox (fst (turn ''a'' OnBegin example_running)))"

definition example_out :: "int message list" where
  "example_out = snd (turn ''a'' OnIdle example_handled)"

definition example_reported :: "int node" where
  "example_reported = (let n = fst (turn ''a'' OnIdle example_handled)
     in n\<lparr>n_mailbox := n_mailbox n @ [hd example_out]\<rparr>)"

lemma example_handled_run: "node_run (\<lambda>_ _. ''a'') example_env example_handled []"
proof -
  have "can_turn ''a'' OnBegin example_running"
    "snd (turn ''a'' OnBegin example_running) = []"
    "can_turn ''a'' OnMailbox (fst (turn ''a'' OnBegin example_running))"
    "snd (turn ''a'' OnMailbox (fst (turn ''a'' OnBegin example_running))) = []"
    by code_simp+
  then show ?thesis
    using turn_run [OF turn_run [OF example_running_run, of "''a''" OnBegin], of "''a''" OnMailbox]
    by (simp add: example_handled_def)
qed

lemma example_reported_run: "node_run (\<lambda>_ _. ''a'') example_env example_reported (tl example_out)"
proof -
  let ?n = "fst (turn ''a'' OnIdle example_handled)"
  have "can_turn ''a'' OnIdle example_handled" "example_out \<noteq> []"
    "length (n_mailbox ?n) < NodeChannelCapacity"
    by code_simp+
  then show ?thesis
    using turn_run [OF example_handled_run, of "''a''" OnIdle]
      node_report [of _ _ ?n "[]" "hd example_out" "tl example_out"]
    by (simp add: example_reported_def example_out_def Let_def)
qed

definition example_snapshot :: "int node" where
  "example_snapshot = (case node_step example_wall example_env NodeMailbox example_reported of
     Inr (n, _) \<Rightarrow> n | _ \<Rightarrow> example_reported)"

lemma example_snapshot_run: "node_run (\<lambda>_ _. ''a'') example_env example_snapshot (tl example_out)"
proof -
  have "case node_step example_wall example_env NodeMailbox example_reported of
      Inr (_, fin) \<Rightarrow> \<not> fin | _ \<Rightarrow> False" "node_ready example_wall example_reported NodeMailbox"
    by code_simp+
  then show ?thesis
    using node_turn [OF example_reported_run, of example_wall NodeMailbox]
    by (auto simp: example_snapshot_def split: sum.splits)
qed

text \<open>A second message arrives and is in flight when the timer fires.\<close>

definition example_second :: "int node" where
  "example_second = example_snapshot\<lparr>n_mailbox := n_mailbox example_snapshot @ [to_a ''k'' 8]\<rparr>"

definition example_two :: "int node" where
  "example_two = (case node_step example_wall example_env NodeMailbox example_second of
     Inr (n, _) \<Rightarrow> n | _ \<Rightarrow> example_second)"

lemma example_two_run: "node_run (\<lambda>_ _. ''a'') example_env example_two (tl example_out)"
proof -
  have "polling example_snapshot" "length (n_mailbox example_snapshot) < NodeChannelCapacity"
    by code_simp+
  then have "node_run (\<lambda>_ _. ''a'') example_env example_second (tl example_out)"
    unfolding example_second_def
    by (intro node_poll [OF example_snapshot_run]) (simp_all add: to_a_def inc_def)
  moreover have "case node_step example_wall example_env NodeMailbox example_second of
      Inr (_, fin) \<Rightarrow> \<not> fin | _ \<Rightarrow> False" "node_ready example_wall example_second NodeMailbox"
    by code_simp+
  ultimately show ?thesis
    using node_turn [of _ _ example_second _ example_wall NodeMailbox]
    by (auto simp: example_two_def split: sum.splits)
qed

definition minute_later :: wall where
  "minute_later = \<lparr>unix_nanos = 60 * second, GlobalTimeOffset = 0\<rparr>"

definition example_saved :: "int node" where
  "example_saved = (case node_step minute_later example_env (NodeSnapshotTimer 3) example_two of
     Inr (n, _) \<Rightarrow> n | _ \<Rightarrow> example_two)"

lemma example_saved_step:
  "node_step minute_later example_env (NodeSnapshotTimer 3) example_two = Inr (example_saved, False)"
  by (simp add: example_saved_def)

lemma example_saved_ready: "node_ready minute_later example_two (NodeSnapshotTimer 3)"
  by code_simp

definition window_of :: "string \<Rightarrow> 'v node \<Rightarrow> (int \<times> string) list" where
  "window_of i n = (case map_Get (shards n) (ActorShard i) of
     None \<Rightarrow> [] | Some sh \<Rightarrow> map_entries (offsetActor (window sh)))"

lemma map_Get_entries: "map_Get m k = map_of (map_entries m) k"
  by (cases m) simp_all

definition commits :: "'v node \<Rightarrow> (int \<times> int) list" where
  "commits n = concat (map (\<lambda>c. case c of CallCommit s off \<Rightarrow> [(s, off)] | _ \<Rightarrow> []) (calls n))"

lemma in_commits [simp]: "(s, off) \<in> set (commits n) \<longleftrightarrow> CallCommit s off \<in> set (calls n)"
  by (force simp: commits_def split: call.splits)

lemma example_saved_commits:
  "commits example_saved = [(ActorShard ''a'', 8)]" "commits example_two = []"
  "window_of ''a'' example_two = [(7, ''a''), (8, ''a'')]" "window_of ''a'' example_saved = [(8, ''a'')]"
  by code_simp+

section \<open>Every reachable state\<close>

text \<open>
  C3: whatever the queue delivers and the store answers, a branch of the node's goroutine panics in
  exactly one case: the message it takes from its mailbox is a foreign report, one of the queue that
  poses as the report of an actor. The one way a branch can block forever is the node's own \<open>end\<close>
  channel being full.
\<close>

theorem node_panics_only_on_foreign_report:
  assumes "node_run L e n way" and "node_ready w n ev"
  shows "(node_step w e ev n = Inl Panic \<longleftrightarrow> ev = NodeMailbox \<and> foreign_report (hd (n_mailbox n))) \<and>
    (node_step w e ev n = Inl Blocked \<longrightarrow> n_end n)"
  using node_step_ok [of L n w ev e] node_run_ok [OF assms(1)] assms(2)
    foreign_report_handle [of "hd (n_mailbox n)" w e "n\<lparr>n_mailbox := tl (n_mailbox n)\<rparr>"]
  unfolding run_ok_def by auto

text \<open>The queue also delivers a record that poses as a report of readiness.\<close>

definition posing :: "int message" where
  "posing = (to_a ''p'' 8)\<lparr>Type := MessageTypeMemory, Command := CmdActorReady, Payload := PRaw []\<rparr>"

definition example_posed :: "int node" where
  "example_posed = example_idle\<lparr>n_mailbox := n_mailbox example_idle @ [posing]\<rparr>"

lemma example_posed_run: "node_run (\<lambda>_ _. ''a'') example_env example_posed []"
  unfolding example_posed_def
  by (rule node_poll [OF example_idle_run])
    (simp_all add: example_idle_def node_beforeStart_def startPoll_def startShard_def NewNode_def
      NodeChannelCapacity_def posing_def to_a_def inc_def Let_def)

theorem node_panics_only_on_foreign_report_witness:
  "node_step example_wall example_env NodeMailbox example_polled \<noteq> Inl Panic \<and>
   node_step example_wall example_env NodeMailbox example_posed = Inl Panic"
proof -
  have "\<not> foreign_report (hd (n_mailbox example_polled))" "foreign_report (hd (n_mailbox example_posed))"
    "node_ready example_wall example_posed NodeMailbox"
    by code_simp+
  then show ?thesis
    using node_panics_only_on_foreign_report [OF example_polled_run example_polled_ready]
      node_panics_only_on_foreign_report [OF example_posed_run] by blast
qed

text \<open>
  C1: every offset the node commits for a shard lies at or below all offsets of that shard that
  are still in flight after the step, so a restart from the committed offset sees them again.
\<close>

theorem node_commits_below_in_flight:
  assumes "node_run L e n way" and "node_ready w n ev" and "node_step w e ev n = Inr (n', fin)"
  shows "\<exists>new. calls n' = calls n @ new \<and> (\<forall>s c sh off. CallCommit s c \<in> set new \<longrightarrow>
    map_Get (shards n') s = Some sh \<longrightarrow> off \<in> in_flight (window sh) \<longrightarrow> c \<le> off)"
proof -
  have "safe e (n\<lparr>n_mailbox := n_mailbox n'\<rparr>) n'"
    using node_step_ok [of L n w ev e] node_run_ok [OF assms(1)] assms(2,3) unfolding run_ok_def by auto
  then show ?thesis unfolding safe_def commits_safe_def by simp blast
qed

theorem node_commits_below_in_flight_witness:
  "\<exists>c sh. CallCommit (ActorShard ''a'') c \<in> set (calls example_saved) \<and>
     map_Get (shards example_saved) (ActorShard ''a'') = Some sh \<and> 8 \<in> in_flight (window sh) \<and> c \<le> 8"
proof -
  obtain new where new: "calls example_saved = calls example_two @ new"
    "\<forall>s c sh off. CallCommit s c \<in> set new \<longrightarrow> map_Get (shards example_saved) s = Some sh \<longrightarrow>
      off \<in> in_flight (window sh) \<longrightarrow> c \<le> off"
    using node_commits_below_in_flight [OF example_two_run example_saved_ready example_saved_step]
    by blast
  have "(ActorShard ''a'', 8) \<in> set (commits example_saved)"
    "(ActorShard ''a'', 8) \<notin> set (commits example_two)"
    by (simp_all add: example_saved_commits del: in_commits)
  then have "CallCommit (ActorShard ''a'') 8 \<in> set new" using new(1) by simp
  moreover obtain sh where sh: "map_Get (shards example_saved) (ActorShard ''a'') = Some sh"
    "map_entries (offsetActor (window sh)) = [(8, ''a'')]"
    using example_saved_commits(4) by (auto simp: window_of_def split: option.splits)
  moreover have "8 \<in> in_flight (window sh)" using sh(2) by (simp add: in_flight_def map_Get_entries)
  ultimately show ?thesis using new by auto
qed

text \<open>
  C2: an offset in the window of a shard stays there, with the same actor, until a snapshot of
  that actor at or above the offset is in the store, as long as the node keeps the shard.
\<close>

theorem node_offset_leaves_when_stored:
  assumes "node_run L e n way" and "node_ready w n ev" and "node_step w e ev n = Inr (n', fin)"
    and "map_Get (shards n) s = Some sh" and "map_Get (offsetActor (window sh)) off = Some i"
    and "map_Get (shards n') s = Some sh'"
  shows "map_Get (offsetActor (window sh')) off = Some i \<or>
    map_Get (offsetActor (window sh')) off = None \<and> stored e (calls n') i off"
proof -
  have "safe e (n\<lparr>n_mailbox := n_mailbox n'\<rparr>) n'"
    using node_step_ok [of L n w ev e] node_run_ok [OF assms(1)] assms(2,3) unfolding run_ok_def by auto
  then show ?thesis using assms(4-6) unfolding safe_def by simp
qed

theorem node_offset_leaves_when_stored_witness:
  "stored example_env (calls example_saved) ''a'' 7"
proof -
  let ?s = "ActorShard ''a''"
  have "map_Get (shards example_two) ?s \<noteq> None" "map_Get (shards example_saved) ?s \<noteq> None"
    by code_simp+
  then obtain sh sh' where "map_Get (shards example_two) ?s = Some sh"
    "map_Get (shards example_saved) ?s = Some sh'"
    "map_Get (offsetActor (window sh)) 7 = Some ''a''" "map_Get (offsetActor (window sh')) 7 \<noteq> Some ''a''"
    using example_saved_commits(3,4) by (auto simp: window_of_def map_Get_entries)
  then show ?thesis
    using node_offset_leaves_when_stored [OF example_two_run example_saved_ready example_saved_step]
    by blast
qed

text \<open>
  C4: in every state the node reaches, each actor is listed by a shard it has, each shard it is
  registered for exists, and an offset in flight belongs to the receiver of that message.
\<close>

theorem node_maps_agree:
  assumes "node_run L e n way"
  shows "(\<forall>i a. map_Get (actors n) i = Some a \<longrightarrow> a_id (na_actor a) = i \<and>
      (\<exists>sh. map_Get (shards n) (ActorShard i) = Some sh \<and> set_Has i (shard_actors sh))) \<and>
    (\<forall>s. set_Has s (registerShards n) \<longrightarrow> map_Exist s (shards n)) \<and>
    (\<forall>s sh off i. map_Get (shards n) s = Some sh \<longrightarrow> map_Get (offsetActor (window sh)) off = Some i \<longrightarrow>
      i = L s off \<and> ActorShard i = s)"
  using node_run_ok [OF assms]
  unfolding run_ok_def node_inv_def actors_ok_def shards_ok_def window_ok_def by auto

theorem node_maps_agree_witness:
  "\<exists>sh. map_Get (shards example_snapshot) (ActorShard ''a'') = Some sh \<and> set_Has ''a'' (shard_actors sh)"
proof -
  have "map_Get (actors example_snapshot) ''a'' \<noteq> None" by code_simp
  then show ?thesis using node_maps_agree [OF example_snapshot_run] by blast
qed

text \<open>
  C27: every report that is on its way from an actor to the node carries the value its command
  announces, and a snapshot is one of its sender; so does every message with the type of reports that
  waits in the node's mailbox, unless it is a foreign report, which only the queue delivers.
\<close>

theorem node_reports_well_typed:
  assumes "node_run L e n way" and "m \<in> set (n_mailbox n) \<union> set way" and "Type m = MessageTypeMemory"
  shows "if foreign_report m then m \<in> set (n_mailbox n) \<and> m \<notin> set way
    else (Command m = CmdActorIdle \<longrightarrow> Payload m = PIdle) \<and>
      (Command m = CmdActorSnapshot \<longrightarrow> (\<exists>s. Payload m = PSnapshot s \<and> snap_ActorId s = ref_Id (Sender m))) \<and>
      (Command m = CmdActorAlive \<longrightarrow> (\<exists>t. Payload m = PAlive t)) \<and>
      (Command m = CmdActorReady \<longrightarrow> Payload m = PReady) \<and>
      (Command m = CmdActorStopped \<longrightarrow> Payload m = PStopped)"
proof (cases "foreign_report m")
  case True
  then show ?thesis
    using node_run_ok [OF assms(1)] assms(2) foreign_report_not_ok unfolding run_ok_def by auto
next
  case False
  then have "message_ok L m" using node_run_ok [OF assms(1)] assms(2) unfolding run_ok_def by blast
  then show ?thesis using assms(3) False by (simp add: message_ok_def)
qed

theorem node_reports_well_typed_witness:
  "\<exists>s. Payload (hd example_out) = PSnapshot s \<and> snap_ActorId s = ref_Id (Sender (hd example_out))"
proof -
  have m: "hd example_out \<in> set (n_mailbox example_reported)"
    by (simp add: example_reported_def Let_def)
  have typed: "\<not> foreign_report (hd example_out)" by code_simp
  have "Type (hd example_out) = MessageTypeMemory" "Command (hd example_out) = CmdActorSnapshot"
    by code_simp+
  then show ?thesis
    using node_reports_well_typed [OF example_reported_run, of "hd example_out"] m typed by simp
qed

text \<open>
  The set of disabled actors is empty in every state the node reaches, so the branch of
  \<open>Dispatcher\<close> that sends a message to the dead-letter queue never runs.
\<close>

theorem node_never_disables:
  assumes "node_run L e n way"
  shows "\<not> set_Has i (disableActors n)"
  using node_run_ok [OF assms] by (simp add: run_ok_def node_inv_def)

theorem node_never_disables_witness: "\<not> set_Has ''a'' (disableActors example_snapshot)"
  by (rule node_never_disables [OF example_snapshot_run])

section \<open>Shutting down\<close>

lemma drop_actor_actors [simp]:
  "map_Get (actors (drop_actor i n)) j = (if j = i then None else map_Get (actors n) j)"
  by (simp add: drop_actor_def Let_def split: option.split)

lemma snapshot_kept: "node_inv L n \<Longrightarrow> kept n (snapshot e i n)"
  using sound_snapshot [of L e n i] unfolding sound_def progress_def by blast

text \<open>
  C21: while the node is stopping, the report \<open>Stopped\<close> of its last actor ends it: the token is
  in the \<open>end\<close> channel and no actor is left. When the end timer has already put its token
  there, the node's goroutine, the only reader of the channel, blocks in the send forever.
\<close>

theorem last_stopped_ends_node:
  assumes "node_run L e n way" and "n_stopping n" and "map_Get (actors n) i = Some a"
    and "\<forall>j. j \<noteq> i \<longrightarrow> map_Get (actors n) j = None"
  shows "if n_end n then receiveStopped e i n = Inl Blocked
    else \<exists>n'. receiveStopped e i n = Inr n' \<and> n_end n' \<and> map_Length (actors n') = 0"
proof -
  have inv: "node_inv L n" using node_run_ok [OF assms(1)] by (simp add: run_ok_def)
  let ?m = "snapshot e i n"
  have m: "n_end ?m = n_end n" "n_stopping ?m" "\<forall>j. j \<noteq> i \<longrightarrow> map_Get (actors ?m) j = None"
    using snapshot_kept [OF inv, of e i] assms(2,4) by (simp_all add: kept_def)
  have "node_inv L ?m" using sound_snapshot [of L e n i] inv unfolding sound_def by blast
  then have "n_end (drop_actor i ?m) = n_end n" "n_stopping (drop_actor i ?m)"
    using drop_actor_ok [of L ?m i] m(1,2) by simp_all
  moreover have "map_Length (actors (drop_actor i ?m)) = 0" using m(3) by simp
  ultimately show ?thesis
    using assms(3) by (simp add: receiveStopped_def handleEnding_def Let_def)
qed

definition example_stopping :: "int node" where
  "example_stopping = (case node_step example_wall example_env NodeStop (example_running\<lparr>n_stop := True\<rparr>) of
     Inr (n, _) \<Rightarrow> n | _ \<Rightarrow> example_running)"

lemma example_stopping_run: "node_run (\<lambda>_ _. ''a'') example_env example_stopping []"
proof -
  have "case node_step example_wall example_env NodeStop (example_running\<lparr>n_stop := True\<rparr>) of
      Inr (_, fin) \<Rightarrow> \<not> fin | _ \<Rightarrow> False"
    by code_simp
  then show ?thesis
    using node_turn [OF node_signal [OF example_running_run], of example_wall NodeStop]
    by (auto simp: example_stopping_def split: sum.splits)
qed

theorem last_stopped_ends_node_witness:
  "\<exists>n. receiveStopped example_env ''a'' example_stopping = Inr n \<and> n_end n \<and> map_Length (actors n) = 0"
proof -
  have "n_stopping example_stopping" "\<not> n_end example_stopping"
    "map fst (map_entries (actors example_stopping)) = [''a'']"
    by code_simp+
  moreover then obtain a where "map_entries (actors example_stopping) = [(''a'', a)]" by auto
  ultimately show ?thesis
    using last_stopped_ends_node [OF example_stopping_run, of "''a''" a] by (simp add: map_Get_entries)
qed

section \<open>Messages that are lost\<close>

text \<open>
  A message for an actor of a type the node's factory does not know leaves no trace: it is
  not in flight and not sent to the dead-letter queue, so no later commit is held back by it.
\<close>

theorem unknown_type_leaves_no_trace:
  assumes "map_Get (actors n) (ref_Id (Receiver m)) = None"
    and "map_of (n_factory n) (ref_Type (Receiver m)) = None"
    and "map_Get (shards n) (ActorShard (ref_Id (Receiver m))) = Some sh"
    and "\<not> infl_Full (window sh) (Offset m)" and "\<not> set_Has (ref_Id (Receiver m)) (disableActors n)"
  shows "Dispatcher w e m n = Inr n"
  using assms by (simp add: Dispatcher_def startActor_def factory_New_def Let_def)

theorem unknown_type_leaves_no_trace_witness:
  "Dispatcher example_wall example_env
     ((to_a ''m'' 7)\<lparr>Receiver := \<lparr>ref_Type = ''u'', ref_Id = ''a''\<rparr>\<rparr>) example_idle = Inr example_idle"
proof -
  have "map_Get (shards example_idle) (ActorShard ''a'') \<noteq> None"
    "case map_Get (shards example_idle) (ActorShard ''a'') of Some sh \<Rightarrow> \<not> infl_Full (window sh) 7 | None \<Rightarrow> True"
    by code_simp+
  then obtain sh where sh: "map_Get (shards example_idle) (ActorShard ''a'') = Some sh"
    "\<not> infl_Full (window sh) 7" by auto
  show ?thesis
    by (rule unknown_type_leaves_no_trace [where sh = sh])
      (use sh in \<open>simp_all add: to_a_def inc_def\<close>,
       simp_all add: example_idle_def node_beforeStart_def startPoll_def startShard_def NewNode_def Let_def)
qed

text \<open>
  C22: a message that finds its actor paused enters the window although it is not sent; when the
  actor reports that it is ready, the node seeks back to the paused offset, but a message with a
  larger offset that is already in the node's mailbox is sent before the sought ones. A snapshot
  of the actor at the larger offset then completes the skipped offsets as well.
\<close>

theorem ready_lets_later_message_overtake:
  assumes "\<not> set_Has i (disableActors n)" and "map_Get (actors n) i = Some a"
    and "bv_Get (na_pause a) = (off, True)"
    and "\<not> na_stopping a" and "length (mailbox (na_actor a)) < mailbox_cap (na_actor a)"
    and "map_Get (shards n) (ActorShard i) = Some sh" and "\<not> IsEnabled (shard_pause sh)"
    and "set_Has (ActorShard i) (registerShards n)" and "ref_Id (Receiver m) = i" 
    and "off < Offset m" and "\<not> infl_Full (window sh) (Offset m)"
  shows "\<exists>n' a'. Dispatcher w e m (receiveReady e i n) = Inr n' \<and> map_Get (actors n') i = Some a' \<and>
    calls n' = calls n @ [CallSeek (ActorShard i) off] \<and> mailbox (na_actor a') = mailbox (na_actor a) @ [m]"
proof -
  let ?a = "a\<lparr>na_pause := Disable (na_pause a)\<rparr>"
  let ?n = "(set_actor i ?a n)\<lparr>calls := calls n @ [CallSeek (ActorShard i) off]\<rparr>"
  have "receiveReady e i n = ?n"
    using assms(2,3) by (simp add: receiveReady_def bv_Get_def)
  moreover have "Dispatcher w e m ?n = deliver (ActorShard i) m ?n"
    using assms(1,6-11) by (simp add: Dispatcher_def Let_def)
  moreover have "deliver (ActorShard i) m ?n =
      Inr (set_actor i (?a\<lparr>na_actor := (na_actor a)\<lparr>mailbox := mailbox (na_actor a) @ [m]\<rparr>\<rparr>)
        (set_shard (ActorShard i) (sh\<lparr>window := infl_Add (window sh) (Offset m) i\<rparr>) ?n))"
    using assms(3-6,9) by (simp add: deliver_def try_send_def bool_value_defs Let_def)
  ultimately show ?thesis by simp
qed

definition example_paused :: "int node" where
  "example_paused = (case map_Get (actors example_running) ''a'' of
     None \<Rightarrow> example_running
   | Some a \<Rightarrow> set_actor ''a'' (a\<lparr>na_pause := Enable 8 (na_pause a)\<rparr>) example_running)"

theorem ready_lets_later_message_overtake_witness:
  "\<exists>n' a'. Dispatcher example_wall example_env (to_a ''z'' 9) (receiveReady example_env ''a'' example_paused) = Inr n' \<and>
     map_Get (actors n') ''a'' = Some a' \<and>
     calls n' = calls example_paused @ [CallSeek (ActorShard ''a'') 8] \<and>
     last (mailbox (na_actor a')) = to_a ''z'' 9"
proof -
  have f: "\<not> set_Has ''a'' (disableActors example_paused)"
    "case map_Get (actors example_paused) ''a'' of None \<Rightarrow> False
     | Some a \<Rightarrow> bv_Get (na_pause a) = (8, True) \<and> \<not> na_stopping a \<and>
         length (mailbox (na_actor a)) < mailbox_cap (na_actor a)"
    "case map_Get (shards example_paused) (ActorShard ''a'') of None \<Rightarrow> False
     | Some sh \<Rightarrow> \<not> IsEnabled (shard_pause sh) \<and> \<not> infl_Full (window sh) 9"
    "set_Has (ActorShard ''a'') (registerShards example_paused)"
    by code_simp+
  obtain a where a: "map_Get (actors example_paused) ''a'' = Some a" "bv_Get (na_pause a) = (8, True)"
    "\<not> na_stopping a" "length (mailbox (na_actor a)) < mailbox_cap (na_actor a)"
    using f(2) by (auto split: option.splits)
  obtain sh where sh: "map_Get (shards example_paused) (ActorShard ''a'') = Some sh"
    "\<not> IsEnabled (shard_pause sh)" "\<not> infl_Full (window sh) 9"
    using f(3) by (auto split: option.splits)
  have m: "ref_Id (Receiver (to_a ''z'' 9)) = ''a''" "Offset (to_a ''z'' 9) = 9"
    by (simp_all add: to_a_def inc_def)
  obtain n' a' where "Dispatcher example_wall example_env (to_a ''z'' 9) (receiveReady example_env ''a'' example_paused) = Inr n'"
    "map_Get (actors n') ''a'' = Some a'"
    "calls n' = calls example_paused @ [CallSeek (ActorShard ''a'') 8]"
    "mailbox (na_actor a') = mailbox (na_actor a) @ [to_a ''z'' 9]"
    using ready_lets_later_message_overtake [OF f(1) a sh(1,2) f(4) m(1), of example_wall example_env]
      sh(3) m(2) by fastforce
  then show ?thesis by auto
qed

section \<open>The first message of a partition\<close>

text \<open>
  A message with offset 0 is dispatched to its new actor, whose idle branch runs before it handles
  the message; the node stores the snapshot of the untouched actor.
\<close>

definition zero_polled :: "int node" where
  "zero_polled = example_idle\<lparr>n_mailbox := n_mailbox example_idle @ [to_a ''m'' 0]\<rparr>"

definition after_turn :: "wall \<Rightarrow> node_event \<Rightarrow> int node \<Rightarrow> int node" where
  "after_turn w ev n = (case node_step w example_env ev n of Inr (n', _) \<Rightarrow> n' | _ \<Rightarrow> n)"

definition can_step :: "wall \<Rightarrow> node_event \<Rightarrow> int node \<Rightarrow> bool" where
  "can_step w ev n \<longleftrightarrow> node_ready w n ev \<and>
     (case node_step w example_env ev n of Inr (_, fin) \<Rightarrow> \<not> fin | _ \<Rightarrow> False)"

lemma after_turn_run:
  "node_run L example_env n way \<Longrightarrow> can_step w ev n \<Longrightarrow> node_run L example_env (after_turn w ev n) way"
  using node_turn [of L example_env n way w ev] by (auto simp: can_step_def after_turn_def split: sum.splits)

definition zero_begun :: "int node" where
  "zero_begun = fst (turn ''a'' OnBegin (after_turn example_wall NodeMailbox zero_polled))"

definition zero_out :: "int message list" where
  "zero_out = snd (turn ''a'' OnIdle zero_begun)"

definition zero_reported :: "int node" where
  "zero_reported = (let n = fst (turn ''a'' OnIdle zero_begun)
     in n\<lparr>n_mailbox := n_mailbox n @ [hd zero_out]\<rparr>)"

definition zero_saved :: "int node" where
  "zero_saved = after_turn minute_later (NodeSnapshotTimer 3) (after_turn example_wall NodeMailbox zero_reported)"

lemma zero_saved_run: "node_run (\<lambda>_ _. ''a'') example_env zero_saved (tl zero_out)"
proof -
  have ready: "can_step example_wall NodeMailbox zero_polled"
    "can_turn ''a'' OnBegin (after_turn example_wall NodeMailbox zero_polled)"
    "snd (turn ''a'' OnBegin (after_turn example_wall NodeMailbox zero_polled)) = []"
    "can_turn ''a'' OnIdle zero_begun" "zero_out \<noteq> []"
    "length (n_mailbox (fst (turn ''a'' OnIdle zero_begun))) < NodeChannelCapacity"
    "can_step example_wall NodeMailbox zero_reported"
    "can_step minute_later (NodeSnapshotTimer 3) (after_turn example_wall NodeMailbox zero_reported)"
    by code_simp+
  have "node_run (\<lambda>_ _. ''a'') example_env zero_polled []"
    unfolding zero_polled_def
    by (rule node_poll [OF example_idle_run])
      (simp_all add: example_idle_def node_beforeStart_def startPoll_def startShard_def NewNode_def
        NodeChannelCapacity_def to_a_def inc_def Let_def)
  then have "node_run (\<lambda>_ _. ''a'') example_env zero_begun []"
    using turn_run [OF after_turn_run [OF _ ready(1)] ready(2)] ready(3) by (simp add: zero_begun_def)
  then have "node_run (\<lambda>_ _. ''a'') example_env (fst (turn ''a'' OnIdle zero_begun)) ([] @ hd zero_out # tl zero_out)"
    using turn_run [OF _ ready(4)] ready(5) by (fastforce simp: zero_out_def)
  then have "node_run (\<lambda>_ _. ''a'') example_env zero_reported (tl zero_out)"
    using node_report ready(6) unfolding zero_reported_def Let_def by fastforce
  then show ?thesis
    unfolding zero_saved_def by (intro after_turn_run ready)
qed

text \<open>
  C18: the offset of an actor that has handled nothing is 0, the offset of the first message of a
  partition, so its idle snapshot completes that message: there is a run in which the node commits
  offset 1 while message 0 waits in the mailbox of its actor, and no handler has run.
\<close>

theorem first_message_committed_unhandled:
  "\<exists>n way a. node_run (\<lambda>_ _. ''a'') example_env n way \<and> (ActorShard ''a'', 1) \<in> set (commits n) \<and>
     map_Get (actors n) ''a'' = Some a \<and> mailbox (na_actor a) = [to_a ''m'' 0] \<and>
     a_state (na_actor a) = default \<and> window_of ''a'' n = []"
proof -
  have "case map_Get (actors zero_saved) ''a'' of
      Some a \<Rightarrow> mailbox (na_actor a) = [to_a ''m'' 0] \<and> a_state (na_actor a) = default | None \<Rightarrow> False"
    "window_of ''a'' zero_saved = []" "(ActorShard ''a'', 1) \<in> set (commits zero_saved)"
    by code_simp+
  then show ?thesis using zero_saved_run by (force split: option.splits)
qed

end
