(* ===== verification/ActorContext.thy ===== *)
theory ActorContext
  imports ActorMail
begin

text \<open>
  The contexts of core/context.go that a handler derives from the context of its actor
  (\<open>WithTimeout\<close>, \<open>WithDeadline\<close>), as Go's package context documents them: a derived context is
  done when its own cancel function was called, when its deadline has passed, or when its
  parent is done. The parent is \<open>actor.ctx\<close>, which \<open>finish\<close> cancels.
\<close>

section \<open>Derived contexts\<close>

record derived_context =
  dc_deadline :: int
  dc_cancelled :: bool

definition WithDeadline :: "int \<Rightarrow> derived_context" where
  "WithDeadline t = \<lparr>dc_deadline = t, dc_cancelled = False\<rparr>"

definition WithTimeout :: "wall \<Rightarrow> int \<Rightarrow> derived_context" where
  "WithTimeout w t = WithDeadline (unix_nanos w + t)"

definition cancel_derived :: "derived_context \<Rightarrow> derived_context" where
  "cancel_derived c = c\<lparr>dc_cancelled := True\<rparr>"

definition derived_done :: "wall \<Rightarrow> 'v actor \<Rightarrow> derived_context \<Rightarrow> bool" where
  "derived_done w a c \<longleftrightarrow> cancelled a \<or> dc_cancelled c \<or> dc_deadline c \<le> unix_nanos w"

section \<open>Contexts end with their actor\<close>

lemma trigger_cancelled [simp]:
  "cancelled (fst (trigger_loop w a)) = cancelled a" "phase (fst (trigger_loop w a)) = phase a"
  using trigger_loop_frame [of w a] by auto

lemma actor_step_cancelled:
  assumes "cancelled a \<longleftrightarrow> phase a = Exited" and "actor_ready w a ev"
  shows "cancelled (fst (actor_step w ev a)) \<longleftrightarrow> phase (fst (actor_step w ev a)) = Exited"
  using assms
  by (cases ev) (auto simp: unwind_handle finish_def Let_def resetIdle_def alive_def handleTimerTrigger_def
      startStopping_def actor_beforeStop_def case_prod_beta)

lemma actor_run_cancelled: "actor_run h cfg w a out \<Longrightarrow> cancelled a \<longleftrightarrow> phase a = Exited"
proof (induction rule: actor_run.induct)
  case (run_start w a out)
  then show ?case
    using not_started_iff [OF actor_run_inv [OF run_start.hyps]]
    by (auto simp: actor_Start_def actor_prepare_def actor_beforeStart_def actor_afterStart_def
        IsStatus_def GetStatus_def Let_def)
next
  case (run_step w a out ev b new)
  then show ?case using actor_step_cancelled [of a w ev] by simp
qed (auto simp: FactoryWarp_def NewActor_def actor_Stop_def try_send_def Let_def split: if_splits)

text \<open>
  A context that a handler derived is done exactly when it was cancelled, its deadline has
  passed, or the goroutine of the actor has exited: work that outlives its handler ends with the
  actor, and the stop signal and the draining before the exit do not end it.
\<close>

theorem contexts_end_with_actor:
  assumes "actor_run h cfg w a out"
  shows "derived_done w a (if called then cancel_derived (WithTimeout v t) else WithTimeout v t) \<longleftrightarrow>
    phase a = Exited \<or> called \<or> unix_nanos v + t \<le> unix_nanos w"
  using actor_run_cancelled [OF assms]
  by (auto simp: derived_done_def WithTimeout_def WithDeadline_def cancel_derived_def)

theorem contexts_end_with_actor_witness:
  "derived_done example_wall (example_stopped NewHandlers :: int actor) (WithTimeout example_wall second)"
proof -
  obtain out where "actor_run (NewHandlers :: int handlers) example_config example_wall (example_stopped NewHandlers) out"
    using example_stopped_run(1) by blast
  from contexts_end_with_actor [OF this, of False example_wall second] show ?thesis
    using example_stopped_run(2) [of "NewHandlers :: int handlers"] by simp
qed

end
