(* ===== verification/GoStrings.thy ===== *)
theory GoStrings
  imports Prelude
begin

text \<open>
  What the program uses of Go's strings: a string is its bytes (a char list), read as UTF-8.
  \<open>decode_rune\<close> is \<open>utf8.DecodeRuneInString\<close>, an invalid byte being the rune
  U+FFFD of width one; \<open>ValidString\<close>, \<open>TrimSpace\<close> compared with the empty
  string, and \<open>strings.Split\<close> at a one-byte separator.
\<close>

section \<open>UTF-8\<close>

definition byte :: "char \<Rightarrow> int" where
  "byte c = of_char c"

definition cont :: "int \<Rightarrow> bool" where
  "cont b \<longleftrightarrow> 128 \<le> b \<and> b \<le> 191"

definition rune_error :: int where "rune_error = 65533"

text \<open>
  The rune at the front, its width, and whether the encoding is valid: the accepted ranges of
  the second byte exclude overlong forms, surrogates and values above U+10FFFF.
\<close>

definition second_ok :: "int \<Rightarrow> int \<Rightarrow> bool" where
  "second_ok a b \<longleftrightarrow>
     (if a = 224 then 160 \<le> b \<and> b \<le> 191 else if a = 237 then 128 \<le> b \<and> b \<le> 159
      else if a = 240 then 144 \<le> b \<and> b \<le> 191 else if a = 244 then 128 \<le> b \<and> b \<le> 143
      else cont b)"

definition bad_rune :: "int \<times> nat \<times> bool" where
  "bad_rune = (rune_error, 1, False)"

fun rune2 :: "int \<Rightarrow> int list \<Rightarrow> int \<times> nat \<times> bool" where
  "rune2 a (b # _) = (if cont b then ((a - 192) * 64 + (b - 128), 2, True) else bad_rune)"
| "rune2 a _ = bad_rune"

fun rune3 :: "int \<Rightarrow> int list \<Rightarrow> int \<times> nat \<times> bool" where
  "rune3 a (b # c # _) =
     (if second_ok a b \<and> cont c
      then ((a - 224) * 4096 + (b - 128) * 64 + (c - 128), 3, True) else bad_rune)"
| "rune3 a _ = bad_rune"

fun rune4 :: "int \<Rightarrow> int list \<Rightarrow> int \<times> nat \<times> bool" where
  "rune4 a (b # c # d # _) =
     (if second_ok a b \<and> cont c \<and> cont d
      then ((a - 240) * 262144 + (b - 128) * 4096 + (c - 128) * 64 + (d - 128), 4, True) else bad_rune)"
| "rune4 a _ = bad_rune"

fun decode_rune :: "int list \<Rightarrow> int \<times> nat \<times> bool" where
  "decode_rune [] = (rune_error, 0, False)"
| "decode_rune (a # bs) =
     (if a < 128 then (a, 1, True)
      else if 194 \<le> a \<and> a \<le> 223 then rune2 a bs
      else if 224 \<le> a \<and> a \<le> 239 then rune3 a bs
      else if 240 \<le> a \<and> a \<le> 244 then rune4 a bs
      else bad_rune)"

lemma rune_widths [simp]:
  "0 < fst (snd bad_rune)" "0 < fst (snd (rune2 a bs))" "0 < fst (snd (rune3 a bs))"
  "0 < fst (snd (rune4 a bs))"
proof -
  show "0 < fst (snd bad_rune)" by (simp add: bad_rune_def)
  then show "0 < fst (snd (rune2 a bs))" by (cases "(a, bs)" rule: rune2.cases) simp_all
  from \<open>0 < fst (snd bad_rune)\<close> show "0 < fst (snd (rune3 a bs))"
    by (cases "(a, bs)" rule: rune3.cases) simp_all
  from \<open>0 < fst (snd bad_rune)\<close> show "0 < fst (snd (rune4 a bs))"
    by (cases "(a, bs)" rule: rune4.cases) simp_all
qed

lemma decode_rune_width: "bs \<noteq> [] \<Longrightarrow> 0 < fst (snd (decode_rune bs))"
  by (cases bs) simp_all

text \<open>Ranging over a string: its runes and the validity of each.\<close>

function runes :: "int list \<Rightarrow> (int \<times> bool) list" where
  "runes bs = (if bs = [] then []
     else let (r, n, ok) = decode_rune bs in (r, ok) # runes (drop n bs))"
  by pat_completeness auto
termination
proof (relation "measure length")
  fix bs :: "int list" and x r y n ok
  assume "bs \<noteq> []" "x = decode_rune bs" "(r, y) = x" "(n, ok) = y"
  then have "0 < n" using decode_rune_width [of bs] by (metis fst_conv snd_conv)
  then show "(drop n bs, bs) \<in> measure length" using \<open>bs \<noteq> []\<close> by simp
qed simp

declare runes.simps [simp del, code del]

lemma runes_Nil [simp]: "runes [] = []"
  by (simp add: runes.simps)

lemma runes_ascii [simp]: "a < 128 \<Longrightarrow> runes (a # bs) = (a, True) # runes bs"
  by (subst runes.simps) simp

text \<open>Code equations that recurse under a constructor, so that evaluation ends.\<close>

lemma runes_code [code]:
  "runes [] = []"
  "runes (a # bs) = (case decode_rune (a # bs) of (r, n, ok) \<Rightarrow> (r, ok) # runes (drop n (a # bs)))"
  by (simp, subst runes.simps, simp)

definition string_runes :: "string \<Rightarrow> int list" where
  "string_runes s = map fst (runes (map byte s))"

definition ValidString :: "string \<Rightarrow> bool" where
  "ValidString s \<longleftrightarrow> list_all snd (runes (map byte s))"

text \<open>An ASCII byte is a rune of its own wherever it occurs: continuation bytes are not ASCII.\<close>

lemma second_ok_ge: "second_ok a b \<Longrightarrow> 128 \<le> b"
  by (auto simp: second_ok_def cont_def split: if_splits)

lemma wide_not_ascii:
  "128 \<le> a \<Longrightarrow> b \<in> set (take (fst (snd (rune2 a bs))) (a # bs)) \<Longrightarrow> 128 \<le> b"
  "128 \<le> a \<Longrightarrow> b \<in> set (take (fst (snd (rune3 a bs))) (a # bs)) \<Longrightarrow> 128 \<le> b"
  "128 \<le> a \<Longrightarrow> b \<in> set (take (fst (snd (rune4 a bs))) (a # bs)) \<Longrightarrow> 128 \<le> b"
  subgoal
    by (cases "(a, bs)" rule: rune2.cases) (auto simp: bad_rune_def cont_def split: if_splits)
  subgoal
    by (cases "(a, bs)" rule: rune3.cases)
      (auto simp: bad_rune_def cont_def numeral_3_eq_3 dest: second_ok_ge split: if_splits)
  subgoal
    by (cases "(a, bs)" rule: rune4.cases)
      (auto simp: bad_rune_def cont_def eval_nat_numeral dest: second_ok_ge split: if_splits)
  done

lemma ascii_rune:
  assumes "b \<in> set (take (fst (snd (decode_rune bs))) bs)" and "b < 128"
  shows "fst (decode_rune bs) = b"
proof (cases bs)
  case (Cons a as)
  show ?thesis
  proof (cases "a < 128")
    case True
    then show ?thesis using assms(1) Cons by simp
  next
    case False
    then have "128 \<le> b"
      using assms(1) Cons wide_not_ascii [of a b as] by (auto simp: bad_rune_def split: if_splits)
    then show ?thesis using assms(2) by simp
  qed
qed (use assms in simp)

lemma ascii_in_runes_bytes: "b \<in> set bs \<Longrightarrow> b < 128 \<Longrightarrow> b \<in> fst ` set (runes bs)"
proof (induction bs rule: runes.induct)
  case (1 bs)
  obtain r n ok where d: "decode_rune bs = (r, n, ok)" by (cases "decode_rune bs") auto
  have ne: "bs \<noteq> []" using 1(2) by auto
  have eq: "runes bs = (r, ok) # runes (drop n bs)" using ne d by (subst runes.simps) simp
  have "set bs = set (take n bs) \<union> set (drop n bs)" by (metis append_take_drop_id set_append)
  then consider "b \<in> set (take n bs)" | "b \<in> set (drop n bs)" using 1(2) by blast
  then show ?case
  proof cases
    case 1
    then show ?thesis using ascii_rune [of b bs] d \<open>b < 128\<close> eq by simp
  next
    case 2
    then show ?thesis using "1.IH" [OF ne _ _ _ _] d \<open>b < 128\<close> eq by (metis image_insert insertI2 list.set(2))
  qed
qed

lemma ascii_in_runes: "c \<in> set s \<Longrightarrow> byte c < 128 \<Longrightarrow> byte c \<in> set (string_runes s)"
  using ascii_in_runes_bytes [of "byte c" "map byte s"] by (simp add: string_runes_def)

section \<open>Blank strings\<close>

definition IsSpace :: "int \<Rightarrow> bool" where
  "IsSpace r \<longleftrightarrow> r \<in> {9, 10, 11, 12, 13, 32, 133, 160, 5760, 8232, 8233, 8239, 8287, 12288} \<or>
     8192 \<le> r \<and> r \<le> 8202"

text \<open>\<open>strings.TrimSpace(s) == ""\<close>: every rune of the string is white space.\<close>

definition blank :: "string \<Rightarrow> bool" where
  "blank s \<longleftrightarrow> list_all IsSpace (string_runes s)"

lemma blank_Nil [simp]: "blank []"
  by (simp add: blank_def string_runes_def)

lemma ValidString_ascii: "\<forall>c \<in> set s. byte c < 128 \<Longrightarrow> ValidString s"
  by (induction s) (simp_all add: ValidString_def)

lemma string_runes_ascii: "\<forall>c \<in> set s. byte c < 128 \<Longrightarrow> string_runes s = map byte s"
  by (induction s) (simp_all add: string_runes_def)

section \<open>Splitting\<close>

fun split_at :: "char \<Rightarrow> string \<Rightarrow> string list" where
  "split_at sep [] = [[]]"
| "split_at sep (c # s) =
     (if c = sep then [] # split_at sep s
      else case split_at sep s of p # ps \<Rightarrow> (c # p) # ps | [] \<Rightarrow> [[c]])"

fun join_with :: "string \<Rightarrow> string list \<Rightarrow> string" where
  "join_with sep [] = []"
| "join_with sep [p] = p"
| "join_with sep (p # ps) = p @ sep @ join_with sep ps"

lemma split_at_ne [simp]: "split_at sep s \<noteq> []"
  by (induction s) (auto split: list.splits)

lemma join_Cons: "ps \<noteq> [] \<Longrightarrow> join_with sep (p # ps) = p @ sep @ join_with sep ps"
  by (cases ps) simp_all

lemma join_split [simp]: "join_with [sep] (split_at sep s) = s"
proof (induction s)
  case (Cons c s)
  obtain p ps where p: "split_at sep s = p # ps" using split_at_ne by (meson neq_Nil_conv)
  then show ?case
    using Cons by (cases ps) (auto simp: join_Cons)
qed simp

lemma split_no_sep: "p \<in> set (split_at sep s) \<Longrightarrow> sep \<notin> set p"
  by (induction s arbitrary: p) (force split: list.splits if_splits)+

section \<open>Decimal numbers\<close>

text \<open>\<open>strconv.FormatInt\<close> in base ten.\<close>

definition digit :: "nat \<Rightarrow> char" where
  "digit d = char_of (48 + d)"

function decimal :: "nat \<Rightarrow> string" where
  "decimal n = (if n < 10 then [digit n] else decimal (n div 10) @ [digit (n mod 10)])"
  by pat_completeness auto
termination
  by (relation "measure id") auto

declare decimal.simps [simp del]

definition FormatInt :: "int \<Rightarrow> string" where
  "FormatInt z = (if z < 0 then CHR ''-'' # decimal (nat (- z)) else decimal (nat z))"

text \<open>Reading decimal digits, as \<open>strconv.ParseInt\<close> does after the sign.\<close>

fun read_decimal :: "string \<Rightarrow> nat \<Rightarrow> nat option" where
  "read_decimal [] acc = Some acc"
| "read_decimal (c # s) acc =
     (let d = (of_char c :: nat) in if 48 \<le> d \<and> d \<le> 57 then read_decimal s (acc * 10 + (d - 48)) else None)"

lemma of_char_digit: "d < 10 \<Longrightarrow> of_char (digit d) = (48 + d :: nat)"
  by (simp add: digit_def)

lemma read_decimal_append:
  "read_decimal (s @ t) acc = (case read_decimal s acc of None \<Rightarrow> None | Some a \<Rightarrow> read_decimal t a)"
  by (induction s arbitrary: acc) (auto simp: Let_def)

lemma read_decimal_decimal: "read_decimal (decimal n) 0 = Some n"
proof (induction n rule: decimal.induct)
  case (1 n)
  show ?case
  proof (cases "n < 10")
    case True
    then show ?thesis by (subst decimal.simps) (simp add: of_char_digit Let_def)
  next
    case False
    then show ?thesis
      using 1 [OF False] by (subst decimal.simps) (simp add: read_decimal_append of_char_digit Let_def)
  qed
qed

end
