(* ===== verification/Json.thy ===== *)
theory Json
  imports GoStrings
begin

text \<open>
  What the program uses of encoding/json: the quoting of strings and integers, and a reader of
  JSON texts with the stages of the library: a scanner that checks the whole text (here tokens
  and a stack of open arrays and objects), and values of which the callers pick what they need.
  A text is a Go string, read as UTF-8. Reading and quoting are inverse on valid UTF-8.
\<close>

section \<open>Chunks of UTF-8\<close>

text \<open>The runes of a string, whether each is valid, and its bytes.\<close>

lemma decode_rune_advances: "(r, n, ok) = decode_rune (map byte s) \<Longrightarrow> s \<noteq> [] \<Longrightarrow> 0 < n"
  using decode_rune_width [of "map byte s"] by (metis fst_conv snd_conv map_is_Nil_conv)

function chunks :: "string \<Rightarrow> (int \<times> bool \<times> string) list" where
  "chunks s = (if s = [] then []
     else case decode_rune (map byte s) of (r, n, ok) \<Rightarrow> (r, ok, take n s) # chunks (drop n s))"
  by pat_completeness auto
termination
  by (relation "measure length") (auto dest: decode_rune_advances)

declare chunks.simps [simp del, code del]

lemma chunks_Nil [simp]: "chunks [] = []"
  by (simp add: chunks.simps)

lemma chunks_code [code]:
  "chunks [] = []"
  "chunks (c # s) = (case decode_rune (map byte (c # s)) of
     (r, n, ok) \<Rightarrow> (r, ok, take n (c # s)) # chunks (drop n (c # s)))"
  by (simp, subst chunks.simps, simp)

lemma chunks_runes: "runes (map byte s) = map (\<lambda>(r, ok, b). (r, ok)) (chunks s)"
proof (induction s rule: chunks.induct)
  case (1 s)
  show ?case
  proof (cases "s = []")
    case False
    then show ?thesis
      using 1 [OF False] by (subst runes.simps, subst chunks.simps) (auto simp: drop_map split: prod.split)
  qed simp
qed

lemma concat_chunks: "concat (map (\<lambda>(r, ok, b). b) (chunks s)) = s"
proof (induction s rule: chunks.induct)
  case (1 s)
  then show ?case by (subst chunks.simps) (auto split: prod.split)
qed

lemma ValidString_chunks: "ValidString s \<longleftrightarrow> (\<forall>(r, ok, b) \<in> set (chunks s). ok)"
  by (auto simp: ValidString_def chunks_runes list_all_iff)

text \<open>A valid chunk is an ASCII byte or consists of bytes above; three bytes are determined by their rune.\<close>

lemma byte_nat: "byte c = int (of_char c)"
  by (simp add: byte_def of_nat_of_char)

lemma byte_range [simp]: "0 \<le> byte c" "byte c < 256" "byte c \<le> 255"
proof -
  show "0 \<le> byte c" "byte c < 256" using nat_of_char_less_256 [of c] by (simp_all add: byte_nat)
  then show "byte c \<le> 255" by simp
qed

lemma char_of_byte [simp]: "char_of (byte c) = c"
  by (simp add: byte_def)

definition chunk_ok :: "int \<Rightarrow> string \<Rightarrow> bool" where
  "chunk_ok r b \<longleftrightarrow> (if r < 128 then 0 \<le> r \<and> b = [char_of r] else \<forall>c \<in> set b. 128 \<le> byte c) \<and>
     (r = 8232 \<longrightarrow> b = [CHR 0xE2, CHR 0x80, CHR 0xA8]) \<and>
     (r = 8233 \<longrightarrow> b = [CHR 0xE2, CHR 0x80, CHR 0xA9])"

lemma byte_inj [simp]: "byte c = byte d \<longleftrightarrow> c = d"
  by (metis char_of_byte)

lemma separator_bytes:
  "byte c = 226 \<longleftrightarrow> c = CHR 0xE2" "byte c = 128 \<longleftrightarrow> c = CHR 0x80"
  "byte c = 168 \<longleftrightarrow> c = CHR 0xA8" "byte c = 169 \<longleftrightarrow> c = CHR 0xA9"
proof -
  have "byte (CHR 0xE2) = 226" "byte (CHR 0x80) = 128" "byte (CHR 0xA8) = 168" "byte (CHR 0xA9) = 169"
    by (simp_all add: byte_def)
  then show "byte c = 226 \<longleftrightarrow> c = CHR 0xE2" "byte c = 128 \<longleftrightarrow> c = CHR 0x80"
    "byte c = 168 \<longleftrightarrow> c = CHR 0xA8" "byte c = 169 \<longleftrightarrow> c = CHR 0xA9"
    by (metis byte_inj)+
qed

lemma three_digits:
  fixes x' y' z' x y z :: int
  assumes "x' * 4096 + y' * 64 + z' = x * 4096 + y * 64 + z"
    and "0 \<le> y" "y < 64" "0 \<le> z" "z < 64" "0 \<le> y'" "y' < 64" "0 \<le> z'" "z' < 64"
  shows "x' = x \<and> y' = y \<and> z' = z"
proof -
  have "x' = x" using assms by linarith
  moreover from this have "y' = y" using assms by linarith
  ultimately show ?thesis using assms(1) by simp
qed

lemma decode_rune_chunk_ok:
  assumes "decode_rune (map byte s) = (r, n, True)"
  shows "chunk_ok r (take n s)"
proof (cases s)
  case (Cons a t)
  have a: "0 \<le> byte a" "byte a < 256" by simp_all
  consider "byte a < 128" | "194 \<le> byte a" "byte a \<le> 223" | "224 \<le> byte a" "byte a \<le> 239"
    | "240 \<le> byte a" "byte a \<le> 244"
    using assms Cons by (auto simp: bad_rune_def split: if_splits)
  then show ?thesis
  proof cases
    case 1
    then show ?thesis using assms Cons by (auto simp: chunk_ok_def)
  next
    case 2
    then obtain b u where t: "t = b # u" using assms Cons by (cases t) (auto simp: bad_rune_def)
    then show ?thesis
      using 2 assms Cons by (auto simp: chunk_ok_def cont_def bad_rune_def numeral_2_eq_2 split: if_splits)
  next
    case 3
    then obtain b c u where t: "t = b # c # u" 
      using assms Cons by (cases t; cases "tl t") (auto simp: bad_rune_def)
    then have ok: "second_ok (byte a) (byte b)" "cont (byte c)" "n = 3"
      "r = (byte a - 224) * 4096 + (byte b - 128) * 64 + (byte c - 128)"
      using 3 assms Cons by (auto simp: bad_rune_def split: if_splits)
    then have b: "128 \<le> byte b" "byte b \<le> 191" "128 \<le> byte c" "byte c \<le> 191"
      by (auto simp: second_ok_def cont_def split: if_splits)
    have "byte a = 226 \<and> byte b = 128 \<and> byte c = 168" if "r = 8232"
    proof -
      have "byte a - 224 = 2 \<and> byte b - 128 = 0 \<and> byte c - 128 = 40"
        by (rule three_digits) (use that ok(4) b in linarith)+
      then show ?thesis by simp
    qed
    moreover have "byte a = 226 \<and> byte b = 128 \<and> byte c = 169" if "r = 8233"
    proof -
      have "byte a - 224 = 2 \<and> byte b - 128 = 0 \<and> byte c - 128 = 41"
        by (rule three_digits) (use that ok(4) b in linarith)+
      then show ?thesis by simp
    qed
    moreover have "128 \<le> r"
      using ok(1,4) 3 b by (auto simp: second_ok_def split: if_splits)
    ultimately show ?thesis
      using Cons t ok(3) b 3 by (auto simp: chunk_ok_def numeral_3_eq_3 separator_bytes)
  next
    case 4
    then obtain b c d u where t: "t = b # c # d # u" 
      using assms Cons by (cases t; cases "tl t"; cases "tl (tl t)") (auto simp: bad_rune_def)
    then have ok: "second_ok (byte a) (byte b)" "cont (byte c)" "cont (byte d)" "n = 4"
      "r = (byte a - 240) * 262144 + (byte b - 128) * 4096 + (byte c - 128) * 64 + (byte d - 128)"
      using 4 assms Cons by (auto simp: bad_rune_def split: if_splits)
    then have b: "128 \<le> byte b" "128 \<le> byte c" "128 \<le> byte d" and "byte a = 240 \<longrightarrow> 144 \<le> byte b"
      by (auto simp: second_ok_def cont_def split: if_splits)
    then have "65536 \<le> r" using 4 ok(5) by (cases "byte a = 240") auto
    then show ?thesis using Cons t ok(4) b 4 by (auto simp: chunk_ok_def eval_nat_numeral)
  qed
qed (use assms in simp)

lemma chunks_ok:
  assumes "(r, True, b) \<in> set (chunks s)"
  shows "chunk_ok r b"
  using assms
proof (induction s rule: chunks.induct)
  case (1 s)
  obtain r' n ok where d: "decode_rune (map byte s) = (r', n, ok)" by (cases "decode_rune (map byte s)") auto
  show ?case
  proof (cases "s = []")
    case False
    then have "chunks s = (r', ok, take n s) # chunks (drop n s)" using d by (subst chunks.simps) simp
    then show ?thesis
      using 1(1) [OF False d [symmetric] refl] 1(2) d by (auto dest: decode_rune_chunk_ok)
  qed (use 1 in simp)
qed

section \<open>Strings\<close>

definition hex_digit :: "int \<Rightarrow> char" where
  "hex_digit d = char_of (if d < 10 then 48 + d else 87 + d)"

definition hex_value :: "char \<Rightarrow> int option" where
  "hex_value c = (let b = byte c in
     if 48 \<le> b \<and> b \<le> 57 then Some (b - 48) else if 97 \<le> b \<and> b \<le> 102 then Some (b - 87)
     else if 65 \<le> b \<and> b \<le> 70 then Some (b - 55) else None)"

definition backslash :: char where "backslash = CHR 0x5C"
definition quotation :: char where "quotation = CHR 0x22"

text \<open>
  \<open>appendString\<close> with the escapes for HTML: an ASCII byte, an invalid byte, the two line
  separators of Unicode, and every other rune as it is.
\<close>

definition short_escapes :: "(char \<times> char) list" where
  "short_escapes = [(quotation, quotation), (backslash, backslash), (CHR 0x08, CHR ''b''),
     (CHR 0x0C, CHR ''f''), (CHR 0x0A, CHR ''n''), (CHR 0x0D, CHR ''r''), (CHR 0x09, CHR ''t'')]"

definition quote_ascii :: "char \<Rightarrow> string" where
  "quote_ascii c = (case map_of short_escapes c of
       Some e \<Rightarrow> [backslash, e]
     | None \<Rightarrow>
         if byte c < 32 \<or> c \<in> {CHR ''<'', CHR ''>'', CHR ''&''}
         then [backslash, CHR ''u'', CHR ''0'', CHR ''0'', hex_digit (byte c div 16), hex_digit (byte c mod 16)]
         else [c])"

fun quote_chunk :: "int \<times> bool \<times> string \<Rightarrow> string" where
  "quote_chunk (r, ok, b) =
     (if \<not> ok then backslash # ''ufffd''
      else if r < 128 then concat (map quote_ascii b)
      else if r = 8232 \<or> r = 8233 then backslash # ''u202'' @ [hex_digit (r mod 16)]
      else b)"

definition quote :: "string \<Rightarrow> string" where
  "quote s = quotation # concat (map quote_chunk (chunks s)) @ [quotation]"

text \<open>
  Reading: the parts of a string between its quotation marks are bytes, among them the UTF-8
  form of an escaped rune, and halves of surrogate pairs. A half without its partner and every
  invalid byte become U+FFFD.
\<close>

datatype part = Bytes string | Half int

definition char_bytes :: "int list \<Rightarrow> string" where
  "char_bytes bs = map char_of bs"

definition encode_rune :: "int \<Rightarrow> string" where
  "encode_rune r = char_bytes (if r < 128 then [r]
     else if r < 2048 then [192 + r div 64, 128 + r mod 64]
     else if r < 65536 then [224 + r div 4096, 128 + r div 64 mod 64, 128 + r mod 64]
     else [240 + r div 262144, 128 + r div 4096 mod 64, 128 + r div 64 mod 64, 128 + r mod 64])"

definition part_of :: "int \<Rightarrow> part" where
  "part_of u = (if 55296 \<le> u \<and> u < 57344 then Half u else Bytes (encode_rune u))"

fun join_parts :: "part list \<Rightarrow> string" where
  "join_parts [] = []"
| "join_parts (Bytes b # ps) = b @ join_parts ps"
| "join_parts (Half u # Half v # ps) =
     (if u < 56320 \<and> 56320 \<le> v
      then encode_rune (65536 + (u - 55296) * 1024 + (v - 56320)) @ join_parts ps
      else encode_rune rune_error @ join_parts (Half v # ps))"
| "join_parts (Half u # ps) = encode_rune rune_error @ join_parts ps"

definition coerce_utf8 :: "string \<Rightarrow> string" where
  "coerce_utf8 s = concat (map (\<lambda>(r, ok, b). if ok then b else encode_rune rune_error) (chunks s))"

definition unquote :: "part list \<Rightarrow> string" where
  "unquote ps = coerce_utf8 (join_parts ps)"

lemma coerce_valid: 
  assumes "ValidString s"
  shows "coerce_utf8 s = s"
proof -
  have "map (\<lambda>(r, ok, b). if ok then b else encode_rune rune_error) (chunks s) = map (\<lambda>(r, ok, b). b) (chunks s)"
    using assms by (intro map_cong) (auto simp: ValidString_chunks)
  then show ?thesis by (simp only: coerce_utf8_def concat_chunks)
qed

text \<open>Objects and arrays are written without white space.\<close>

fun members :: "(string \<times> string) list \<Rightarrow> string" where
  "members [] = []"
| "members [(k, v)] = quote k @ '':'' @ v"
| "members ((k, v) # ms) = quote k @ '':'' @ v @ '','' @ members ms"

definition write_object :: "(string \<times> string) list \<Rightarrow> string" where
  "write_object ms = ''{'' @ members ms @ ''}''"

definition write_array :: "string list \<Rightarrow> string" where
  "write_array vs = ''['' @ join_with '','' vs @ '']''"

section \<open>Tokens\<close>

datatype token = Punct char | Word string | Number string | Str string

text \<open>What is read: nothing, a string, an escape, hex digits with their value so far, a number, a word.\<close>

datatype lex_mode = Between | InString "part list" | InEscape "part list"
  | InHex "part list" nat int | InNumber string | InWord string string

definition digit_char :: "char \<Rightarrow> bool" where
  "digit_char c \<longleftrightarrow> 48 \<le> byte c \<and> byte c \<le> 57"

definition number_char :: "char \<Rightarrow> bool" where
  "number_char c \<longleftrightarrow> digit_char c \<or> c \<in> {CHR ''-'', CHR ''+'', CHR ''.'', CHR ''e'', CHR ''E''}"

text \<open>The grammar of numbers: sign, integer part without leading zeros, fraction, exponent.\<close>

definition drop_sign :: "char set \<Rightarrow> string \<Rightarrow> string" where
  "drop_sign signs s = (if s \<noteq> [] \<and> hd s \<in> signs then tl s else s)"

definition exponent_ok :: "string \<Rightarrow> bool" where
  "exponent_ok s \<longleftrightarrow> s = [] \<or>
     hd s \<in> {CHR ''e'', CHR ''E''} \<and>
     (let ds = drop_sign {CHR ''+'', CHR ''-''} (tl s) in ds \<noteq> [] \<and> list_all digit_char ds)"

definition fraction_ok :: "string \<Rightarrow> bool" where
  "fraction_ok s \<longleftrightarrow>
     (if s \<noteq> [] \<and> hd s = CHR ''.''
      then takeWhile digit_char (tl s) \<noteq> [] \<and> exponent_ok (dropWhile digit_char (tl s))
      else exponent_ok s)"

definition unsigned_ok :: "string \<Rightarrow> bool" where
  "unsigned_ok s \<longleftrightarrow>
     (let ds = takeWhile digit_char s
      in ds \<noteq> [] \<and> (length ds = 1 \<or> hd ds \<noteq> CHR ''0'') \<and> fraction_ok (dropWhile digit_char s))"

definition number_ok :: "string \<Rightarrow> bool" where
  "number_ok s \<longleftrightarrow> unsigned_ok (drop_sign {CHR ''-''} s)"

definition lex_between :: "token list \<Rightarrow> char \<Rightarrow> (lex_mode \<times> token list) option" where
  "lex_between toks c =
     (if c \<in> {CHR '' '', CHR 0x09, CHR 0x0A, CHR 0x0D} then Some (Between, toks)
      else if c \<in> set ''{}[]:,'' then Some (Between, toks @ [Punct c])
      else if c = quotation then Some (InString [], toks)
      else if c = CHR ''n'' then Some (InWord ''ull'' ''null'', toks)
      else if c = CHR ''t'' then Some (InWord ''rue'' ''true'', toks)
      else if c = CHR ''f'' then Some (InWord ''alse'' ''false'', toks)
      else if c = CHR ''-'' \<or> digit_char c then Some (InNumber [c], toks)
      else None)"

definition escape_byte :: "char \<Rightarrow> char option" where
  "escape_byte c = map_of ((CHR ''/'', CHR ''/'') # map prod.swap short_escapes) c"

fun lex_step :: "lex_mode \<times> token list \<Rightarrow> char \<Rightarrow> (lex_mode \<times> token list) option" where
  "lex_step (Between, toks) c = lex_between toks c"
| "lex_step (InString ps, toks) c =
     (if c = quotation then Some (Between, toks @ [Str (unquote ps)])
      else if c = backslash then Some (InEscape ps, toks)
      else if byte c < 32 then None else Some (InString (ps @ [Bytes [c]]), toks))"
| "lex_step (InEscape ps, toks) c =
     (if c = CHR ''u'' then Some (InHex ps 4 0, toks)
      else map_option (\<lambda>e. (InString (ps @ [Bytes [e]]), toks)) (escape_byte c))"
| "lex_step (InHex ps k u, toks) c =
     (case hex_value c of
        None \<Rightarrow> None
      | Some d \<Rightarrow> Some (if k \<le> 1 then InString (ps @ [part_of (16 * u + d)]) else InHex ps (k - 1) (16 * u + d), toks))"
| "lex_step (InNumber ds, toks) c =
     (if number_char c then Some (InNumber (ds @ [c]), toks)
      else if number_ok ds then lex_between (toks @ [Number ds]) c else None)"
| "lex_step (InWord rest w, toks) c =
     (if rest = [] \<or> c \<noteq> hd rest then None
      else if tl rest = [] then Some (Between, toks @ [Word w]) else Some (InWord (tl rest) w, toks))"

fun steps :: "('s \<Rightarrow> 'a \<Rightarrow> 's option) \<Rightarrow> 's \<Rightarrow> 'a list \<Rightarrow> 's option" where
  "steps f s [] = Some s"
| "steps f s (x # xs) = (case f s x of None \<Rightarrow> None | Some s \<Rightarrow> steps f s xs)"

fun settle :: "lex_mode \<times> token list \<Rightarrow> token list option" where
  "settle (Between, toks) = Some toks"
| "settle (InNumber ds, toks) = (if number_ok ds then Some (toks @ [Number ds]) else None)"
| "settle _ = None"

definition tokens :: "string \<Rightarrow> token list option" where
  "tokens s = (case steps lex_step (Between, []) s of None \<Rightarrow> None | Some st \<Rightarrow> settle st)"

section \<open>Values\<close>

datatype json_value = JNull | JBool bool | JNumber string | JString string
  | JArray "json_value list" | JObject "(string \<times> json_value) list"

text \<open>The open arrays and objects, the latter with or without the key of the member being read.\<close>

datatype frame = InArray "json_value list" | InObject "(string \<times> json_value) list"
  | InMember "(string \<times> json_value) list" string

datatype expect = ValueNext | ValueOrEnd | KeyNext | KeyOrEnd | ColonNext | After json_value

definition maxNestingDepth :: int where "maxNestingDepth = 10000"

definition push :: "expect \<Rightarrow> frame \<Rightarrow> frame list \<Rightarrow> (expect \<times> frame list) option" where
  "push ex fr st = (if int (length st) < maxNestingDepth then Some (ex, fr # st) else None)"

definition read_value :: "token \<Rightarrow> frame list \<Rightarrow> (expect \<times> frame list) option" where
  "read_value t st = (case t of
       Str s \<Rightarrow> Some (After (JString s), st)
     | Number n \<Rightarrow> Some (After (JNumber n), st)
     | Word w \<Rightarrow> Some (After (if w = ''null'' then JNull else JBool (w = ''true'')), st)
     | Punct c \<Rightarrow> if c = CHR ''['' then push ValueOrEnd (InArray []) st
         else if c = CHR ''{'' then push KeyOrEnd (InObject []) st else None)"

definition close_frame :: "json_value \<Rightarrow> token \<Rightarrow> frame list \<Rightarrow> (expect \<times> frame list) option" where
  "close_frame v t st = (case st of
       InArray vs # st \<Rightarrow>
         if t = Punct (CHR '','') then Some (ValueNext, InArray (vs @ [v]) # st)
         else if t = Punct (CHR '']'') then Some (After (JArray (vs @ [v])), st) else None
     | InMember ms k # st \<Rightarrow>
         if t = Punct (CHR '','') then Some (KeyNext, InObject (ms @ [(k, v)]) # st)
         else if t = Punct (CHR ''}'') then Some (After (JObject (ms @ [(k, v)])), st) else None
     | _ \<Rightarrow> None)"

definition read_key :: "token \<Rightarrow> frame list \<Rightarrow> (expect \<times> frame list) option" where
  "read_key t st = (case (t, st) of
       (Str k, InObject ms # st) \<Rightarrow> Some (ColonNext, InMember ms k # st)
     | _ \<Rightarrow> None)"

fun parse_step :: "expect \<times> frame list \<Rightarrow> token \<Rightarrow> (expect \<times> frame list) option" where
  "parse_step (ValueNext, st) t = read_value t st"
| "parse_step (ValueOrEnd, st) t =
     (if t = Punct (CHR '']'') then Some (After (JArray []), tl st) else read_value t st)"
| "parse_step (KeyNext, st) t = read_key t st"
| "parse_step (KeyOrEnd, st) t =
     (if t = Punct (CHR ''}'') then Some (After (JObject []), tl st) else read_key t st)"
| "parse_step (ColonNext, st) t = (if t = Punct (CHR '':'') then Some (ValueNext, st) else None)"
| "parse_step (After v, st) t = close_frame v t st"

fun result :: "expect \<times> frame list \<Rightarrow> json_value option" where
  "result (After v, []) = Some v"
| "result _ = None"

definition parse_json :: "string \<Rightarrow> json_value option" where
  "parse_json s = (case tokens s of
       None \<Rightarrow> None
     | Some toks \<Rightarrow> (case steps parse_step (ValueNext, []) toks of None \<Rightarrow> None | Some st \<Rightarrow> result st))"

section \<open>Reading what was quoted\<close>

lemma steps_append:
  "steps f s (xs @ ys) = (case steps f s xs of None \<Rightarrow> None | Some s \<Rightarrow> steps f s ys)"
  by (induction xs arbitrary: s) (auto split: option.split)

lemma byte_hex_digit: "0 \<le> d \<Longrightarrow> d < 16 \<Longrightarrow> byte (hex_digit d) = (if d < 10 then 48 + d else 87 + d)"
  by (simp add: byte_def hex_digit_def)

lemma hex_value_digit [simp]: "0 \<le> d \<Longrightarrow> d < 16 \<Longrightarrow> hex_value (hex_digit d) = Some d"
  by (simp add: hex_value_def byte_hex_digit Let_def)

lemma hex_value_0 [simp]: "hex_value (CHR ''0'') = Some 0"
  by (simp add: hex_value_def byte_def)

lemma marks [simp]: "quotation \<noteq> backslash" "backslash \<noteq> quotation" "byte quotation = 34" "byte backslash = 92"
  by (simp_all add: quotation_def backslash_def byte_def)

lemma short_escape_reads:
  "map_of short_escapes c = Some e \<Longrightarrow> e \<noteq> CHR ''u'' \<and> escape_byte e = Some c"
  by (auto simp: short_escapes_def escape_byte_def quotation_def backslash_def split: if_splits)

lemma lex_four_digits:
  assumes "0 \<le> d1" "d1 < 16" "0 \<le> d2" "d2 < 16" "0 \<le> d3" "d3 < 16" "0 \<le> d4" "d4 < 16"
  shows "steps lex_step (InString ps, toks)
      [backslash, CHR ''u'', hex_digit d1, hex_digit d2, hex_digit d3, hex_digit d4] =
    Some (InString (ps @ [part_of (16 * (16 * (16 * d1 + d2) + d3) + d4)]), toks)"
  using assms by (simp add: algebra_simps)

lemma lex_unicode_escape:
  assumes "0 \<le> u" and "u < 65536"
  shows "steps lex_step (InString ps, toks)
     [backslash, CHR ''u'', hex_digit (u div 4096), hex_digit (u div 256 mod 16), hex_digit (u div 16 mod 16),
      hex_digit (u mod 16)] = Some (InString (ps @ [part_of u]), toks)"
proof -
  have "u div 256 = u div 16 div 16" "u div 4096 = u div 16 div 16 div 16"
    using zdiv_zmult2_eq [of 16 u 16] zdiv_zmult2_eq [of 16 u 256] zdiv_zmult2_eq [of 16 "u div 16" 16] by simp_all
  then have "16 * (16 * (16 * (u div 4096) + u div 256 mod 16) + u div 16 mod 16) + u mod 16 = u"
    by (simp only: mult_div_mod_eq)
  moreover have "u div 4096 < 16" using zdiv_mono1 [of u 65535 4096] assms(2) by simp
  ultimately show ?thesis
    using assms(1) lex_four_digits [of "u div 4096" "u div 256 mod 16" "u div 16 mod 16" "u mod 16" ps toks]
    by (simp only: pos_imp_zdiv_nonneg_iff pos_mod_sign pos_mod_bound zero_less_numeral)
qed

lemma lex_ascii:
  assumes "byte c < 128"
  shows "steps lex_step (InString ps, toks) (quote_ascii c) = Some (InString (ps @ [Bytes [c]]), toks)"
proof (cases "map_of short_escapes c")
  case (Some e)
  then show ?thesis using short_escape_reads [OF Some] by (simp add: quote_ascii_def)
next
  case None
  then have ne: "c \<noteq> quotation" "c \<noteq> backslash" by (auto simp: short_escapes_def split: if_splits)
  have "byte c div 16 \<le> 127 div 16" using assms by (intro zdiv_mono1) auto
  then have zero: "CHR ''0'' = hex_digit (byte c div 4096)" "CHR ''0'' = hex_digit (byte c div 256 mod 16)"
    "byte c div 16 mod 16 = byte c div 16"
    using assms byte_range(1) [of c] by (simp_all add: hex_digit_def char_of_def mod_pos_pos_trivial pos_imp_zdiv_nonneg_iff)
  have "part_of (byte c) = Bytes [c]"
    using assms by (simp add: part_of_def encode_rune_def char_bytes_def)
  then have "steps lex_step (InString ps, toks) [backslash, CHR ''u'', CHR ''0'', CHR ''0'',
      hex_digit (byte c div 16), hex_digit (byte c mod 16)] = Some (InString (ps @ [Bytes [c]]), toks)"
    using lex_unicode_escape [of "byte c" ps toks] assms zero by (simp del: steps.simps)
  then show ?thesis using None ne by (simp add: quote_ascii_def del: insert_iff)
qed

definition chunk_parts :: "int \<times> bool \<times> string \<Rightarrow> part list" where
  "chunk_parts = (\<lambda>(r, ok, b). if \<not> ok then [Bytes (encode_rune rune_error)] else if r = 8232 \<or> r = 8233 then [Bytes b] else map (\<lambda>c. Bytes [c]) b)"

lemma lex_raw:
  "\<forall>c \<in> set b. 128 \<le> byte c \<Longrightarrow>
   steps lex_step (InString ps, toks) b = Some (InString (ps @ map (\<lambda>c. Bytes [c]) b), toks)"
proof (induction b arbitrary: ps)
  case (Cons c b)
  then have "c \<noteq> quotation" "c \<noteq> backslash" by auto
  then show ?case using Cons by simp
qed simp

lemma lex_chunk:
  assumes "chunk_ok r b"
  shows "steps lex_step (InString ps, toks) (quote_chunk (r, True, b)) =
     Some (InString (ps @ chunk_parts (r, True, b)), toks)"
proof -
  consider "r < 128" | "r = 8232 \<or> r = 8233" | "128 \<le> r" "r \<noteq> 8232" "r \<noteq> 8233" by linarith
  then show ?thesis
  proof cases
    case 1
    then have "b = [char_of r]" "byte (char_of r) < 128"
      using assms by (auto simp: chunk_ok_def byte_def)
    then show ?thesis using 1 lex_ascii by (simp add: chunk_parts_def)
  next
    case 2
    then have "quote_chunk (r, True, b) = [backslash, CHR ''u'', hex_digit (r div 4096), hex_digit (r div 256 mod 16),
        hex_digit (r div 16 mod 16), hex_digit (r mod 16)]"
      by (elim disjE) (simp_all add: hex_digit_def char_of_def)
    moreover have "part_of r = Bytes b"
      using 2 assms by (elim disjE) (simp_all add: part_of_def encode_rune_def chunk_ok_def char_bytes_def char_of_def)
    ultimately show ?thesis using 2 lex_unicode_escape [of r ps toks] by (auto simp: chunk_parts_def)
  next
    case 3
    then show ?thesis using assms lex_raw by (simp add: chunk_ok_def chunk_parts_def)
  qed
qed

lemma join_raw: "join_parts (map (\<lambda>c. Bytes [c]) b @ ps) = b @ join_parts ps"
  by (induction b) auto

lemma join_chunks: "join_parts (concat (map chunk_parts cs)) =
    concat (map (\<lambda>(r, ok, b). if ok then b else encode_rune rune_error) cs)"
  by (induction cs) (auto simp: chunk_parts_def join_raw)

lemma lex_invalid_chunk:
  "steps lex_step (InString ps, toks) (quote_chunk (r, False, b)) =
     Some (InString (ps @ chunk_parts (r, False, b)), toks)"
proof -
  have "''ufffd'' = [CHR ''u'', hex_digit (65533 div 4096), hex_digit (65533 div 256 mod 16),
      hex_digit (65533 div 16 mod 16), hex_digit (65533 mod 16)]"
    by (simp add: hex_digit_def char_of_def)
  moreover have "part_of 65533 = Bytes (encode_rune rune_error)"
    by (simp add: part_of_def rune_error_def)
  ultimately show ?thesis
    using lex_unicode_escape [of 65533 ps toks] by (simp add: chunk_parts_def del: steps.simps)
qed

lemma lex_chunks:
  "\<forall>(r, ok, b) \<in> set cs. ok \<longrightarrow> chunk_ok r b \<Longrightarrow>
   steps lex_step (InString ps, toks) (concat (map quote_chunk cs)) =
     Some (InString (ps @ concat (map chunk_parts cs)), toks)"
proof (induction cs arbitrary: ps)
  case (Cons c cs)
  obtain r ok b where c: "c = (r, ok, b)" "ok \<longrightarrow> chunk_ok r b" using Cons(2) by (cases c) auto
  then have "steps lex_step (InString ps, toks) (quote_chunk c) = Some (InString (ps @ chunk_parts c), toks)"
    using lex_chunk lex_invalid_chunk by (cases ok) (simp_all del: quote_chunk.simps)
  then show ?case
    using Cons by (simp add: steps_append del: quote_chunk.simps)
qed simp

text \<open>Replacing invalid bytes gives a valid string: the runes keep their bounds.\<close>

lemma decode_rune_local:
  assumes "decode_rune (map byte s) = (r, n, True)"
  shows "chunks (take n s @ t) = (r, True, take n s) # chunks t"
proof -
  have "decode_rune (map byte (take n s) @ bs) = (r, n, True) \<and> length (take n s) = n \<and> n \<noteq> 0" for bs
  proof (cases s)
    case (Cons a u)
    then show ?thesis
      using assms by (cases u; cases "tl u"; cases "tl (tl u)")
        (auto simp: bad_rune_def eval_nat_numeral split: if_splits)
  qed (use assms in simp)
  from this [of "map byte t"] show ?thesis by (subst chunks.simps) auto
qed

lemma chunks_error: "chunks (encode_rune rune_error @ t) = (rune_error, True, encode_rune rune_error) # chunks t"
proof -
  let ?s = "encode_rune rune_error"
  have "map byte ?s = [239, 191, 189]"
    by (simp add: encode_rune_def rune_error_def char_bytes_def byte_def)
  then have "decode_rune (map byte ?s) = (rune_error, 3, True)"
    by (simp add: second_ok_def cont_def rune_error_def)
  moreover have "length ?s = 3" by (simp add: encode_rune_def rune_error_def char_bytes_def)
  ultimately show ?thesis using decode_rune_local [of ?s rune_error 3 t] by simp
qed

definition coerce_chunk :: "int \<times> bool \<times> string \<Rightarrow> int \<times> bool \<times> string" where
  "coerce_chunk = (\<lambda>(r, ok, b). if ok then (r, ok, b) else (rune_error, True, encode_rune rune_error))"

lemma chunks_coerce: "chunks (coerce_utf8 s) = map coerce_chunk (chunks s)"
proof (induction s rule: chunks.induct)
  case (1 s)
  obtain r n ok where d: "decode_rune (map byte s) = (r, n, ok)" by (cases "decode_rune (map byte s)") auto
  show ?case
  proof (cases "s = []")
    case False
    then have ch: "chunks s = (r, ok, take n s) # chunks (drop n s)" using d by (subst chunks.simps) simp
    then have "coerce_utf8 s = (if ok then take n s else encode_rune rune_error) @ coerce_utf8 (drop n s)"
      by (simp add: coerce_utf8_def)
    then show ?thesis
      using 1 [OF False d [symmetric] refl] ch d decode_rune_local [of s r n "coerce_utf8 (drop n s)"]
      by (cases ok) (simp_all add: chunks_error coerce_chunk_def)
  qed (simp add: coerce_utf8_def)
qed

lemma coerce_is_valid [simp]: "ValidString (coerce_utf8 s)"
  by (auto simp: ValidString_chunks chunks_coerce coerce_chunk_def split: if_splits)

lemma coerce_iff_valid: "coerce_utf8 s = s \<longleftrightarrow> ValidString s"
  using coerce_valid coerce_is_valid by metis

lemma coerce_Nil [simp]: "coerce_utf8 s = [] \<longleftrightarrow> s = []"
proof
  assume "coerce_utf8 s = []"
  then have "chunks s = []" using chunks_coerce [of s] by simp
  then show "s = []" using concat_chunks [of s] by simp
qed (simp add: coerce_utf8_def)

text \<open>The scanner reads a quoted string as one token that holds the string.\<close>

lemma lex_quote: "steps lex_step (Between, toks) (quote s) = Some (Between, toks @ [Str (coerce_utf8 s)])"
proof -
  have "\<forall>(r, ok, b) \<in> set (chunks s). ok \<longrightarrow> chunk_ok r b"
    using chunks_ok by fastforce
  from lex_chunks [OF this, of "[]" toks] 
  have "steps lex_step (InString [], toks) (concat (map quote_chunk (chunks s))) =
      Some (InString (concat (map chunk_parts (chunks s))), toks)"
    by simp
  moreover have "lex_between toks quotation = Some (InString [], toks)"
    by (simp add: lex_between_def quotation_def)
  moreover have "unquote (concat (map chunk_parts (chunks s))) = coerce_utf8 s"
    using coerce_valid [OF coerce_is_valid [of s]]
    by (simp add: unquote_def join_chunks flip: coerce_utf8_def)
  ultimately show ?thesis by (simp add: quote_def steps_append)
qed

lemma byte_digit [simp]: "d < 10 \<Longrightarrow> byte (digit d) = 48 + int d"
  by (simp add: byte_nat of_char_digit)

lemma decimal_unfold:
  "n < 10 \<Longrightarrow> decimal n = [digit n]"
  "\<not> n < 10 \<Longrightarrow> decimal n = decimal (n div 10) @ [digit (n mod 10)]"
  by (subst decimal.simps, simp)+

lemma decimal_digits: "list_all digit_char (decimal n) \<and> decimal n \<noteq> []"
  by (induction n rule: decimal.induct) (case_tac "n < 10"; simp add: decimal_unfold digit_char_def)

lemma decimal_leading: "0 < n \<Longrightarrow> hd (decimal n) \<noteq> CHR ''0''"
proof (induction n rule: decimal.induct)
  case (1 n)
  show ?case
  proof (cases "n < 10")
    case True
    then have "byte (digit n) \<noteq> byte (CHR ''0'')" using 1(2) by (simp add: byte_def [of "CHR ''0''"])
    then show ?thesis using True by (simp add: decimal_unfold del: byte_digit)
  next
    case False
    then show ?thesis using 1(1) decimal_digits [of "n div 10"] by (simp add: decimal_unfold)
  qed
qed

lemma takeWhile_all: "list_all P xs \<Longrightarrow> takeWhile P xs = xs \<and> dropWhile P xs = []"
  by (induction xs) auto

lemma unsigned_decimal: "unsigned_ok (decimal n)"
proof -
  have "length (decimal n) = 1 \<or> hd (decimal n) \<noteq> CHR ''0''"
    using decimal_leading [of n] by (cases "n = 0") (simp_all add: decimal_unfold)
  moreover have whole: "takeWhile digit_char (decimal n) = decimal n" "dropWhile digit_char (decimal n) = []"
    using decimal_digits [of n] takeWhile_all by blast+
  ultimately show ?thesis
    using decimal_digits [of n] unfolding unsigned_ok_def Let_def whole
    by (simp add: fraction_ok_def exponent_ok_def)
qed

lemma number_ok_Format: "number_ok (FormatInt z)"
proof -
  have "hd (decimal n) \<noteq> CHR ''-''" for n
    using decimal_digits [of n] by (cases "decimal n") (auto simp: digit_char_def byte_def)
  then show ?thesis
    using decimal_digits by (simp add: number_ok_def drop_sign_def FormatInt_def unsigned_decimal)
qed

lemma digit_char_set: "digit_char c \<longleftrightarrow> c \<in> set ''0123456789''"
proof
  assume "digit_char c"
  then have "byte c \<in> {48, 49, 50, 51, 52, 53, 54, 55, 56, 57}"
    unfolding digit_char_def insert_iff empty_iff by presburger
  then have "char_of (byte c) \<in> set ''0123456789''" by (elim insertE emptyE) (simp_all add: char_of_def)
  then show "c \<in> set ''0123456789''" by simp
qed (auto simp: digit_char_def byte_def)

lemma lex_number_chars:
  "list_all number_char s \<Longrightarrow> steps lex_step (InNumber ds, toks) s = Some (InNumber (ds @ s), toks)"
  by (induction s arbitrary: ds) auto

lemma lex_Format: "steps lex_step (Between, toks) (FormatInt z) = Some (InNumber (FormatInt z), toks)"
proof -
  have digits: "list_all number_char (decimal n)" for n
    using decimal_digits [of n] by (auto simp: list_all_iff number_char_def)
  have first: "lex_between toks c = Some (InNumber [c], toks)" if "c = CHR ''-'' \<or> digit_char c" for c
    using that unfolding digit_char_set list.set insert_iff empty_iff
    by (elim disjE FalseE) (simp_all add: lex_between_def digit_char_set quotation_def)
  obtain c s where "FormatInt z = c # s" "c = CHR ''-'' \<or> digit_char c" "list_all number_char s"
  proof (cases "z < 0")
    case False
    then show ?thesis
      using that decimal_digits [of "nat z"] digits [of "nat z"]
      by (cases "decimal (nat z)") (auto simp: FormatInt_def)
  qed (use that digits in \<open>auto simp: FormatInt_def\<close>)
  then show ?thesis using first lex_number_chars [of s "[c]" toks] by simp
qed

section \<open>Reading what was written\<close>

definition lexes :: "string \<Rightarrow> token list \<Rightarrow> bool" where
  "lexes v ts \<longleftrightarrow> (\<forall>toks. \<exists>st. steps lex_step (Between, toks) v = Some st \<and> settle st = Some (toks @ ts))"

text \<open>The text is read as the value wherever a value is expected and \<open>d\<close> levels are left.\<close>

definition reads :: "int \<Rightarrow> string \<Rightarrow> json_value \<Rightarrow> bool" where
  "reads d v j \<longleftrightarrow> (\<exists>ts. ts \<noteq> [] \<and> hd ts \<noteq> Punct (CHR '']'') \<and> lexes v ts \<and>
     (\<forall>st. int (length st) + d \<le> maxNestingDepth \<longrightarrow>
        steps parse_step (ValueNext, st) ts = Some (After j, st)))"

lemma settle_step:
  assumes "settle st = Some ts" and "\<not> number_char c"
  shows "lex_step st c = lex_between ts c"
  using assms by (cases st rule: settle.cases) (auto split: if_splits)

lemma lexes_then:
  assumes "lexes v ts" and "lex_between (toks @ ts) c = Some st" and "\<not> number_char c"
  shows "steps lex_step (Between, toks) (v @ c # rest) = steps lex_step st rest"
proof -
  obtain st' where "steps lex_step (Between, toks) v = Some st'" "settle st' = Some (toks @ ts)"
    using assms(1) unfolding lexes_def by blast
  then show ?thesis using assms(2,3) settle_step by (simp add: steps_append)
qed

lemma punct_chars:
  assumes "c \<in> set ''{}[]:,''"
  shows "lex_between toks c = Some (Between, toks @ [Punct c])" and "\<not> number_char c"
  using assms by (auto simp: lex_between_def number_char_def digit_char_def byte_def)

lemma lexes_punct:
  assumes "lexes v ts" and "c \<in> set ''{}[]:,''"
  shows "steps lex_step (Between, toks) (v @ c # rest) = steps lex_step (Between, toks @ ts @ [Punct c]) rest"
proof -
  have "lex_between (toks @ ts) c = Some (Between, toks @ ts @ [Punct c])"
    using punct_chars(1) [OF assms(2), of "toks @ ts"] by simp
  from lexes_then [OF assms(1) this punct_chars(2) [OF assms(2)]] show ?thesis .
qed

lemma lexes_quote: "ValidString s \<Longrightarrow> lexes (quote s) [Str s]"
  by (simp add: lexes_def lex_quote coerce_valid)

lemma parse_json_reads:
  assumes "reads d v j" and "d \<le> maxNestingDepth"
  shows "parse_json v = Some j"
proof -
  obtain ts where "lexes v ts" "steps parse_step (ValueNext, []) ts = Some (After j, [])"
    using assms unfolding reads_def by fastforce
  then show ?thesis
    unfolding lexes_def by (auto simp: parse_json_def tokens_def dest!: spec [of _ "[]"])
qed

lemma reads_string: "reads 0 (quote s) (JString (coerce_utf8 s))"
  unfolding reads_def lexes_def
  by (rule exI [of _ "[Str (coerce_utf8 s)]"]) (simp add: lex_quote read_value_def)

lemma reads_int: "reads 0 (FormatInt z) (JNumber (FormatInt z))"
  unfolding reads_def lexes_def
  by (rule exI [of _ "[Number (FormatInt z)]"]) (simp add: lex_Format number_ok_Format read_value_def)

lemma reads_members:
  assumes "ms \<noteq> []" and "\<forall>(k, v, j) \<in> set ms. ValidString k \<and> reads d v j"
  shows "\<exists>ts. ts \<noteq> [] \<and> hd ts \<noteq> Punct (CHR ''}'') \<and>
    (\<forall>toks. steps lex_step (Between, toks) (members (map (\<lambda>(k, v, j). (k, v)) ms) @ ''}'') = Some (Between, toks @ ts)) \<and>
    (\<forall>st acc. int (length st) + d + 1 \<le> maxNestingDepth \<longrightarrow>
       steps parse_step (KeyNext, InObject acc # st) ts =
         Some (After (JObject (acc @ map (\<lambda>(k, v, j). (k, j)) ms)), st))"
  using assms
proof (induction ms)
  case (Cons m ms)
  obtain k v j where m: "m = (k, v, j)" by (cases m)
  then obtain ts where ts: "lexes v ts" "ts \<noteq> []" 
    "\<And>st. int (length st) + d \<le> maxNestingDepth \<Longrightarrow> steps parse_step (ValueNext, st) ts = Some (After j, st)"
    and k: "ValidString k"
    using Cons(3) by (auto simp: reads_def)
  have key: "steps lex_step (Between, toks) (quote k @ '':'' @ v @ c # rest) =
      steps lex_step (Between, toks @ [Str k, Punct (CHR '':'')] @ ts @ [Punct c]) rest"
    if "c \<in> set '',}''" for toks c rest
    using that lexes_punct [OF lexes_quote [OF k], of "CHR '':''" toks "v @ c # rest"]
      lexes_punct [OF ts(1), of c "toks @ [Str k] @ [Punct (CHR '':'')]" rest]
    by auto
  show ?case
  proof (cases "ms = []")
    case True
    let ?ts = "[Str k, Punct (CHR '':'')] @ ts @ [Punct (CHR ''}'')]"
    show ?thesis
      by (rule exI [of _ ?ts])
        (use True m key [of "CHR ''}''" _ "[]"] ts(3) in
          \<open>simp add: read_key_def steps_append close_frame_def\<close>)
  next
    case False
    then obtain us where us: "\<And>toks. steps lex_step (Between, toks) (members (map (\<lambda>(k, v, j). (k, v)) ms) @ ''}'') =
        Some (Between, toks @ us)"
      "\<And>st acc. int (length st) + d + 1 \<le> maxNestingDepth \<Longrightarrow> steps parse_step (KeyNext, InObject acc # st) us =
         Some (After (JObject (acc @ map (\<lambda>(k, v, j). (k, j)) ms)), st)"
      using Cons by auto
    obtain m' ms' where ms: "ms = m' # ms'" using False by (cases ms) auto
    let ?ts = "[Str k, Punct (CHR '':'')] @ ts @ Punct (CHR '','') # us"
    show ?thesis
      by (rule exI [of _ ?ts])
        (use m ms key [of "CHR '',''"] ts(3) us in
          \<open>simp add: read_key_def steps_append close_frame_def split: prod.split\<close>)
  qed
qed simp

lemma reads_object:
  assumes "ms \<noteq> []" and "\<forall>(k, v, j) \<in> set ms. ValidString k \<and> reads d v j"
    and "0 \<le> d"
  shows "reads (d + 1) (write_object (map (\<lambda>(k, v, j). (k, v)) ms)) (JObject (map (\<lambda>(k, v, j). (k, j)) ms))"
proof -
  obtain ts where ts: "ts \<noteq> []" "hd ts \<noteq> Punct (CHR ''}'')"
    "\<And>toks. steps lex_step (Between, toks) (members (map (\<lambda>(k, v, j). (k, v)) ms) @ ''}'') = Some (Between, toks @ ts)"
    "\<And>st. int (length st) + d + 1 \<le> maxNestingDepth \<Longrightarrow> steps parse_step (KeyNext, InObject [] # st) ts =
       Some (After (JObject (map (\<lambda>(k, v, j). (k, j)) ms)), st)"
    using reads_members [OF assms(1,2)] by fastforce
  obtain t us where us: "ts = t # us" using ts(1) by (cases ts) auto
  have "lexes (write_object (map (\<lambda>(k, v, j). (k, v)) ms)) (Punct (CHR ''{'') # ts)"
    using ts(3) punct_chars(1) [of "CHR ''{''"] by (simp add: lexes_def write_object_def)
  moreover have "steps parse_step (ValueNext, st) (Punct (CHR ''{'') # ts) =
      Some (After (JObject (map (\<lambda>(k, v, j). (k, j)) ms)), st)"
    if "int (length st) + (d + 1) \<le> maxNestingDepth" for st
    using that ts(2) ts(4) [of st] us assms(3)
    by (simp add: read_value_def push_def)
  ultimately show ?thesis unfolding reads_def by (intro exI [of _ "Punct (CHR ''{'') # ts"]) simp
qed

lemma reads_elements:
  assumes "vs \<noteq> []" and "\<forall>(v, j) \<in> set vs. reads d v j"
  shows "\<exists>ts. ts \<noteq> [] \<and> hd ts \<noteq> Punct (CHR '']'') \<and>
    (\<forall>toks. steps lex_step (Between, toks) (join_with '','' (map fst vs) @ '']'') = Some (Between, toks @ ts)) \<and>
    (\<forall>st acc. int (length st) + d + 1 \<le> maxNestingDepth \<longrightarrow>
       steps parse_step (ValueNext, InArray acc # st) ts = Some (After (JArray (acc @ map snd vs)), st))"
  using assms
proof (induction vs)
  case (Cons x vs)
  obtain v j where x: "x = (v, j)" by (cases x)
  then obtain ts where ts: "lexes v ts" "ts \<noteq> []" "hd ts \<noteq> Punct (CHR '']'')"
    "\<And>st. int (length st) + d \<le> maxNestingDepth \<Longrightarrow> steps parse_step (ValueNext, st) ts = Some (After j, st)"
    using Cons(3) by (auto simp: reads_def)
  note punct = lexes_punct [OF ts(1)]
  show ?case
  proof (cases "vs = []")
    case True
    show ?thesis
      by (rule exI [of _ "ts @ [Punct (CHR '']'')]"])
        (use True x punct [of "CHR '']''" _ "[]"] ts(2-4) in \<open>simp add: steps_append close_frame_def\<close>)
  next
    case False
    then obtain us where us: "\<And>toks. steps lex_step (Between, toks) (join_with '','' (map fst vs) @ '']'') =
        Some (Between, toks @ us)"
      "\<And>st acc. int (length st) + d + 1 \<le> maxNestingDepth \<Longrightarrow> steps parse_step (ValueNext, InArray acc # st) us =
         Some (After (JArray (acc @ map snd vs)), st)"
      using Cons by auto
    have "steps lex_step (Between, toks) (join_with '','' (map fst (x # vs)) @ '']'') =
        Some (Between, toks @ ts @ Punct (CHR '','') # us)" for toks
      using False x punct [of "CHR '',''" toks "join_with '','' (map fst vs) @ '']''"] us(1)
      by (simp add: join_Cons)
    then show ?thesis
      by (intro exI [of _ "ts @ Punct (CHR '','') # us"])
        (use x ts(2-4) us(2) in \<open>simp add: steps_append close_frame_def\<close>)
  qed
qed simp

lemma reads_array:
  assumes "\<forall>(v, j) \<in> set vs. reads d v j" and "0 \<le> d"
  shows "reads (d + 1) (write_array (map fst vs)) (JArray (map snd vs))"
proof (cases "vs = []")
  case True
  have "lexes ''[]'' [Punct (CHR ''[''), Punct (CHR '']'')]"
    using punct_chars(1) [of "CHR ''[''"] punct_chars(1) [of "CHR '']''"] by (simp add: lexes_def)
  then show ?thesis
    unfolding reads_def write_array_def
    by (intro exI [of _ "[Punct (CHR ''[''), Punct (CHR '']'')]"])
      (use assms(2) True in \<open>simp add: read_value_def push_def\<close>)
next
  case False
  obtain ts where ts: "ts \<noteq> []" "hd ts \<noteq> Punct (CHR '']'')"
    "\<And>toks. steps lex_step (Between, toks) (join_with '','' (map fst vs) @ '']'') = Some (Between, toks @ ts)"
    "\<And>st. int (length st) + d + 1 \<le> maxNestingDepth \<Longrightarrow> steps parse_step (ValueNext, InArray [] # st) ts =
       Some (After (JArray (map snd vs)), st)"
    using reads_elements [OF False assms(1)] by fastforce
  obtain t us where us: "ts = t # us" using ts(1) by (cases ts) auto
  have "lexes (write_array (map fst vs)) (Punct (CHR ''['') # ts)"
    using ts(3) punct_chars(1) [of "CHR ''[''"] by (simp add: lexes_def write_array_def)
  moreover have "steps parse_step (ValueNext, st) (Punct (CHR ''['') # ts) = Some (After (JArray (map snd vs)), st)"
    if "int (length st) + (d + 1) \<le> maxNestingDepth" for st
    using that ts(2) ts(4) [of st] us assms(2) by (simp add: read_value_def push_def)
  ultimately show ?thesis unfolding reads_def by (intro exI [of _ "Punct (CHR ''['') # ts"]) simp
qed

section \<open>Integers and lists of strings\<close>

text \<open>\<open>strconv.ParseInt\<close> on a JSON number and the test of \<open>OverflowInt\<close> for an int8.\<close>

definition read_int :: "string \<Rightarrow> int option" where
  "read_int s =
     (if s \<noteq> [] \<and> hd s = CHR ''-'' then map_option (\<lambda>n. - int n) (read_decimal (tl s) 0)
      else map_option int (read_decimal s 0))"

definition int8 :: "int \<Rightarrow> bool" where
  "int8 z \<longleftrightarrow> - 128 \<le> z \<and> z \<le> 127"

lemma read_int_Format [simp]: "read_int (FormatInt z) = Some z"
proof -
  have "decimal n \<noteq> [] \<and> hd (decimal n) \<noteq> CHR ''-''" for n
    using decimal_digits [of n] by (cases "decimal n") (auto simp: digit_char_def byte_def)
  then show ?thesis by (simp add: read_int_def FormatInt_def read_decimal_decimal)
qed

definition marshal_strings :: "string list \<Rightarrow> string" where
  "marshal_strings ss = write_array (map quote ss)"

text \<open>The elements of a decoded slice start as empty strings, which null leaves alone.\<close>

fun element :: "json_value \<Rightarrow> string option" where
  "element (JString s) = Some s"
| "element JNull = Some []"
| "element _ = None"

fun elements :: "json_value list \<Rightarrow> string list option" where
  "elements [] = Some []"
| "elements (v # vs) =
     (case (element v, elements vs) of (Some s, Some ss) \<Rightarrow> Some (s # ss) | _ \<Rightarrow> None)"

definition unmarshal_strings :: "string \<Rightarrow> string list option" where
  "unmarshal_strings text = (case parse_json text of
       Some (JArray vs) \<Rightarrow> elements vs
     | Some JNull \<Rightarrow> Some []
     | _ \<Rightarrow> None)"

lemma elements_strings: "elements (map JString ss) = Some ss"
  by (induction ss) auto

lemma unmarshal_marshal_strings:
  "unmarshal_strings (marshal_strings ss) = Some (map coerce_utf8 ss)"
proof -
  let ?vs = "map (\<lambda>s. (quote s, JString (coerce_utf8 s))) ss"
  have "reads 1 (write_array (map fst ?vs)) (JArray (map snd ?vs))"
    using reads_array [of ?vs 0] reads_string by auto
  then have "parse_json (marshal_strings ss) = Some (JArray (map JString (map coerce_utf8 ss)))"
    using parse_json_reads [of 1] by (simp add: marshal_strings_def comp_def maxNestingDepth_def)
  then show ?thesis by (simp only: unmarshal_strings_def elements_strings option.case json_value.case)
qed

section \<open>Fields of structs\<close>

text \<open>
  A key names a field if they agree up to case: ASCII letters, and the two runes outside of ASCII
  that fold to one, the long s and the Kelvin sign.
\<close>

definition fold_char :: "char \<Rightarrow> char" where
  "fold_char c = (if 97 \<le> byte c \<and> byte c \<le> 122 then char_of (byte c - 32) else c)"

definition fold_rune :: "int \<times> bool \<times> string \<Rightarrow> string" where
  "fold_rune = (\<lambda>(r, ok, b). if r = 383 then ''S'' else if r = 8490 then ''K'' else map fold_char b)"

definition foldName :: "string \<Rightarrow> string" where
  "foldName s = concat (map fold_rune (chunks s))"

definition names :: "string \<Rightarrow> string \<Rightarrow> bool" where
  "names key field \<longleftrightarrow> foldName key = foldName field"

text \<open>Decoding into a string and an int8 that hold a value already.\<close>

definition into_string :: "json_value \<Rightarrow> string \<Rightarrow> string option" where
  "into_string v old = (case v of JNull \<Rightarrow> Some old | JString s \<Rightarrow> Some s | _ \<Rightarrow> None)"

definition into_int8 :: "json_value \<Rightarrow> int \<Rightarrow> int option" where
  "into_int8 v old = (case v of
       JNull \<Rightarrow> Some old
     | JNumber n \<Rightarrow> (case read_int n of Some z \<Rightarrow> if int8 z then Some z else None | None \<Rightarrow> None)
     | _ \<Rightarrow> None)"

text \<open>An object is decoded member by member, later members over earlier ones; null changes nothing.\<close>

definition into_struct :: "('s \<Rightarrow> string \<times> json_value \<Rightarrow> 's option) \<Rightarrow> json_value \<Rightarrow> 's \<Rightarrow> 's option" where
  "into_struct member v old = (case v of
       JNull \<Rightarrow> Some old
     | JObject ms \<Rightarrow> steps member old ms
     | _ \<Rightarrow> None)"

lemma into_struct_JObject [simp]: "into_struct member (JObject ms) old = steps member old ms"
  by (simp add: into_struct_def)

end
