(* ===== verification/Metadata.thy ===== *)
theory Metadata
  imports MessageId Json
begin

text \<open>
  The framework metadata of mq/convert.go: the struct \<open>sharedMetadata\<close> with its JSON tags, as
  encoding/json writes and reads it. Reading what was written gives the same metadata, for
  strings of valid UTF-8; JSON replaces the bytes of any other string.
\<close>

section \<open>Bytes and strings\<close>

definition of_bytes :: "bytes \<Rightarrow> string" where
  "of_bytes bs = map (\<lambda>b. char_of (unat b)) bs"

lemma of_bytes_of [simp]: "of_bytes (bytes_of s) = s"
proof -
  have "char_of (unat (of_char c :: 8 word)) = c" for c :: char
    using unat_of_nat [of "of_char c", where ?'a = 8]
    by (simp add: of_nat_of_char take_bit_nat_eq_self)
  then show ?thesis by (simp add: of_bytes_def bytes_of_def comp_def)
qed

section \<open>The struct and its JSON form\<close>

record shared_metadata =
  md_Sender :: message_ref
  md_Receiver :: message_ref
  md_TraceID :: string
  md_MessageID :: string
  md_Type :: int
  md_Command :: string

definition zero_metadata :: shared_metadata where
  "zero_metadata = \<lparr>md_Sender = empty_ref, md_Receiver = empty_ref, md_TraceID = [], md_MessageID = [],
     md_Type = 0, md_Command = []\<rparr>"

definition marshal_ref :: "message_ref \<Rightarrow> string" where
  "marshal_ref r = write_object [(''Type'', quote (ref_Type r)), (''Id'', quote (ref_Id r))]"

definition marshal_metadata :: "shared_metadata \<Rightarrow> string" where
  "marshal_metadata md = write_object [(''sender'', marshal_ref (md_Sender md)),
     (''receiver'', marshal_ref (md_Receiver md)), (''trace_id'', quote (md_TraceID md)),
     (''message_id'', quote (md_MessageID md)), (''type'', FormatInt (md_Type md)),
     (''command'', quote (md_Command md))]"

fun ref_member :: "message_ref \<Rightarrow> string \<times> json_value \<Rightarrow> message_ref option" where
  "ref_member r (key, v) =
     (if names key ''Type'' then map_option (\<lambda>s. r\<lparr>ref_Type := s\<rparr>) (into_string v (ref_Type r))
      else if names key ''Id'' then map_option (\<lambda>s. r\<lparr>ref_Id := s\<rparr>) (into_string v (ref_Id r))
      else Some r)"

fun metadata_member :: "shared_metadata \<Rightarrow> string \<times> json_value \<Rightarrow> shared_metadata option" where
  "metadata_member md (key, v) =
     (if names key ''sender'' then
        map_option (\<lambda>r. md\<lparr>md_Sender := r\<rparr>) (into_struct ref_member v (md_Sender md))
      else if names key ''receiver'' then
        map_option (\<lambda>r. md\<lparr>md_Receiver := r\<rparr>) (into_struct ref_member v (md_Receiver md))
      else if names key ''trace_id'' then map_option (\<lambda>s. md\<lparr>md_TraceID := s\<rparr>) (into_string v (md_TraceID md))
      else if names key ''message_id'' then map_option (\<lambda>s. md\<lparr>md_MessageID := s\<rparr>) (into_string v (md_MessageID md))
      else if names key ''type'' then map_option (\<lambda>z. md\<lparr>md_Type := z\<rparr>) (into_int8 v (md_Type md))
      else if names key ''command'' then map_option (\<lambda>s. md\<lparr>md_Command := s\<rparr>) (into_string v (md_Command md))
      else Some md)"

definition unmarshal_metadata :: "string \<Rightarrow> shared_metadata option" where
  "unmarshal_metadata text = (case parse_json text of
       None \<Rightarrow> None
     | Some v \<Rightarrow> into_struct metadata_member v zero_metadata)"

section \<open>Reading what was written\<close>

text \<open>Metadata that JSON carries unchanged: strings of valid UTF-8.\<close>

definition utf8_ref :: "message_ref \<Rightarrow> bool" where
  "utf8_ref r \<longleftrightarrow> ValidString (ref_Type r) \<and> ValidString (ref_Id r)"

definition utf8_meta :: "shared_metadata \<Rightarrow> bool" where
  "utf8_meta md \<longleftrightarrow> utf8_ref (md_Sender md) \<and> utf8_ref (md_Receiver md) \<and> ValidString (md_TraceID md) \<and>
     ValidString (md_MessageID md) \<and> ValidString (md_Command md)"

definition ref_value :: "message_ref \<Rightarrow> json_value" where
  "ref_value r = JObject [(''Type'', JString (ref_Type r)), (''Id'', JString (ref_Id r))]"

definition metadata_value :: "shared_metadata \<Rightarrow> json_value" where
  "metadata_value md = JObject [(''sender'', ref_value (md_Sender md)), (''receiver'', ref_value (md_Receiver md)),
     (''trace_id'', JString (md_TraceID md)), (''message_id'', JString (md_MessageID md)),
     (''type'', JNumber (FormatInt (md_Type md))), (''command'', JString (md_Command md))]"

lemma literals_valid [simp]:
  "ValidString ''Type''" "ValidString ''Id''" "ValidString ''sender''" "ValidString ''receiver''"
  "ValidString ''trace_id''" "ValidString ''message_id''" "ValidString ''type''" "ValidString ''command''"
  by (rule ValidString_ascii; simp add: byte_def)+

lemma field_names [simp]:
  "names k k"
  "\<not> names ''Id'' ''Type''" "\<not> names ''receiver'' ''sender''" "\<not> names ''trace_id'' ''sender''"
  "\<not> names ''message_id'' ''sender''" "\<not> names ''type'' ''sender''" "\<not> names ''command'' ''sender''"
  "\<not> names ''trace_id'' ''receiver''" "\<not> names ''message_id'' ''receiver''" "\<not> names ''type'' ''receiver''"
  "\<not> names ''command'' ''receiver''" "\<not> names ''message_id'' ''trace_id''" "\<not> names ''type'' ''trace_id''"
  "\<not> names ''command'' ''trace_id''" "\<not> names ''type'' ''message_id''" "\<not> names ''command'' ''message_id''"
  "\<not> names ''command'' ''type''"
  by (simp add: names_def) code_simp+

lemma reads_raise:
  assumes "reads d v j" and "d \<le> e"
  shows "reads e v j"
proof -
  obtain ts where ts: "ts \<noteq> []" "hd ts \<noteq> Punct (CHR '']'')" "lexes v ts"
    "\<forall>st. int (length st) + d \<le> maxNestingDepth \<longrightarrow> steps parse_step (ValueNext, st) ts = Some (After j, st)"
    using assms(1) unfolding reads_def by blast
  then show ?thesis unfolding reads_def using assms(2) by (intro exI [of _ ts]) auto
qed

definition coerce_ref :: "message_ref \<Rightarrow> message_ref" where
  "coerce_ref r = \<lparr>ref_Type = coerce_utf8 (ref_Type r), ref_Id = coerce_utf8 (ref_Id r)\<rparr>"

definition coerce_metadata :: "shared_metadata \<Rightarrow> shared_metadata" where
  "coerce_metadata md = \<lparr>md_Sender = coerce_ref (md_Sender md), md_Receiver = coerce_ref (md_Receiver md),
     md_TraceID = coerce_utf8 (md_TraceID md), md_MessageID = coerce_utf8 (md_MessageID md),
     md_Type = md_Type md, md_Command = coerce_utf8 (md_Command md)\<rparr>"

lemma coerce_utf8_metadata: "utf8_meta md \<Longrightarrow> coerce_metadata md = md"
  by (simp add: coerce_metadata_def coerce_ref_def utf8_meta_def utf8_ref_def coerce_valid)

lemma reads_ref: "reads 1 (marshal_ref r) (ref_value (coerce_ref r))"
  using reads_object [of "[(''Type'', quote (ref_Type r), JString (coerce_utf8 (ref_Type r))),
      (''Id'', quote (ref_Id r), JString (coerce_utf8 (ref_Id r)))]" 0] reads_string
  by (simp add: coerce_ref_def marshal_ref_def ref_value_def)

lemma reads_metadata: "reads 2 (marshal_metadata md) (metadata_value (coerce_metadata md))"
proof -
  have "reads 1 (quote s) (JString (coerce_utf8 s))" for s
    using reads_raise [OF reads_string] by simp
  moreover have "reads 1 (FormatInt z) (JNumber (FormatInt z))" for z
    using reads_raise [OF reads_int] by simp
  ultimately show ?thesis
    using reads_object [of "[(''sender'', marshal_ref (md_Sender md), ref_value (coerce_ref (md_Sender md))),
        (''receiver'', marshal_ref (md_Receiver md), ref_value (coerce_ref (md_Receiver md))),
        (''trace_id'', quote (md_TraceID md), JString (coerce_utf8 (md_TraceID md))),
        (''message_id'', quote (md_MessageID md), JString (coerce_utf8 (md_MessageID md))),
        (''type'', FormatInt (md_Type md), JNumber (FormatInt (md_Type md))),
        (''command'', quote (md_Command md), JString (coerce_utf8 (md_Command md)))]" 1] reads_ref
    by (simp add: coerce_metadata_def marshal_metadata_def metadata_value_def)
qed

lemma into_ref [simp]: "into_struct ref_member (ref_value r) old = Some r"
  by (simp add: ref_value_def into_string_def)

text \<open>Every metadata of an int8 type is read back as it was written, up to invalid bytes.\<close>

lemma unmarshal_marshal:
  assumes "int8 (md_Type md)"
  shows "unmarshal_metadata (marshal_metadata md) = Some (coerce_metadata md)"
proof -
  have "parse_json (marshal_metadata md) = Some (metadata_value (coerce_metadata md))"
    using parse_json_reads [OF reads_metadata] by (simp add: maxNestingDepth_def)
  moreover have "int8 (md_Type (coerce_metadata md))" using assms by (simp add: coerce_metadata_def)
  ultimately show ?thesis
    by (simp add: unmarshal_metadata_def metadata_value_def into_string_def into_int8_def zero_metadata_def)
qed

lemma unmarshal_marshal_metadata:
  "utf8_meta md \<Longrightarrow> int8 (md_Type md) \<Longrightarrow> unmarshal_metadata (marshal_metadata md) = Some md"
  by (simp add: unmarshal_marshal coerce_utf8_metadata)

end
