(* ===== verification/Convert.thy ===== *)
theory Convert
  imports Metadata
begin

text \<open>
  mq/convert.go and the types of mq/mq.go: a shared message as a record of the queue. The
  framework's fields travel as JSON in one reserved header; the key is the actor id and the
  partition its shard. A payload that is not raw bytes is marshalled by encoding/json, which
  works on arbitrary Go values by reflection: that function is a parameter, without hypotheses.
  A nil and an empty byte slice are the same list of bytes.
\<close>

section \<open>Records of the queue\<close>

definition OffsetBeginning :: int where "OffsetBeginning = - 2"
definition OffsetEnd :: int where "OffsetEnd = - 1"

record topic_partition =
  tp_Topic :: string
  tp_Partition :: int

record kmessage =
  km_Partition :: topic_partition
  km_Offset :: int
  km_Key :: bytes
  km_Value :: bytes
  km_Headers :: "header list"
  km_Timestamp :: int

text \<open>The errors; all but the one of the encoder wrap \<open>ErrInvalid\<close>.\<close>

datatype mq_error =
    DuplicateMeta | BadMeta | MissingMeta | EmptyField | UnknownType | KeyMismatch
  | EmptyTopic | ReservedHeader | EncodePayload

definition wraps_ErrInvalid :: "mq_error \<Rightarrow> bool" where
  "wraps_ErrInvalid err \<longleftrightarrow> err \<noteq> EncodePayload"

definition sharedMetadataHeader :: string where
  "sharedMetadataHeader = ''mq.message.meta''"

text \<open>\<open>json.Marshal\<close> on a payload of any Go type; None is its error.\<close>

type_synonym 'v marshaller = "'v payload \<Rightarrow> bytes option"

section \<open>From the queue\<close>

definition validateMetadata :: "shared_metadata \<Rightarrow> mq_error option" where
  "validateMetadata md =
     (if ref_Id (md_Receiver md) = [] \<or> md_MessageID md = [] \<or> md_Command md = [] then Some EmptyField
      else if md_Type md = MessageTypeMemory \<or> md_Type md = MessageTypeTimer \<or> md_Type md = MessageTypeNetwork
        then None
      else Some UnknownType)"

text \<open>The loop over the headers; the accumulator is \<open>found\<close> with the decoded metadata.\<close>

fun find_metadata ::
  "header list \<Rightarrow> shared_metadata option \<Rightarrow> mq_error + shared_metadata option" where
  "find_metadata [] found = Inr found"
| "find_metadata (h # hs) found =
     (if hdr_Key h \<noteq> sharedMetadataHeader then find_metadata hs found
      else if found \<noteq> None then Inl DuplicateMeta
      else case unmarshal_metadata (of_bytes (hdr_Value h)) of
          None \<Rightarrow> Inl BadMeta
        | Some md \<Rightarrow> find_metadata hs (Some md))"

fun extension_headers :: "header list \<Rightarrow> header list" where
  "extension_headers [] = []"
| "extension_headers (h # hs) =
     (if hdr_Key h = sharedMetadataHeader then extension_headers hs
      else \<lparr>hdr_Key = hdr_Key h, hdr_Value = hdr_Value h\<rparr> # extension_headers hs)"

definition ToMMMessage :: "kmessage \<Rightarrow> mq_error + 'v message" where
  "ToMMMessage k =
     (case find_metadata (km_Headers k) None of
        Inl err \<Rightarrow> Inl err
      | Inr None \<Rightarrow> Inl MissingMeta
      | Inr (Some md) \<Rightarrow>
          (case validateMetadata md of
             Some err \<Rightarrow> Inl err
           | None \<Rightarrow>
               if of_bytes (km_Key k) \<noteq> ref_Id (md_Receiver md) then Inl KeyMismatch
               else Inr \<lparr>Sender = md_Sender md, Receiver = md_Receiver md, TraceId = md_TraceID md,
                   MessageId = md_MessageID md, Offset = km_Offset k, Type = md_Type md,
                   Command = md_Command md, Payload = PRaw (km_Value k),
                   Headers = extension_headers (km_Headers k)\<rparr>))"

section \<open>To the queue\<close>

definition metadata_of :: "'v message \<Rightarrow> shared_metadata" where
  "metadata_of m = \<lparr>md_Sender = Sender m, md_Receiver = Receiver m, md_TraceID = TraceId m,
     md_MessageID = MessageId m, md_Type = Type m, md_Command = Command m\<rparr>"

definition encode_payload :: "'v marshaller \<Rightarrow> 'v payload \<Rightarrow> bytes option" where
  "encode_payload J p = (case p of PBytes raw \<Rightarrow> Some raw | PRaw raw \<Rightarrow> Some raw | _ \<Rightarrow> J p)"

fun append_headers :: "header list \<Rightarrow> header list \<Rightarrow> mq_error + header list" where
  "append_headers acc [] = Inr acc"
| "append_headers acc (h # hs) =
     (if hdr_Key h = sharedMetadataHeader then Inl ReservedHeader
      else append_headers (acc @ [\<lparr>hdr_Key = hdr_Key h, hdr_Value = hdr_Value h\<rparr>]) hs)"

text \<open>
  Marshalling a struct of strings and an integer cannot fail, so the branch for its error has no
  value here. The time stamp of the zero time.Time is 0.
\<close>

definition FromMMMessage :: "'v marshaller \<Rightarrow> 'v message \<Rightarrow> string \<Rightarrow> mq_error + kmessage" where
  "FromMMMessage J m topic =
     (if topic = [] then Inl EmptyTopic
      else let actorID = ref_Id (Receiver m); meta = metadata_of m
      in case validateMetadata meta of
           Some err \<Rightarrow> Inl err
         | None \<Rightarrow>
             (case encode_payload J (Payload m) of
                None \<Rightarrow> Inl EncodePayload
              | Some value \<Rightarrow>
                  let metadata = bytes_of (marshal_metadata meta)
                  in (case append_headers [\<lparr>hdr_Key = sharedMetadataHeader, hdr_Value = metadata\<rparr>] (Headers m) of
                        Inl err \<Rightarrow> Inl err
                      | Inr headers \<Rightarrow>
                          Inr \<lparr>km_Partition = \<lparr>tp_Topic = topic, tp_Partition = ActorShardID actorID\<rparr>,
                            km_Offset = Offset m, km_Key = bytes_of actorID, km_Value = value,
                            km_Headers = headers, km_Timestamp = 0\<rparr>)))"

section \<open>Lemmas\<close>

lemma validated_int8: "validateMetadata md = None \<Longrightarrow> int8 (md_Type md)"
  by (auto simp: validateMetadata_def int8_def message_types split: if_splits)

lemma find_metadata_later:
  "sharedMetadataHeader \<notin> hdr_Key ` set hs \<Longrightarrow> find_metadata hs found = Inr found"
  by (induction hs) auto

lemma extension_headers_id:
  "sharedMetadataHeader \<notin> hdr_Key ` set hs \<Longrightarrow> extension_headers hs = (hs :: header list)"
  by (induction hs) auto

lemma extension_headers_none: "sharedMetadataHeader \<notin> hdr_Key ` set (extension_headers hs)"
  by (induction hs) auto

lemma append_headers_eq:
  "append_headers acc hs =
     (if sharedMetadataHeader \<in> hdr_Key ` set hs then Inl ReservedHeader else Inr (acc @ hs))"
  for hs :: "header list"
  by (induction hs arbitrary: acc) auto

lemma FromMMMessage_Inr:
  "FromMMMessage J m topic = Inr k \<longleftrightarrow>
     (\<exists>value. topic \<noteq> [] \<and> validateMetadata (metadata_of m) = None \<and>
        encode_payload J (Payload m) = Some value \<and>
        sharedMetadataHeader \<notin> hdr_Key ` set (Headers m) \<and>
        k = \<lparr>km_Partition = \<lparr>tp_Topic = topic, tp_Partition = ActorShardID (ref_Id (Receiver m))\<rparr>,
          km_Offset = Offset m, km_Key = bytes_of (ref_Id (Receiver m)), km_Value = value,
          km_Headers = \<lparr>hdr_Key = sharedMetadataHeader, hdr_Value = bytes_of (marshal_metadata (metadata_of m))\<rparr> # Headers m,
          km_Timestamp = 0\<rparr>)"
  by (auto simp: FromMMMessage_def append_headers_eq Let_def split: option.splits if_splits)

lemma metadata_eta:
  "\<lparr>md_Sender = md_Sender md, md_Receiver = md_Receiver md, md_TraceID = md_TraceID md,
    md_MessageID = md_MessageID md, md_Type = md_Type md, md_Command = md_Command md\<rparr> = md"
  by simp

lemma ToMMMessage_Inr:
  "ToMMMessage k = Inr m \<longleftrightarrow>
     (\<exists>md. find_metadata (km_Headers k) None = Inr (Some md) \<and> validateMetadata md = None \<and>
        of_bytes (km_Key k) = ref_Id (md_Receiver md) \<and> metadata_of m = md \<and> Offset m = km_Offset k \<and>
        Payload m = PRaw (km_Value k) \<and> Headers m = extension_headers (km_Headers k))"
  by (auto simp: ToMMMessage_def metadata_of_def metadata_eta split: sum.splits option.splits)

section \<open>Properties\<close>

lemma publish_then_poll':
  assumes "utf8_meta (metadata_of m)" and "FromMMMessage J m topic = Inr k"
  shows "ToMMMessage (k\<lparr>km_Offset := off\<rparr>) = Inr (m\<lparr>Offset := off, Payload := PRaw (km_Value k)\<rparr>) \<and>
    encode_payload J (Payload m) = Some (km_Value k)"
proof -
  let ?meta = "marshal_metadata (metadata_of m)"
  obtain val where k: "validateMetadata (metadata_of m) = None" "encode_payload J (Payload m) = Some val"
    "sharedMetadataHeader \<notin> hdr_Key ` set (Headers m)"
    "k = \<lparr>km_Partition = \<lparr>tp_Topic = topic, tp_Partition = ActorShardID (ref_Id (Receiver m))\<rparr>,
      km_Offset = Offset m, km_Key = bytes_of (ref_Id (Receiver m)), km_Value = val,
      km_Headers = \<lparr>hdr_Key = sharedMetadataHeader, hdr_Value = bytes_of ?meta\<rparr> # Headers m, km_Timestamp = 0\<rparr>"
    using assms(2) unfolding FromMMMessage_Inr by blast
  have "unmarshal_metadata ?meta = Some (metadata_of m)"
    by (rule unmarshal_marshal_metadata [OF assms(1) validated_int8 [OF k(1)]])
  then show ?thesis
    using k by (simp add: ToMMMessage_def find_metadata_later extension_headers_id)
      (simp add: metadata_of_def)
qed

text \<open>
  C28: a message whose references, ids and command are valid UTF-8 (\<open>utf8_meta\<close>; the code does not
  check it) and that was published comes back from the queue as it was, with the offset the broker gave
  it and its payload as the raw bytes that were sent: its references, ids, type, command and extension
  headers are unchanged.
\<close>

theorem publish_then_poll:
  assumes "utf8_meta (metadata_of m)" and "FromMMMessage J m topic = Inr k"
  shows "ToMMMessage (k\<lparr>km_Offset := off\<rparr>) = Inr (m\<lparr>Offset := off, Payload := PRaw (km_Value k)\<rparr>) \<and>
    encode_payload J (Payload m) = Some (km_Value k)"
  by (rule publish_then_poll' [OF assms])

text \<open>For the witnesses, whose payloads are raw bytes.\<close>

definition example_meta :: shared_metadata where
  "example_meta = \<lparr>md_Sender = \<lparr>ref_Type = ''t'', ref_Id = ''a''\<rparr>, md_Receiver = \<lparr>ref_Type = ''t'', ref_Id = ''b''\<rparr>,
     md_TraceID = ''x'', md_MessageID = ''y'', md_Type = 2, md_Command = ''inc''\<rparr>"

definition example_json :: "int marshaller" where
  "example_json p = None"

definition example_message :: "int message" where
  "example_message = \<lparr>Sender = \<lparr>ref_Type = ''t'', ref_Id = ''a''\<rparr>, Receiver = \<lparr>ref_Type = ''t'', ref_Id = ''b''\<rparr>,
     TraceId = ''x'', MessageId = ''y'', Offset = 5, Type = 2, Command = ''inc'', Payload = PBytes [9],
     Headers = [\<lparr>hdr_Key = ''h'', hdr_Value = [7]\<rparr>]\<rparr>"

theorem publish_then_poll_witness:
  "\<exists>k. FromMMMessage example_json example_message ''topic'' = Inr k \<and>
     ToMMMessage (k\<lparr>km_Offset := 40\<rparr>) = Inr (example_message\<lparr>Offset := 40, Payload := PRaw [9]\<rparr>)"
proof -
  have "case FromMMMessage example_json example_message ''topic'' of Inr k \<Rightarrow> km_Value k = [9] | _ \<Rightarrow> False"
    "utf8_meta (metadata_of example_message)"
    by code_simp+
  then obtain k where "FromMMMessage example_json example_message ''topic'' = Inr k" "km_Value k = [9]"
    "utf8_meta (metadata_of example_message)"
    by (auto split: sum.splits)
  then show ?thesis using publish_then_poll [of example_message] by auto
qed

text \<open>
  A polled message that is published again keeps its key, its payload bytes and its extension
  headers, and goes to the partition of its receiver's shard.
\<close>

theorem poll_then_publish:
  assumes "ToMMMessage k = Inr m" and "FromMMMessage J m topic = Inr k'"
  shows "of_bytes (km_Key k') = of_bytes (km_Key k) \<and> km_Value k' = km_Value k \<and>
    km_Offset k' = km_Offset k \<and> extension_headers (km_Headers k') = extension_headers (km_Headers k) \<and>
    tp_Partition (km_Partition k') = ActorShard (of_bytes (km_Key k))"
  using assms extension_headers_none [of "km_Headers k"]
  by (auto simp: ToMMMessage_Inr FromMMMessage_Inr metadata_of_def encode_payload_def ActorShard_def
      extension_headers_id)

definition example_record :: kmessage where
  "example_record = \<lparr>km_Partition = \<lparr>tp_Topic = ''topic'', tp_Partition = 3\<rparr>, km_Offset = 40,
     km_Key = bytes_of ''b'', km_Value = [9],
     km_Headers = [\<lparr>hdr_Key = ''h'', hdr_Value = [7]\<rparr>, \<lparr>hdr_Key = sharedMetadataHeader, hdr_Value = bytes_of (marshal_metadata example_meta)\<rparr>],
     km_Timestamp = 0\<rparr>"

theorem poll_then_publish_witness:
  "\<exists>m k'. ToMMMessage example_record = Inr m \<and>
     FromMMMessage example_json m ''topic'' = Inr k' \<and> km_Value k' = [9] \<and>
     tp_Partition (km_Partition k') = ActorShard ''b''"
proof -
  have "case ToMMMessage example_record of
      Inr m \<Rightarrow> (case FromMMMessage example_json m ''topic'' of Inr k' \<Rightarrow> True | _ \<Rightarrow> False) | _ \<Rightarrow> False"
    by code_simp
  then obtain m k' where mk: "ToMMMessage example_record = Inr m"
    "FromMMMessage example_json m ''topic'' = Inr k'"
    by (auto split: sum.splits)
  then show ?thesis using poll_then_publish [OF mk] by (auto simp: example_record_def)
qed

lemma find_metadata_first:
  "find_metadata hs None = Inr (Some md) \<longleftrightarrow>
     (\<exists>pre h post. hs = pre @ h # post \<and> hdr_Key h = sharedMetadataHeader \<and>
        sharedMetadataHeader \<notin> hdr_Key ` set (pre @ post) \<and> unmarshal_metadata (of_bytes (hdr_Value h)) = Some md)"
    (is "?L hs \<longleftrightarrow> ?R hs")
proof (induction hs)
  case (Cons h hs)
  have some: "find_metadata xs (Some md') = Inr (Some md) \<longleftrightarrow>
      md' = md \<and> sharedMetadataHeader \<notin> hdr_Key ` set xs" for xs md'
    by (induction xs) (auto split: option.splits)
  show ?case
  proof (cases "hdr_Key h = sharedMetadataHeader")
    case True
    have "?L (h # hs) \<longleftrightarrow> unmarshal_metadata (of_bytes (hdr_Value h)) = Some md \<and>
        sharedMetadataHeader \<notin> hdr_Key ` set hs"
      using True some by (auto split: option.split)
    also have "\<dots> \<longleftrightarrow> ?R (h # hs)"
    proof
      assume "unmarshal_metadata (of_bytes (hdr_Value h)) = Some md \<and> sharedMetadataHeader \<notin> hdr_Key ` set hs"
      then show "?R (h # hs)" using True by (intro exI [of _ "[]"] exI [of _ h] exI [of _ hs]) simp
    qed (use True in \<open>auto simp: Cons_eq_append_conv\<close>)
    finally show ?thesis .
  next
    case False
    have "?R (h # hs) \<longleftrightarrow> ?R hs"
    proof
      assume "?R hs"
      then obtain pre h' post where "hs = pre @ h' # post" "hdr_Key h' = sharedMetadataHeader"
        "sharedMetadataHeader \<notin> hdr_Key ` set (pre @ post)" "unmarshal_metadata (of_bytes (hdr_Value h')) = Some md"
        by blast
      then show "?R (h # hs)"
        using False by (intro exI [of _ "h # pre"] exI [of _ h'] exI [of _ post]) simp
    next
      assume "?R (h # hs)"
      then obtain pre h' post where r: "h # hs = pre @ h' # post" "hdr_Key h' = sharedMetadataHeader"
        "sharedMetadataHeader \<notin> hdr_Key ` set (pre @ post)" "unmarshal_metadata (of_bytes (hdr_Value h')) = Some md"
        by blast
      then obtain pre' where "pre = h # pre'" using False by (cases pre) auto
      then show "?R hs" using r by (intro exI [of _ pre'] exI [of _ h'] exI [of _ post]) simp
    qed
    then show ?thesis using False Cons by simp
  qed
qed simp

text \<open>
  \<open>ToMMMessage\<close> accepts a record exactly when one header is the framework's, it decodes to
  metadata with a receiver, a message id, a command and a known type, and the key is the receiver.
\<close>

theorem accepts_exactly:
  "(\<exists>m. ToMMMessage k = Inr m) \<longleftrightarrow>
     (\<exists>pre h post md. km_Headers k = pre @ h # post \<and> hdr_Key h = sharedMetadataHeader \<and>
        sharedMetadataHeader \<notin> hdr_Key ` set (pre @ post) \<and> unmarshal_metadata (of_bytes (hdr_Value h)) = Some md \<and>
        ref_Id (md_Receiver md) \<noteq> [] \<and> md_MessageID md \<noteq> [] \<and> md_Command md \<noteq> [] \<and>
        md_Type md \<in> {MessageTypeMemory, MessageTypeTimer, MessageTypeNetwork} \<and>
        of_bytes (km_Key k) = ref_Id (md_Receiver md))"
proof -
  have "(\<exists>m. ToMMMessage k = Inr m) \<longleftrightarrow>
      (\<exists>md. find_metadata (km_Headers k) None = Inr (Some md) \<and> validateMetadata md = None \<and>
        of_bytes (km_Key k) = ref_Id (md_Receiver md))"
    by (auto simp: ToMMMessage_def split: sum.splits option.splits)
  also have "\<dots> \<longleftrightarrow> (\<exists>md. find_metadata (km_Headers k) None = Inr (Some md) \<and>
      (ref_Id (md_Receiver md) \<noteq> [] \<and> md_MessageID md \<noteq> [] \<and> md_Command md \<noteq> [] \<and>
        md_Type md \<in> {MessageTypeMemory, MessageTypeTimer, MessageTypeNetwork}) \<and>
      of_bytes (km_Key k) = ref_Id (md_Receiver md))"
    by (intro ex_cong1) (auto simp: validateMetadata_def)
  finally show ?thesis unfolding find_metadata_first by blast
qed

text \<open>
  C35: a message for an actor whose id is not valid UTF-8 is published without an error, but no
  consumer accepts its record: the id in the JSON metadata has its invalid bytes replaced while the
  key keeps them, so the two differ.
\<close>

theorem invalid_receiver_never_accepted:
  assumes "FromMMMessage J m topic = Inr k" and "\<not> ValidString (ref_Id (Receiver m))"
  shows "(ToMMMessage (k\<lparr>km_Offset := off\<rparr>) :: mq_error + 'v message) = Inl KeyMismatch"
proof -
  let ?md = "coerce_metadata (metadata_of m)"
  have v: "validateMetadata (metadata_of m) = None" and k: "sharedMetadataHeader \<notin> hdr_Key ` set (Headers m)"
    "km_Key k = bytes_of (ref_Id (Receiver m))" "km_Headers k = \<lparr>hdr_Key = sharedMetadataHeader,
      hdr_Value = bytes_of (marshal_metadata (metadata_of m))\<rparr> # Headers m"
    using assms(1) unfolding FromMMMessage_Inr by auto
  have "find_metadata (km_Headers k) None = Inr (Some ?md)"
    using k find_metadata_later unmarshal_marshal [OF validated_int8 [OF v]] by simp
  moreover have "validateMetadata ?md = None"
    using v by (simp add: validateMetadata_def coerce_metadata_def coerce_ref_def split: if_splits)
  moreover have "ref_Id (md_Receiver ?md) \<noteq> ref_Id (Receiver m)"
    using assms(2) coerce_iff_valid by (simp add: coerce_metadata_def coerce_ref_def metadata_of_def)
  ultimately show ?thesis using k(2) by (simp add: ToMMMessage_def)
qed

theorem invalid_receiver_never_accepted_witness:
  "\<exists>k. FromMMMessage example_json (example_message\<lparr>Receiver := \<lparr>ref_Type = ''t'', ref_Id = [CHR 0xFF]\<rparr>\<rparr>) ''topic'' = Inr k \<and>
     (ToMMMessage (k\<lparr>km_Offset := 40\<rparr>) :: mq_error + int message) = Inl KeyMismatch"
proof -
  let ?m = "example_message\<lparr>Receiver := \<lparr>ref_Type = ''t'', ref_Id = [CHR 0xFF]\<rparr>\<rparr>"
  have "case FromMMMessage example_json ?m ''topic'' of Inr k \<Rightarrow> True | _ \<Rightarrow> False"
    and v: "\<not> ValidString (ref_Id (Receiver ?m))"
    by code_simp+
  then obtain k where "FromMMMessage example_json ?m ''topic'' = Inr k" by (auto split: sum.splits)
  then show ?thesis using invalid_receiver_never_accepted [OF _ v] by blast
qed

end
