(* ===== verification/Kafka.thy ===== *)
theory Kafka
  imports Convert Containers
begin

text \<open>
  mq/kafka.go: the adapter that implements mq.IMQ over the Kafka client. The client is a
  library: every call the adapter makes on it is recorded, and an environment answers, given the
  calls so far. \<open>positions\<close> and \<open>paused\<close> read the documented effect of those calls on
  consumption out of the record.
\<close>

section \<open>Configuration and client\<close>

record kafka_config =
  Brokers :: "string list"
  kc_Topic :: string
  GroupID :: string
  DLQTopic :: string
  ClientID :: string
  Timeout :: int

datatype kafka_error = KInvalid | KContext | KClient | KConvert mq_error | KNoResult

record krecord =
  kr_Topic :: string
  kr_Partition :: int
  kr_Offset :: int
  kr_Key :: bytes
  kr_Value :: bytes
  kr_Headers :: "header list"
  kr_Timestamp :: int

record kfetches =
  fetch_errors :: "(string \<times> int) list"
  fetched :: "krecord list"

datatype kcall =
    Ping
  | FetchOffsets string string
  | AddPartitions string "(int, int) gomap"
  | RemovePartitions string "int list"
  | PausePartitions string "int list"
  | ResumePartitions string "int list"
  | CommitOffsets string "(string \<times> int \<times> int) list"
  | Produce krecord
  | PollFetches
  | CloseClient

text \<open>
  The answers: whether the context is done, whether the client can be made and pinged, the
  checkpoint of a shard with its error flag, the error of a commit request and of its
  partitions, the results of a send, and the records polled.
\<close>

record kafka_env =
  ctx_err :: "kcall list \<Rightarrow> bool"
  client_ok :: "kafka_config \<Rightarrow> bool"
  ping_ok :: bool
  saved_offsets :: "kcall list \<Rightarrow> (int \<Rightarrow> (int \<times> bool) option) option"
  commit_reply :: "kcall list \<Rightarrow> (string \<times> int \<times> int) list \<Rightarrow> bool \<times> bool"
  produce_reply :: "kcall list \<Rightarrow> krecord \<Rightarrow> bool \<times> krecord option list"
  poll_reply :: "kcall list \<Rightarrow> kfetches"

record kafka =
  client_calls :: "kcall list"
  config :: kafka_config

definition log_call :: "kcall \<Rightarrow> kafka \<Rightarrow> kafka" where
  "log_call c k = k\<lparr>client_calls := client_calls k @ [c]\<rparr>"

definition topic_of :: "kafka \<Rightarrow> string" where
  "topic_of k = kc_Topic (config k)"

definition NewKafka :: "kafka_env \<Rightarrow> kafka_config \<Rightarrow> kafka_error + kafka" where
  "NewKafka E c =
     (if ctx_err E [] then Inl KContext
      else if Brokers c = [] \<or> blank (kc_Topic c) \<or> blank (GroupID c) \<or> Timeout c < 0 \<or>
        (DLQTopic c \<noteq> [] \<and> (blank (DLQTopic c) \<or> DLQTopic c = kc_Topic c)) then Inl KInvalid
      else if list_ex blank (Brokers c) then Inl KInvalid
      else let c = (if Timeout c = 0 then c\<lparr>Timeout := 5 * 1000000000\<rparr> else c)
      in if \<not> client_ok E c then Inl KClient
         else if \<not> ping_ok E then Inl KClient
         else Inr \<lparr>client_calls = [Ping], config = c\<rparr>)"

section \<open>Subscribing, seeking, pausing\<close>

definition validateShards :: "kafka_env \<Rightarrow> kafka \<Rightarrow> int list \<Rightarrow> kafka_error option" where
  "validateShards E k ss =
     (if ctx_err E (client_calls k) then Some KContext
      else if list_ex (\<lambda>s. s < 0) ss then Some KInvalid else None)"

fun start_offsets ::
  "(int \<Rightarrow> (int \<times> bool) option) \<Rightarrow> int list \<Rightarrow> (int, int) gomap \<Rightarrow> kafka_error + (int, int) gomap" where
  "start_offsets saved [] offsets = Inr offsets"
| "start_offsets saved (s # ss) offsets =
     (case saved s of
        None \<Rightarrow> Inl KInvalid
      | Some (at, err) \<Rightarrow>
          if err then Inl KClient
          else let off = (if at < 0 then OffsetBeginning else at)
          in start_offsets saved ss (map_AddOrUpdate s off offsets))"

definition Subscribe :: "kafka_env \<Rightarrow> int list \<Rightarrow> kafka \<Rightarrow> kafka \<times> kafka_error option" where
  "Subscribe E ss k =
     (case validateShards E k ss of
        Some err \<Rightarrow> (k, Some err)
      | None \<Rightarrow>
          if ss = [] then (k, None)
          else let reply = saved_offsets E (client_calls k);
                   k = log_call (FetchOffsets (GroupID (config k)) (topic_of k)) k
          in case reply of
               None \<Rightarrow> (k, Some KClient)
             | Some saved \<Rightarrow>
                 (case start_offsets saved ss NewMap of
                    Inl err \<Rightarrow> (k, Some err)
                  | Inr offsets \<Rightarrow>
                      if ctx_err E (client_calls k) then (k, Some KContext)
                      else (log_call (AddPartitions (topic_of k) offsets) k, None)))"

definition Unsubscribe :: "kafka_env \<Rightarrow> int list \<Rightarrow> kafka \<Rightarrow> kafka \<times> kafka_error option" where
  "Unsubscribe E ss k =
     (case validateShards E k ss of
        Some err \<Rightarrow> (k, Some err)
      | None \<Rightarrow> (log_call (ResumePartitions (topic_of k) ss)
                  (log_call (RemovePartitions (topic_of k) ss) k), None))"

definition SeekMessage :: "kafka_env \<Rightarrow> int \<Rightarrow> int \<Rightarrow> kafka \<Rightarrow> kafka \<times> kafka_error option" where
  "SeekMessage E s off k =
     (case validateShards E k [s] of
        Some err \<Rightarrow> (k, Some err)
      | None \<Rightarrow>
          if off < 0 then (k, Some KInvalid)
          else (log_call (AddPartitions (topic_of k) (map_AddOrUpdate s off NewMap))
                 (log_call (RemovePartitions (topic_of k) [s]) k), None))"

definition PausePartition :: "kafka_env \<Rightarrow> int \<Rightarrow> kafka \<Rightarrow> kafka \<times> kafka_error option" where
  "PausePartition E s k =
     (case validateShards E k [s] of
        Some err \<Rightarrow> (k, Some err)
      | None \<Rightarrow> (log_call (PausePartitions (topic_of k) [s]) k, None))"

definition ResumePartition :: "kafka_env \<Rightarrow> int \<Rightarrow> kafka \<Rightarrow> kafka \<times> kafka_error option" where
  "ResumePartition E s k =
     (case validateShards E k [s] of
        Some err \<Rightarrow> (k, Some err)
      | None \<Rightarrow> (log_call (ResumePartitions (topic_of k) [s]) k, None))"

text \<open>The loop of \<open>CommitOffset\<close> collects the offsets and returns at the first negative one.\<close>

fun commit_offsets ::
  "string \<Rightarrow> (int \<times> int) list \<Rightarrow> (string \<times> int \<times> int) list \<Rightarrow> kafka_error + (string \<times> int \<times> int) list" where
  "commit_offsets topic [] offsets = Inr offsets"
| "commit_offsets topic ((s, off) # items) offsets =
     (if s < 0 \<or> off < 0 then Inl KInvalid
      else commit_offsets topic items (offsets @ [(topic, s, off)]))"

definition CommitOffset :: "kafka_env \<Rightarrow> (int \<times> int) list \<Rightarrow> kafka \<Rightarrow> kafka \<times> kafka_error option" where
  "CommitOffset E items k =
     (if ctx_err E (client_calls k) then (k, Some KContext)
      else if items = [] then (k, None)
      else case commit_offsets (topic_of k) items [] of
          Inl err \<Rightarrow> (k, Some err)
        | Inr offsets \<Rightarrow>
            let (err, partition_err) = commit_reply E (client_calls k) offsets;
                k = log_call (CommitOffsets (GroupID (config k)) offsets) k
            in if err then (k, Some KClient)
               else if partition_err then (k, Some KClient) else (k, None))"

section \<open>Sending\<close>

definition encodeRecord :: "'v marshaller \<Rightarrow> 'v message \<Rightarrow> string \<Rightarrow> kafka_error + krecord" where
  "encodeRecord J m topic =
     (case FromMMMessage J m topic of
        Inl err \<Rightarrow> Inl (KConvert err)
      | Inr k \<Rightarrow> Inr \<lparr>kr_Topic = tp_Topic (km_Partition k), kr_Partition = tp_Partition (km_Partition k),
          kr_Offset = 0, kr_Key = km_Key k, kr_Value = km_Value k,
          kr_Headers = map (\<lambda>h. \<lparr>hdr_Key = hdr_Key h, hdr_Value = hdr_Value h\<rparr>) (km_Headers k),
          kr_Timestamp = 0\<rparr>)"

record publish_result =
  pr_Partition :: topic_partition
  pr_Offset :: int
  pr_Timestamp :: int

definition produce ::
  "kafka_env \<Rightarrow> krecord \<Rightarrow> kafka \<Rightarrow> kafka \<times> (kafka_error + publish_result)" where
  "produce E r k =
     (if ctx_err E (client_calls k) then (k, Inl KContext)
      else let (err, results) = produce_reply E (client_calls k) r;
               k = log_call (Produce r) k
      in if err then (k, Inl KClient)
         else case results of
             [Some r] \<Rightarrow> (k, Inr \<lparr>pr_Partition = \<lparr>tp_Topic = kr_Topic r, tp_Partition = kr_Partition r\<rparr>,
               pr_Offset = kr_Offset r, pr_Timestamp = kr_Timestamp r\<rparr>)
           | _ \<Rightarrow> (k, Inl KNoResult))"

definition Publish ::
  "'v marshaller \<Rightarrow> kafka_env \<Rightarrow> 'v message \<Rightarrow> kafka \<Rightarrow> kafka \<times> (kafka_error + publish_result)" where
  "Publish J E m k =
     (case encodeRecord J m (topic_of k) of
        Inl err \<Rightarrow> (k, Inl err)
      | Inr r \<Rightarrow> produce E r k)"

definition dlq_headers :: "krecord \<Rightarrow> int \<Rightarrow> string \<Rightarrow> header list" where
  "dlq_headers r off reason =
     [\<lparr>hdr_Key = ''mq.source.topic'', hdr_Value = bytes_of (kr_Topic r)\<rparr>,
      \<lparr>hdr_Key = ''mq.source.partition'', hdr_Value = bytes_of (FormatInt (kr_Partition r))\<rparr>,
      \<lparr>hdr_Key = ''mq.source.offset'', hdr_Value = bytes_of (FormatInt off)\<rparr>,
      \<lparr>hdr_Key = ''mq.reason'', hdr_Value = bytes_of reason\<rparr>]"

definition DLQ ::
  "'v marshaller \<Rightarrow> kafka_env \<Rightarrow> 'v message \<Rightarrow> string \<Rightarrow> kafka \<Rightarrow> kafka \<times> kafka_error option" where
  "DLQ J E m reason k =
     (if DLQTopic (config k) = [] \<or> Offset m < 0 then (k, Some KInvalid)
      else case encodeRecord J m (topic_of k) of
          Inl err \<Rightarrow> (k, Some err)
        | Inr r \<Rightarrow>
            let r = r\<lparr>kr_Headers := kr_Headers r @ dlq_headers r (Offset m) reason\<rparr>;
                r = r\<lparr>kr_Topic := DLQTopic (config k)\<rparr>;
                (k, result) = produce E r k
            in (k, case result of Inl err \<Rightarrow> Some err | Inr _ \<Rightarrow> None))"

section \<open>Polling\<close>

datatype poll_failure = FetchFailure string int | DecodeFailure kmessage mq_error

definition consumed :: "krecord \<Rightarrow> kmessage" where
  "consumed r = \<lparr>km_Partition = \<lparr>tp_Topic = kr_Topic r, tp_Partition = kr_Partition r\<rparr>,
     km_Offset = kr_Offset r, km_Key = kr_Key r, km_Value = kr_Value r,
     km_Headers = map (\<lambda>h. \<lparr>hdr_Key = hdr_Key h, hdr_Value = hdr_Value h\<rparr>) (kr_Headers r),
     km_Timestamp = kr_Timestamp r\<rparr>"

definition decode_record ::
  "krecord \<Rightarrow> 'v message list \<times> poll_failure list \<Rightarrow> 'v message list \<times> poll_failure list" where
  "decode_record r = (\<lambda>(result, failures).
     case ToMMMessage (consumed r) of
       Inl err \<Rightarrow> (result, failures @ [DecodeFailure (consumed r) err])
     | Inr m \<Rightarrow> (result @ [m], failures))"

definition decodeFetches :: "kfetches \<Rightarrow> 'v message list \<times> poll_failure list" where
  "decodeFetches f =
     fold decode_record (fetched f) ([], map (\<lambda>(t, p). FetchFailure t p) (fetch_errors f))"

definition Poll ::
  "kafka_env \<Rightarrow> kafka \<Rightarrow> kafka \<times> (kafka_error + 'v message list \<times> poll_failure list)" where
  "Poll E k =
     (if ctx_err E (client_calls k) then (k, Inl KContext)
      else (log_call PollFetches k, Inr (decodeFetches (poll_reply E (client_calls k)))))"

definition Close :: "kafka \<Rightarrow> kafka" where
  "Close k = log_call CloseClient k"

section \<open>What the calls mean for consumption\<close>

text \<open>
  The documented effect of the calls on the partitions of a topic: the position consumption
  starts from, and whether fetching is paused. Adding a partition that is consumed already
  changes nothing; removing one does not clear its pause.
\<close>

fun position :: "string \<Rightarrow> kcall list \<Rightarrow> int \<Rightarrow> int option" where
  "position t [] s = None"
| "position t (AddPartitions u offs # cs) s =
     (if u = t \<and> position t cs s = None then map_Get offs s else position t cs s)"
| "position t (RemovePartitions u ss # cs) s =
     (if u = t \<and> s \<in> set ss then None else position t cs s)"
| "position t (_ # cs) s = position t cs s"

fun held :: "string \<Rightarrow> kcall list \<Rightarrow> int \<Rightarrow> bool" where
  "held t [] s = False"
| "held t (PausePartitions u ss # cs) s = (u = t \<and> s \<in> set ss \<or> held t cs s)"
| "held t (ResumePartitions u ss # cs) s = (\<not> (u = t \<and> s \<in> set ss) \<and> held t cs s)"
| "held t (_ # cs) s = held t cs s"

definition consumes_from :: "kafka \<Rightarrow> int \<Rightarrow> int option" where
  "consumes_from k s = position (topic_of k) (rev (client_calls k)) s"

definition is_paused :: "kafka \<Rightarrow> int \<Rightarrow> bool" where
  "is_paused k s = held (topic_of k) (rev (client_calls k)) s"

lemma log_call_fields [simp]:
  "client_calls (log_call c k) = client_calls k @ [c]" "config (log_call c k) = config k"
  "topic_of (log_call c k) = topic_of k"
  by (simp_all add: log_call_def topic_of_def)

lemma effects [simp]:
  "consumes_from (log_call (AddPartitions (topic_of k) offs) k) s =
     (if consumes_from k s = None then map_Get offs s else consumes_from k s)"
  "consumes_from (log_call (RemovePartitions (topic_of k) ss) k) s =
     (if s \<in> set ss then None else consumes_from k s)"
  "consumes_from (log_call (PausePartitions u ss) k) s = consumes_from k s"
  "consumes_from (log_call (ResumePartitions u ss) k) s = consumes_from k s"
  "consumes_from (log_call (FetchOffsets g u) k) s = consumes_from k s"
  "is_paused (log_call (AddPartitions u offs) k) s = is_paused k s"
  "is_paused (log_call (RemovePartitions u ss) k) s = is_paused k s"
  "is_paused (log_call (PausePartitions (topic_of k) ss) k) s = (s \<in> set ss \<or> is_paused k s)"
  "is_paused (log_call (ResumePartitions (topic_of k) ss) k) s = (s \<notin> set ss \<and> is_paused k s)"
  by (simp_all add: consumes_from_def is_paused_def)

section \<open>The contract of a shard queue\<close>

text \<open>
  What the node relies on when a shard's window is full: pausing holds the shard, seeking moves
  its position and keeps it held, resuming lets it go, and no other shard is touched.
\<close>

locale shard_queue =
  fixes valid :: "int \<Rightarrow> bool"
    and seek :: "int \<Rightarrow> int \<Rightarrow> 'q \<Rightarrow> 'q"
    and pause :: "int \<Rightarrow> 'q \<Rightarrow> 'q"
    and resume :: "int \<Rightarrow> 'q \<Rightarrow> 'q"
    and pos :: "'q \<Rightarrow> int \<Rightarrow> int option"
    and blocked :: "'q \<Rightarrow> int \<Rightarrow> bool"
  assumes seek_pos: "valid s \<Longrightarrow> 0 \<le> off \<Longrightarrow> pos (seek s off q) t = (if t = s then Some off else pos q t)"
    and seek_blocked: "valid s \<Longrightarrow> 0 \<le> off \<Longrightarrow> blocked (seek s off q) t = blocked q t"
    and pause_pos: "valid s \<Longrightarrow> pos (pause s q) t = pos q t"
    and pause_blocked: "valid s \<Longrightarrow> blocked (pause s q) t = (t = s \<or> blocked q t)"
    and resume_pos: "valid s \<Longrightarrow> pos (resume s q) t = pos q t"
    and resume_blocked: "valid s \<Longrightarrow> blocked (resume s q) t = (t \<noteq> s \<and> blocked q t)"
begin

text \<open>The node's sequence for a full window: pause, later seek and resume.\<close>

lemma pause_seek_resume:
  assumes "valid s" and "0 \<le> off"
  shows "pos (resume s (seek s off (pause s q))) t = (if t = s then Some off else pos q t)"
    and "blocked (resume s (seek s off (pause s q))) t = (t \<noteq> s \<and> blocked q t)"
    and "blocked (seek s off (pause s q)) s"
  using assms by (auto simp: seek_pos seek_blocked pause_pos pause_blocked resume_pos resume_blocked)

end

definition live :: "kafka_env \<Rightarrow> kafka_env" where
  "live E = E\<lparr>ctx_err := (\<lambda>_. False)\<rparr>"

lemma validate_live: "0 \<le> s \<Longrightarrow> validateShards (live E) k [s] = None"
  by (simp add: validateShards_def live_def)

interpretation kq: shard_queue "\<lambda>s. 0 \<le> s" "\<lambda>s off k. fst (SeekMessage (live E) s off k)"
  "\<lambda>s k. fst (PausePartition (live E) s k)" "\<lambda>s k. fst (ResumePartition (live E) s k)"
  consumes_from is_paused for E
proof unfold_locales
  fix s t off :: int and q :: kafka
  assume s: "0 \<le> s" "0 \<le> off"
  let ?r = "log_call (RemovePartitions (topic_of q) [s]) q"
  have eq: "fst (SeekMessage (live E) s off q) =
      log_call (AddPartitions (topic_of ?r) (map_AddOrUpdate s off NewMap)) ?r"
    using s by (simp add: SeekMessage_def validate_live)
  show "consumes_from (fst (SeekMessage (live E) s off q)) t = (if t = s then Some off else consumes_from q t)"
    unfolding eq effects(1,2) by simp
  show "is_paused (fst (SeekMessage (live E) s off q)) t = is_paused q t"
    unfolding eq effects by simp
qed (auto simp: PausePartition_def ResumePartition_def validate_live)

text \<open>
  The sequence the node uses when a window is full works on the Kafka client: pause holds the
  shard, seek while paused keeps it held, and after resume it is consumed again from exactly the
  offset sought; every other shard keeps its position and its pause.
\<close>

theorem pause_seek_resume_kafka:
  assumes "0 \<le> s" and "0 \<le> off"
  shows "let k1 = fst (SeekMessage (live E) s off (fst (PausePartition (live E) s k)));
      k2 = fst (ResumePartition (live E) s k1)
    in is_paused k1 s \<and> consumes_from k2 t = (if t = s then Some off else consumes_from k t) \<and>
      is_paused k2 t = (t \<noteq> s \<and> is_paused k t)"
  unfolding Let_def using kq.pause_seek_resume [OF assms] by simp

definition example_env_kafka :: kafka_env where
  "example_env_kafka = \<lparr>ctx_err = (\<lambda>_. False), client_ok = (\<lambda>_. True), ping_ok = True,
     saved_offsets = (\<lambda>_. Some (\<lambda>s. if s = 3 then Some (- 1, False) else if s = 4 then Some (17, False) else None)),
     commit_reply = (\<lambda>_ _. (False, False)), produce_reply = (\<lambda>_ r. (False, [Some (r\<lparr>kr_Offset := 40\<rparr>)])),
     poll_reply = (\<lambda>_. \<lparr>fetch_errors = [], fetched = []\<rparr>)\<rparr>"

definition example_kafka :: kafka where
  "example_kafka = \<lparr>client_calls = [], config = \<lparr>Brokers = [''b''], kc_Topic = ''topic'', GroupID = ''g'',
     DLQTopic = ''dead'', ClientID = [], Timeout = 5\<rparr>\<rparr>"

theorem pause_seek_resume_kafka_witness:
  "consumes_from (fst (ResumePartition (live example_env_kafka) 3 (fst (SeekMessage (live example_env_kafka) 3 9
     (fst (PausePartition (live example_env_kafka) 3 example_kafka)))))) 3 = Some 9"
  using pause_seek_resume_kafka [of 3 9 example_env_kafka example_kafka 3] by (simp add: Let_def)

section \<open>Subscribing\<close>

lemma start_offsets_eq:
  "start_offsets saved ss offsets = Inr offs \<Longrightarrow>
     (\<forall>s \<in> set ss. \<exists>at. saved s = Some (at, False) \<and> map_Get offs s = Some (if at < 0 then OffsetBeginning else at)) \<and>
     (\<forall>s. s \<notin> set ss \<longrightarrow> map_Get offs s = map_Get offsets s)"
proof (induction ss arbitrary: offsets)
  case (Cons s ss)
  then obtain at where at: "saved s = Some (at, False)"
    by (auto split: option.splits prod.splits if_splits)
  let ?off = "if at < 0 then OffsetBeginning else at"
  have "start_offsets saved ss (map_AddOrUpdate s ?off offsets) = Inr offs"
    using Cons.prems at by (simp add: Let_def)
  note ih = Cons.IH [OF this]
  have "map_Get offs s = Some ?off"
  proof (cases "s \<in> set ss")
    case True
    then show ?thesis using ih at by force
  next
    case False
    then show ?thesis using ih by simp
  qed
  then show ?case using ih at by auto
qed simp

text \<open>
  \<open>Subscribe\<close> is all or nothing: an error adds no partition, and success adds every shard
  once, at its checkpoint or, where none was saved, at the beginning of the partition.
\<close>

theorem subscribe_all_or_nothing:
  assumes "Subscribe E ss k = (k', err)" and "ss \<noteq> []"
  shows "if err \<noteq> None then k' = k \<or> k' = log_call (FetchOffsets (GroupID (config k)) (topic_of k)) k
    else \<exists>saved offs. saved_offsets E (client_calls k) = Some saved \<and>
      client_calls k' = client_calls k @
        [FetchOffsets (GroupID (config k)) (topic_of k), AddPartitions (topic_of k) offs] \<and>
      (\<forall>s. map_Get offs s = (if s \<in> set ss
         then Some (if fst (the (saved s)) < 0 then OffsetBeginning else fst (the (saved s))) else None))"
proof (cases err)
  case (Some e)
  then show ?thesis
    using assms by (auto simp: Subscribe_def Let_def split: option.splits sum.splits if_splits)
next
  case None
  then obtain saved offs where r: "saved_offsets E (client_calls k) = Some saved"
    "start_offsets saved ss NewMap = Inr offs"
    "client_calls k' = client_calls k @
      [FetchOffsets (GroupID (config k)) (topic_of k), AddPartitions (topic_of k) offs]"
    using assms by (auto simp: Subscribe_def Let_def split: option.splits sum.splits if_splits)
  have "map_Get offs s = (if s \<in> set ss
      then Some (if fst (the (saved s)) < 0 then OffsetBeginning else fst (the (saved s))) else None)" for s
    using start_offsets_eq [OF r(2)] by (cases "s \<in> set ss") force+
  then show ?thesis using None r(1,3) by auto
qed

theorem subscribe_all_or_nothing_witness:
  "\<exists>k' offs. Subscribe example_env_kafka [3, 4] example_kafka = (k', None) \<and>
     client_calls k' = [FetchOffsets ''g'' ''topic'', AddPartitions ''topic'' offs] \<and>
     map_Get offs 3 = Some OffsetBeginning \<and> map_Get offs 4 = Some 17"
proof -
  have "snd (Subscribe example_env_kafka [3, 4] example_kafka) = None" by code_simp
  then obtain k' where "Subscribe example_env_kafka [3, 4] example_kafka = (k', None)"
    by (cases "Subscribe example_env_kafka [3, 4] example_kafka") simp
  then show ?thesis
    using subscribe_all_or_nothing [of example_env_kafka "[3, 4]" example_kafka k' None]
    by (force simp: example_env_kafka_def example_kafka_def topic_of_def)
qed

section \<open>Polling\<close>

lemma decode_fold:
  "fold decode_record rs (ms :: 'v message list, fs) =
     (ms @ List.map_filter (\<lambda>r. case ToMMMessage (consumed r) of Inr m \<Rightarrow> Some m | Inl _ \<Rightarrow> None) rs,
      fs @ List.map_filter (\<lambda>r. case (ToMMMessage (consumed r) :: mq_error + 'v message) of
        Inl err \<Rightarrow> Some (DecodeFailure (consumed r) err) | Inr _ \<Rightarrow> None) rs)"
  by (induction rs arbitrary: ms fs) (auto simp: decode_record_def map_filter_simps split: sum.splits)

lemma map_filter_split:
  "length (List.map_filter (\<lambda>r. case f r of Inr m \<Rightarrow> Some m | Inl _ \<Rightarrow> None) rs) +
   length (List.map_filter (\<lambda>r. case f r of Inl err \<Rightarrow> Some (g r err) | Inr _ \<Rightarrow> None) rs) = length rs"
  by (induction rs) (auto simp: map_filter_simps split: sum.splits)

text \<open>
  C30: a poll loses nothing: the messages are those of the records that decode, in the order of
  the records; every other record and every partition that could not be fetched is reported in
  the error, with its raw bytes and position.
\<close>

theorem decode_fetches_complete:
  "let (messages, failures) = decodeFetches f in
     messages = List.map_filter (\<lambda>r. case (ToMMMessage (consumed r) :: mq_error + 'v message) of Inr m \<Rightarrow> Some m | Inl _ \<Rightarrow> None) (fetched f) \<and>
     failures = map (\<lambda>(t, p). FetchFailure t p) (fetch_errors f) @
       List.map_filter (\<lambda>r. case (ToMMMessage (consumed r) :: mq_error + 'v message) of
         Inl err \<Rightarrow> Some (DecodeFailure (consumed r) err) | Inr _ \<Rightarrow> None) (fetched f) \<and>
     length messages + length failures = length (fetched f) + length (fetch_errors f)"
  using map_filter_split [of "\<lambda>r. (ToMMMessage (consumed r) :: mq_error + 'v message)" "fetched f"
      "\<lambda>r. DecodeFailure (consumed r)"]
  by (simp add: decodeFetches_def decode_fold)

section \<open>Dead letters\<close>

lemma header_eta [simp]: "map (\<lambda>h. \<lparr>hdr_Key = hdr_Key h, hdr_Value = hdr_Value h\<rparr>) hs = (hs :: header list)"
  by (rule map_idI) simp



section \<open>Commits\<close>

lemma commit_offsets_eq:
  "commit_offsets t items acc =
     (if list_all (\<lambda>(s, off). 0 \<le> s \<and> 0 \<le> off) items
      then Inr (acc @ map (\<lambda>(s, off). (t, s, off)) items) else Inl KInvalid)"
  by (induction t items acc rule: commit_offsets.induct) auto

text \<open>
  \<open>CommitOffset\<close> sends the offsets as they are given, in one request, and only when none is
  negative; it succeeds only when neither the request nor a partition reports an error.
\<close>

theorem commit_sent_as_given:
  "case CommitOffset E items k of (k', err) \<Rightarrow>
     (k' = k \<or> k' = log_call (CommitOffsets (GroupID (config k)) (map (\<lambda>(s, off). (topic_of k, s, off)) items)) k \<and>
        list_all (\<lambda>(s, off). 0 \<le> s \<and> 0 \<le> off) items) \<and>
     (err = None \<longleftrightarrow> \<not> ctx_err E (client_calls k) \<and> (items = [] \<or> list_all (\<lambda>(s, off). 0 \<le> s \<and> 0 \<le> off) items \<and>
        commit_reply E (client_calls k) (map (\<lambda>(s, off). (topic_of k, s, off)) items) = (False, False)))"
  by (auto simp: CommitOffset_def commit_offsets_eq Let_def split: prod.splits)

end
