(* ===== verification/KafkaDemo.thy ===== *)
theory KafkaDemo
  imports Kafka
begin

text \<open>
  examples/kafka/main.go: the demonstration program as concurrent steps over the Kafka adapter. One
  goroutine polls and forwards to a bounded channel, two producers publish three messages each, and
  the main goroutine prints and commits one message at a time until an error or a signal; then the
  deferred function stops the poll goroutine, unsubscribes, closes the client and waits for the
  producers. Flags, logging and the exit code are not modelled.
\<close>

section \<open>State\<close>

datatype demo_error = QueueError kafka_error | PollFailed "poll_failure list"

datatype 'v poller = Polling | Forwarding "'v message list" | PollDone

text \<open>\<open>Leaving\<close>: \<open>run\<close> has its result and the deferred function waits for the poll goroutine.\<close>

datatype main_phase = Serving | Leaving "demo_error option" | Joining "demo_error option"
  | Returned "demo_error option"

definition mailbox_size :: nat where "mailbox_size = 16"
definition messages_each :: int where "messages_each = 3"

text \<open>\<open>dm_next\<close>: the sequence number each producer publishes next. \<open>dm_halted\<close>: \<open>cancel\<close> was called.\<close>

record 'v demo =
  dm_kafka :: kafka
  dm_mailbox :: "'v message list"
  dm_poller :: "'v poller"
  dm_poll_error :: "demo_error option"
  dm_next :: "int list"
  dm_produce_errors :: "demo_error list"
  dm_printed :: "'v message list"
  dm_main :: main_phase
  dm_halted :: bool

definition demo_env :: "kafka_env \<Rightarrow> 'v demo \<Rightarrow> kafka_env" where
  "demo_env E d = (if dm_halted d then E\<lparr>ctx_err := (\<lambda>_. True)\<rparr> else E)"

definition ctx_done :: "kafka_env \<Rightarrow> 'v demo \<Rightarrow> bool" where
  "ctx_done E d \<longleftrightarrow> ctx_err (demo_env E d) (client_calls (dm_kafka d))"

section \<open>The goroutines\<close>

definition demo_start :: "kafka_env \<Rightarrow> kafka_config \<Rightarrow> string \<Rightarrow> (kafka_error \<times> kafka option) + 'v demo" where
  "demo_start E c actorID =
     (case NewKafka E c of
        Inl err \<Rightarrow> Inl (err, None)
      | Inr k \<Rightarrow>
          (case Subscribe E [ActorShardID actorID] k of
             (k, Some err) \<Rightarrow> Inl (err, Some (Close k))
           | (k, None) \<Rightarrow> Inr \<lparr>dm_kafka = k, dm_mailbox = [], dm_poller = Polling, dm_poll_error = None,
               dm_next = [0, 0], dm_produce_errors = [], dm_printed = [], dm_main = Serving, dm_halted = False\<rparr>))"

text \<open>One call of \<open>Poll\<close>: any error ends the goroutine, messages that come with it are not used.\<close>

definition demo_poll :: "kafka_env \<Rightarrow> 'v demo \<Rightarrow> 'v demo" where
  "demo_poll E d =
     (case Poll (demo_env E d) (dm_kafka d) of
        (k, Inl err) \<Rightarrow> d\<lparr>dm_kafka := k, dm_poll_error := Some (QueueError err), dm_poller := PollDone\<rparr>
      | (k, Inr (messages, failures)) \<Rightarrow>
          if failures \<noteq> []
          then d\<lparr>dm_kafka := k, dm_poll_error := Some (PollFailed failures), dm_poller := PollDone\<rparr>
          else d\<lparr>dm_kafka := k, dm_poller := Forwarding messages\<rparr>)"

definition demo_message :: "string \<Rightarrow> string \<Rightarrow> int \<Rightarrow> int \<Rightarrow> 'v message" where
  "demo_message runID actorID producer sequence =
     zero_message\<lparr>Receiver := \<lparr>ref_Type = ''demo'', ref_Id = actorID\<rparr>,
       MessageId := runID @ ''-'' @ FormatInt producer @ ''-'' @ FormatInt sequence,
       TraceId := runID, Type := MessageTypeNetwork, Command := ''demo.print'',
       Payload := PBytes (bytes_of (''producer='' @ FormatInt producer @ '' sequence='' @ FormatInt sequence))\<rparr>"

text \<open>One round of producer \<open>i\<close>; after an error it returns.\<close>

definition demo_produce :: "'v marshaller \<Rightarrow> kafka_env \<Rightarrow> string \<Rightarrow> string \<Rightarrow> nat \<Rightarrow> 'v demo \<Rightarrow> 'v demo" where
  "demo_produce J E runID actorID i d =
     (case Publish J (demo_env E d) (demo_message runID actorID (int i) (dm_next d ! i)) (dm_kafka d) of
        (k, Inl err) \<Rightarrow> d\<lparr>dm_kafka := k, dm_produce_errors := dm_produce_errors d @ [QueueError err],
          dm_next := (dm_next d)[i := messages_each]\<rparr>
      | (k, Inr _) \<Rightarrow> d\<lparr>dm_kafka := k, dm_next := (dm_next d)[i := dm_next d ! i + 1]\<rparr>)"

definition demo_print :: "kafka_env \<Rightarrow> string \<Rightarrow> 'v message \<Rightarrow> 'v message list \<Rightarrow> 'v demo \<Rightarrow> 'v demo" where
  "demo_print E actorID m rest d =
     (case CommitOffset (demo_env E d) [(ActorShardID actorID, Offset m + 1)] (dm_kafka d) of
        (k, err) \<Rightarrow> d\<lparr>dm_kafka := k, dm_mailbox := rest, dm_printed := dm_printed d @ [m],
          dm_main := (case err of None \<Rightarrow> Serving | Some err \<Rightarrow> Leaving (Some (QueueError err)))\<rparr>)"

definition demo_result :: "kafka_env \<Rightarrow> 'v demo \<Rightarrow> demo_error \<Rightarrow> demo_error option" where
  "demo_result E d err = (if ctx_done E d then None else Some err)"

text \<open>The deferred function after the poll goroutine is done; its context is the background one.\<close>

definition demo_close :: "kafka_env \<Rightarrow> string \<Rightarrow> kafka \<Rightarrow> kafka" where
  "demo_close E actorID k = Close (fst (Unsubscribe (E\<lparr>ctx_err := (\<lambda>_. False)\<rparr>) [ActorShardID actorID] k))"

text \<open>
  Every step of every goroutine. The second component of a state: the messages that \<open>Poll\<close> has returned
  without an error, in order. A call of the adapter is one step, it returns.
\<close>

inductive demo_step ::
  "'v marshaller \<Rightarrow> kafka_env \<Rightarrow> string \<Rightarrow> string \<Rightarrow> 'v demo \<times> 'v message list \<Rightarrow> 'v demo \<times> 'v message list \<Rightarrow> bool"
  for J E runID actorID where
  demo_polls: "dm_poller d = Polling \<Longrightarrow> demo_poll E d = d' \<Longrightarrow>
    demo_step J E runID actorID (d, polled) (d', polled @ (case dm_poller d' of Forwarding ms \<Rightarrow> ms | _ \<Rightarrow> []))"
| demo_forward: "dm_poller d = Forwarding (m # ms) \<Longrightarrow> length (dm_mailbox d) < mailbox_size \<Longrightarrow>
    demo_step J E runID actorID (d, polled) (d\<lparr>dm_mailbox := dm_mailbox d @ [m], dm_poller := Forwarding ms\<rparr>, polled)"
| demo_forwarded: "dm_poller d = Forwarding [] \<Longrightarrow>
    demo_step J E runID actorID (d, polled) (d\<lparr>dm_poller := Polling\<rparr>, polled)"
| demo_abandon: "dm_poller d = Forwarding (m # ms) \<Longrightarrow> ctx_done E d \<Longrightarrow>
    demo_step J E runID actorID (d, polled) (d\<lparr>dm_poller := PollDone\<rparr>, polled)"
| demo_publish: "i < length (dm_next d) \<Longrightarrow> dm_next d ! i < messages_each \<Longrightarrow>
    demo_step J E runID actorID (d, polled) (demo_produce J E runID actorID i d, polled)"
| demo_receive: "dm_main d = Serving \<Longrightarrow> dm_mailbox d = m # rest \<Longrightarrow>
    demo_step J E runID actorID (d, polled) (demo_print E actorID m rest d, polled)"
| demo_poll_error: "dm_main d = Serving \<Longrightarrow> dm_poll_error d = Some err \<Longrightarrow>
    demo_step J E runID actorID (d, polled) (d\<lparr>dm_poll_error := None, dm_main := Leaving (demo_result E d err)\<rparr>, polled)"
| demo_produce_error: "dm_main d = Serving \<Longrightarrow> dm_produce_errors d = err # errs \<Longrightarrow>
    demo_step J E runID actorID (d, polled) (d\<lparr>dm_produce_errors := errs, dm_main := Leaving (demo_result E d err)\<rparr>, polled)"
| demo_signal: "dm_main d = Serving \<Longrightarrow> ctx_done E d \<Longrightarrow>
    demo_step J E runID actorID (d, polled) (d\<lparr>dm_main := Leaving None\<rparr>, polled)"
| demo_cancel: "dm_main d = Leaving r \<Longrightarrow> \<not> dm_halted d \<Longrightarrow>
    demo_step J E runID actorID (d, polled) (d\<lparr>dm_halted := True\<rparr>, polled)"
| demo_join: "dm_main d = Leaving r \<Longrightarrow> dm_halted d \<Longrightarrow> dm_poller d = PollDone \<Longrightarrow>
    demo_step J E runID actorID (d, polled)
      (d\<lparr>dm_kafka := demo_close E actorID (dm_kafka d), dm_main := Joining r\<rparr>, polled)"
| demo_return: "dm_main d = Joining r \<Longrightarrow> list_all (\<lambda>q. messages_each \<le> q) (dm_next d) \<Longrightarrow>
    demo_step J E runID actorID (d, polled) (d\<lparr>dm_main := Returned r\<rparr>, polled)"

inductive demo_run ::
  "'v marshaller \<Rightarrow> kafka_env \<Rightarrow> kafka_config \<Rightarrow> string \<Rightarrow> string \<Rightarrow> 'v demo \<Rightarrow> 'v message list \<Rightarrow> bool"
  for J E c runID actorID where
  demo_begin: "demo_start E c actorID = Inr d \<Longrightarrow> demo_run J E c runID actorID d []"
| demo_next: "demo_run J E c runID actorID d polled \<Longrightarrow> demo_step J E runID actorID (d, polled) (d', polled') \<Longrightarrow>
    demo_run J E c runID actorID d' polled'"

section \<open>What the program commits\<close>

definition commit_log :: "kafka \<Rightarrow> (string \<times> int \<times> int) list list" where
  "commit_log k = concat (map (\<lambda>call. case call of CommitOffsets g offsets \<Rightarrow> [offsets] | _ \<Rightarrow> []) (client_calls k))"

lemma log_call_topic [simp]: "topic_of (log_call call k) = topic_of k"
  by (simp add: log_call_def topic_of_def)

lemma log_call_commits [simp]:
  "commit_log (log_call call k) = commit_log k @ (case call of CommitOffsets g offsets \<Rightarrow> [offsets] | _ \<Rightarrow> [])"
  by (simp add: log_call_def commit_log_def)

lemma Poll_frame [simp]:
  "topic_of (fst (Poll E k)) = topic_of k" "commit_log (fst (Poll E k)) = commit_log k"
  by (simp_all add: Poll_def)

lemma Publish_frame [simp]:
  "topic_of (fst (Publish J E m k)) = topic_of k" "commit_log (fst (Publish J E m k)) = commit_log k"
  by (auto simp: Publish_def produce_def Let_def case_prod_beta split: sum.splits list.splits option.splits)

lemma Unsubscribe_frame [simp]:
  "topic_of (fst (Unsubscribe E ss k)) = topic_of k" "commit_log (fst (Unsubscribe E ss k)) = commit_log k"
  by (simp_all add: Unsubscribe_def split: option.split)

lemma Close_frame [simp]: "topic_of (Close k) = topic_of k" "commit_log (Close k) = commit_log k"
  by (simp_all add: Close_def)

lemma Subscribe_frame:
  "topic_of (fst (Subscribe E ss k)) = topic_of k \<and> commit_log (fst (Subscribe E ss k)) = commit_log k"
  by (auto simp: Subscribe_def Let_def split: option.splits sum.splits)

lemma CommitOffset_one:
  assumes "CommitOffset E [(s, off)] k = (k', err)"
  shows "topic_of k' = topic_of k"
    and "commit_log k' = commit_log k @ [[(topic_of k, s, off)]] \<or> commit_log k' = commit_log k \<and> err \<noteq> None"
  using assms by (auto simp: CommitOffset_def Let_def case_prod_beta split: if_splits)

definition commit_of :: "string \<Rightarrow> string \<Rightarrow> 'v message \<Rightarrow> (string \<times> int \<times> int) list" where
  "commit_of topic actorID m = [(topic, ActorShardID actorID, Offset m + 1)]"

definition demo_flow :: "'v demo \<Rightarrow> 'v message list \<Rightarrow> bool" where
  "demo_flow d polled \<longleftrightarrow> length (dm_mailbox d) \<le> mailbox_size \<and>
     (\<exists>rest. polled = dm_printed d @ dm_mailbox d @ rest \<and>
        (case dm_poller d of Polling \<Rightarrow> rest = [] | Forwarding ms \<Rightarrow> rest = ms | PollDone \<Rightarrow> True))"

definition demo_commits :: "string \<Rightarrow> string \<Rightarrow> 'v demo \<Rightarrow> bool" where
  "demo_commits topic actorID d \<longleftrightarrow> topic_of (dm_kafka d) = topic \<and>
     (\<exists>late. commit_log (dm_kafka d) @ late = map (commit_of topic actorID) (dm_printed d) \<and> length late \<le> 1 \<and>
        (dm_main d = Serving \<longrightarrow> late = []))"

definition demo_inv :: "string \<Rightarrow> string \<Rightarrow> 'v demo \<Rightarrow> 'v message list \<Rightarrow> bool" where
  "demo_inv topic actorID d polled \<longleftrightarrow> demo_flow d polled \<and> demo_commits topic actorID d \<and>
     (dm_poll_error d \<noteq> None \<longrightarrow> dm_poller d = PollDone)"

lemma demo_inv_start:
  assumes "demo_start E c actorID = Inr d"
  shows "demo_inv (kc_Topic c) actorID d []"
proof -
  obtain k where k: "NewKafka E c = Inr k" "dm_kafka d = fst (Subscribe E [ActorShardID actorID] k)"
    "dm_mailbox d = []" "dm_poller d = Polling" "dm_printed d = []" "dm_poll_error d = None"
    using assms by (auto simp: demo_start_def split: sum.splits prod.splits option.splits)
  then have "topic_of k = kc_Topic c" "commit_log k = []"
    by (auto simp: NewKafka_def topic_of_def commit_log_def Let_def split: if_splits)
  then show ?thesis
    using k Subscribe_frame [of E "[ActorShardID actorID]" k]
    by (simp add: demo_inv_def demo_flow_def demo_commits_def mailbox_size_def)
qed

lemma demo_inv_poll:
  assumes "demo_inv topic actorID d polled" and "dm_poller d = Polling"
  shows "demo_inv topic actorID (demo_poll E d) (polled @ (case dm_poller (demo_poll E d) of Forwarding ms \<Rightarrow> ms | _ \<Rightarrow> []))"
proof -
  obtain k reply where p: "Poll (demo_env E d) (dm_kafka d) = (k, reply :: kafka_error + 'a message list \<times> poll_failure list)"
    by (cases "Poll (demo_env E d) (dm_kafka d) :: _ \<times> (kafka_error + 'a message list \<times> poll_failure list)") auto
  have "topic_of k = topic_of (dm_kafka d)" "commit_log k = commit_log (dm_kafka d)"
    using Poll_frame [of "demo_env E d" "dm_kafka d"] p by (metis fst_conv)+
  then show ?thesis
    using assms p by (auto simp: demo_poll_def demo_inv_def demo_flow_def demo_commits_def split: sum.split prod.split)
qed

lemma demo_inv_produce:
  assumes "demo_inv topic actorID d polled"
  shows "demo_inv topic actorID (demo_produce J E runID aid i d) polled"
proof -
  let ?p = "Publish J (demo_env E d) (demo_message runID aid (int i) (dm_next d ! i)) (dm_kafka d)"
  obtain k reply where p: "?p = (k, reply)" by (cases ?p)
  have "topic_of k = topic_of (dm_kafka d)" "commit_log k = commit_log (dm_kafka d)"
    using Publish_frame [of J "demo_env E d" "demo_message runID aid (int i) (dm_next d ! i)" "dm_kafka d"] p
    by simp_all
  then show ?thesis
    using assms p by (cases reply) (auto simp: demo_produce_def demo_inv_def demo_flow_def demo_commits_def)
qed

lemma demo_inv_print:
  assumes "demo_inv topic actorID d polled" and "dm_main d = Serving" and "dm_mailbox d = m # rest"
  shows "demo_inv topic actorID (demo_print E actorID m rest d) polled"
proof -
  obtain k err where c: "CommitOffset (demo_env E d) [(ActorShardID actorID, Offset m + 1)] (dm_kafka d) = (k, err)"
    by fastforce
  have log: "topic_of (dm_kafka d) = topic" "commit_log (dm_kafka d) = map (commit_of topic actorID) (dm_printed d)"
    using assms(1,2) by (auto simp: demo_inv_def demo_commits_def)
  have "demo_flow (demo_print E actorID m rest d) polled"
    using assms(1,3) c by (auto simp: demo_print_def demo_inv_def demo_flow_def)
  moreover have "demo_commits topic actorID (demo_print E actorID m rest d)"
    using CommitOffset_one [OF c] log c
    by (auto simp: demo_print_def demo_commits_def commit_of_def split: option.split)
  ultimately show ?thesis
    using assms(1) c by (simp add: demo_inv_def demo_print_def)
qed

lemma demo_inv_step:
  "demo_step J E runID actorID s s' \<Longrightarrow> demo_inv topic actorID (fst s) (snd s) \<Longrightarrow>
     demo_inv topic actorID (fst s') (snd s')"
proof (induction rule: demo_step.induct)
  case (demo_polls d d' polled)
  then show ?case using demo_inv_poll [of topic actorID d polled E] by auto
next
  case (demo_publish i d polled)
  then show ?case by (simp add: demo_inv_produce)
next
  case (demo_receive d m rest polled)
  then show ?case by (simp add: demo_inv_print)
qed (auto simp: demo_inv_def demo_flow_def demo_commits_def mailbox_size_def demo_close_def)

lemma demo_run_inv: "demo_run J E c runID actorID d polled \<Longrightarrow> demo_inv (kc_Topic c) actorID d polled"
proof (induction rule: demo_run.induct)
  case (demo_begin d)
  then show ?case by (rule demo_inv_start)
next
  case (demo_next d polled d' polled')
  show ?case using demo_inv_step [OF demo_next.hyps(2)] demo_next.IH by simp
qed

section \<open>Properties\<close>

text \<open>One record is polled, forwarded, printed and committed; the broker may refuse the commit.\<close>

definition demo_record :: krecord where
  "demo_record = \<lparr>kr_Topic = ''topic'', kr_Partition = ActorShardID ''b'', kr_Offset = 40, kr_Key = bytes_of ''b'',
     kr_Value = [9], kr_Headers = [\<lparr>hdr_Key = sharedMetadataHeader, hdr_Value = bytes_of (marshal_metadata example_meta)\<rparr>],
     kr_Timestamp = 0\<rparr>"

definition demo_broker :: "bool \<Rightarrow> kafka_env" where
  "demo_broker refuses = example_env_kafka\<lparr>saved_offsets := (\<lambda>_. Some (\<lambda>_. Some (- 1, False))),
     commit_reply := (\<lambda>_ _. (refuses, False)),
     poll_reply := (\<lambda>_. \<lparr>fetch_errors = [], fetched = [demo_record]\<rparr>)\<rparr>"

definition demo_received :: "int message" where
  "demo_received = (case ToMMMessage (consumed demo_record) of Inr m \<Rightarrow> m | Inl _ \<Rightarrow> zero_message)"

definition demo_begun :: "bool \<Rightarrow> int demo" where
  "demo_begun refuses = (case demo_start (demo_broker refuses) (config example_kafka) ''b'' of
     Inr d \<Rightarrow> d | Inl _ \<Rightarrow> undefined)"

definition demo_waiting :: "bool \<Rightarrow> int demo" where
  "demo_waiting refuses = (demo_poll (demo_broker refuses) (demo_begun refuses))
     \<lparr>dm_mailbox := [demo_received], dm_poller := Forwarding []\<rparr>"

definition demo_served :: "bool \<Rightarrow> int demo" where
  "demo_served refuses = demo_print (demo_broker refuses) ''b'' demo_received [] (demo_waiting refuses)"

lemma demo_record_decodes: "ToMMMessage (consumed demo_record) = Inr demo_received" and demo_received_offset: "Offset demo_received = 40"
proof -
  have "case (ToMMMessage (consumed demo_record) :: _ + int message) of Inr m \<Rightarrow> Offset m = 40 | _ \<Rightarrow> False"
    by code_simp
  then show "ToMMMessage (consumed demo_record) = Inr demo_received" "Offset demo_received = 40"
    by (auto simp: demo_received_def split: sum.splits)
qed

lemma blank_b: "\<not> blank ''b''"
  by code_simp

lemma demo_begun:
  "demo_start (demo_broker refuses) (config example_kafka) ''b'' = Inr (demo_begun refuses)"
  "dm_poller (demo_begun refuses) = Polling" "dm_mailbox (demo_begun refuses) = []"
  "dm_main (demo_begun refuses) = Serving" "\<not> dm_halted (demo_begun refuses)" "dm_printed (demo_begun refuses) = []"
proof -
  have shard: "\<not> ActorShardID ''b'' < 0" "\<not> blank ''topic''" "\<not> blank ''g''" "\<not> blank ''dead''"
    by code_simp+
  show "demo_start (demo_broker refuses) (config example_kafka) ''b'' = Inr (demo_begun refuses)"
    "dm_poller (demo_begun refuses) = Polling" "dm_mailbox (demo_begun refuses) = []"
    "dm_main (demo_begun refuses) = Serving" "\<not> dm_halted (demo_begun refuses)" "dm_printed (demo_begun refuses) = []"
    using shard by (simp_all add: demo_begun_def demo_start_def NewKafka_def Subscribe_def validateShards_def demo_broker_def
        example_env_kafka_def example_kafka_def blank_b log_call_def)
qed

lemma demo_poll_begun:
  "demo_poll (demo_broker refuses) (demo_begun refuses) = (demo_begun refuses)
    \<lparr>dm_kafka := log_call PollFetches (dm_kafka (demo_begun refuses)), dm_poller := Forwarding [demo_received]\<rparr>"
  using demo_record_decodes demo_begun(5)
  by (simp add: demo_poll_def Poll_def demo_env_def decodeFetches_def decode_record_def demo_broker_def example_env_kafka_def)

lemma demo_broker_answers [simp]:
  "ctx_err (demo_broker refuses) log = False" "commit_reply (demo_broker refuses) log offs = (refuses, False)"
  by (simp_all add: demo_broker_def example_env_kafka_def)

lemma demo_served:
  "dm_printed (demo_served refuses) = [demo_received]"
  "dm_main (demo_served refuses) = (if refuses then Leaving (Some (QueueError KClient)) else Serving)"
proof -
  have "\<not> ActorShardID ''b'' < 0" by code_simp
  then show "dm_printed (demo_served refuses) = [demo_received]"
    "dm_main (demo_served refuses) = (if refuses then Leaving (Some (QueueError KClient)) else Serving)"
    by (simp_all add: demo_served_def demo_print_def demo_waiting_def demo_poll_begun demo_begun CommitOffset_def
        demo_env_def demo_received_offset Let_def)
qed

lemma demo_served_run:
  "demo_run example_json (demo_broker refuses) (config example_kafka) ''run'' ''b'' (demo_served refuses) [demo_received]"
proof -
  let ?run = "demo_run example_json (demo_broker refuses) (config example_kafka) ''run'' ''b''"
  have "?run (demo_poll (demo_broker refuses) (demo_begun refuses)) [demo_received]"
    using demo_next [OF demo_begin [OF demo_begun(1)] demo_polls [OF demo_begun(2) refl]] demo_poll_begun by simp
  from demo_next [OF this demo_forward [of _ demo_received "[]"]]
  have "?run (demo_waiting refuses) [demo_received]"
    by (simp add: demo_waiting_def demo_poll_begun demo_begun mailbox_size_def)
  then show ?thesis
    unfolding demo_served_def by (rule demo_next [OF _ demo_receive]) (simp_all add: demo_waiting_def demo_poll_begun demo_begun)
qed

text \<open>
  C39: the demonstration program commits message by message what it prints, in the order of the
  queue: in every interleaving the commits it sent are the successors of the offsets of the printed
  messages, at most the last one missing (its commit failed before it was sent and the program
  leaves); printed and waiting messages are, in order, the first of the polled ones, and at most
  sixteen wait.
\<close>

theorem demo_commits_what_it_prints:
  assumes "demo_run J E c runID actorID d polled"
  shows "\<exists>rest late. polled = dm_printed d @ dm_mailbox d @ rest \<and> length (dm_mailbox d) \<le> 16 \<and>
    commit_log (dm_kafka d) @ late = map (\<lambda>m. [(kc_Topic c, ActorShardID actorID, Offset m + 1)]) (dm_printed d) \<and>
    length late \<le> 1 \<and> (dm_main d = Serving \<longrightarrow> late = [])"
  using demo_run_inv [OF assms]
  by (auto simp: demo_inv_def demo_flow_def demo_commits_def mailbox_size_def commit_of_def [abs_def])

theorem demo_commits_what_it_prints_witness:
  "demo_run example_json (demo_broker False) (config example_kafka) ''run'' ''b'' (demo_served False) [demo_received] \<and>
   commit_log (dm_kafka (demo_served False)) = [[(''topic'', ActorShardID ''b'', 41)]]"
proof -
  have "dm_printed (demo_served False) = [demo_received] \<and> dm_main (demo_served False) = Serving \<and> Offset demo_received = 40"
    by (simp add: demo_served demo_received_offset)
  then show ?thesis
    using demo_commits_what_it_prints [OF demo_served_run [of False]] demo_served_run [of False]
    by (auto simp: example_kafka_def)
qed

section \<open>Shutting down\<close>

lemma Publish_cancelled:
  "(\<And>log. ctx_err E log) \<Longrightarrow> \<exists>err. Publish J E m k = (k, Inl err)"
  by (simp add: Publish_def produce_def split: sum.split)

lemma demo_produce_halted:
  assumes "dm_halted d"
  shows "\<exists>err. demo_produce J E runID actorID i d = d\<lparr>dm_produce_errors := dm_produce_errors d @ [err],
    dm_next := (dm_next d)[i := messages_each]\<rparr>"
  using Publish_cancelled [of "demo_env E d" J "demo_message runID actorID (int i) (dm_next d ! i)" "dm_kafka d"] assms
  by (force simp: demo_produce_def demo_env_def)

lemma demo_poll_halted:
  "dm_halted d \<Longrightarrow> demo_poll E d = d\<lparr>dm_poll_error := Some (QueueError KContext), dm_poller := PollDone\<rparr>"
  by (simp add: demo_poll_def Poll_def demo_env_def)

text \<open>What holds from the join of the poll goroutine on.\<close>

definition demo_shut :: "'v demo \<Rightarrow> bool" where
  "demo_shut d \<longleftrightarrow>
     (dm_main d \<in> range Joining \<union> range Returned \<longrightarrow>
        dm_halted d \<and> dm_poller d = PollDone \<and> last (client_calls (dm_kafka d)) = CloseClient) \<and>
     (dm_main d \<in> range Returned \<longrightarrow> list_all (\<lambda>q. messages_each \<le> q) (dm_next d))"

lemma demo_close_last [simp]: "last (client_calls (demo_close E actorID k)) = CloseClient"
  by (simp add: demo_close_def) (simp add: Close_def log_call_def)

lemma demo_poll_main [simp]: "dm_main (demo_poll E d) = dm_main d" "dm_next (demo_poll E d) = dm_next d"
  by (simp_all add: demo_poll_def split: prod.split sum.split)

lemma demo_produce_main [simp]: "dm_main (demo_produce J E runID actorID i d) = dm_main d"
  by (simp add: demo_produce_def split: prod.split sum.split)

lemma demo_print_main: "dm_main (demo_print E actorID m rest d) \<in> insert Serving (range Leaving)"
  by (auto simp: demo_print_def split: prod.split option.split)

lemma demo_shut_step:
  "demo_step J E runID actorID s s' \<Longrightarrow> demo_shut (fst s) \<Longrightarrow> demo_shut (fst s')"
proof (induction rule: demo_step.induct)
  case (demo_polls d d' polled)
  then show ?case by (auto simp: demo_shut_def)
next
  case (demo_publish i d polled)
  then show ?case
    using demo_produce_halted [of d J E runID actorID i]
    by (cases "dm_main d \<in> range Joining \<union> range Returned") (auto simp: demo_shut_def list_all_length)
next
  case (demo_receive d m rest polled)
  then show ?case using demo_print_main [of E actorID m rest d] by (auto simp: demo_shut_def)
qed (auto simp: demo_shut_def)

lemma demo_run_shut: "demo_run J E c runID actorID d polled \<Longrightarrow> demo_shut d"
proof (induction rule: demo_run.induct)
  case (demo_begin d)
  then show ?case by (auto simp: demo_start_def demo_shut_def split: sum.splits prod.splits option.splits)
next
  case (demo_next d polled d' polled')
  then show ?case using demo_shut_step [OF demo_next.hyps(2)] by simp
qed

text \<open>How many steps are left once \<open>cancel\<close> was called, whatever the scheduler does.\<close>

definition demo_left :: "'v demo \<Rightarrow> nat" where
  "demo_left d =
     (case dm_main d of Serving \<Rightarrow> 3 | Leaving _ \<Rightarrow> 2 | Joining _ \<Rightarrow> 1 | Returned _ \<Rightarrow> 0) +
     (case dm_poller d of PollDone \<Rightarrow> 0 | Polling \<Rightarrow> 1 | Forwarding ms \<Rightarrow> length ms + 2) +
     length (filter (\<lambda>q. q < messages_each) (dm_next d))"

lemma filter_update_less:
  assumes "i < length xs" and "P (xs ! i)" and "\<not> P y"
  shows "length (filter P (xs[i := y])) < length (filter P xs)"
proof -
  have "filter P xs = filter P (take i xs) @ xs ! i # filter P (drop (Suc i) xs)"
    by (subst (1) id_take_nth_drop [OF assms(1)]) (simp add: assms(2))
  then show ?thesis using assms(1,3) by (simp add: upd_conv_take_nth_drop)
qed

definition demo_ending :: "demo_error option \<Rightarrow> 'v demo \<Rightarrow> bool" where
  "demo_ending r d \<longleftrightarrow> dm_halted d \<and> dm_main d \<in> {Leaving r, Joining r, Returned r}"

lemma demo_ending_step:
  "demo_step J E runID actorID s s' \<Longrightarrow> demo_ending r (fst s) \<Longrightarrow>
    demo_ending r (fst s') \<and> demo_left (fst s') < demo_left (fst s) \<and> snd s' = snd s \<and>
    dm_printed (fst s') = dm_printed (fst s) \<and> commit_log (dm_kafka (fst s')) = commit_log (dm_kafka (fst s))"
proof (induction rule: demo_step.induct)
  case (demo_polls d d' polled)
  then show ?case using demo_poll_halted [of d E] by (auto simp: demo_ending_def demo_left_def)
next
  case (demo_publish i d polled)
  then show ?case
    using demo_produce_halted [of d J E runID actorID i]
      filter_update_less [of i "dm_next d" "\<lambda>q. q < messages_each" messages_each]
    by (auto simp: demo_ending_def demo_left_def)
qed (auto simp: demo_ending_def demo_left_def demo_close_def)

lemma demo_ending_progress:
  assumes "demo_ending r d" and "demo_shut d"
  shows "(\<exists>s. demo_step J E runID actorID (d, polled) s) \<longleftrightarrow> dm_main d \<noteq> Returned r"
proof
  assume "\<exists>s. demo_step J E runID actorID (d, polled) s"
  then obtain d' polled' where step: "demo_step J E runID actorID (d, polled) (d', polled')" by auto
  show "dm_main d \<noteq> Returned r"
  proof
    assume "dm_main d = Returned r"
    then have "dm_poller d = PollDone" "list_all (\<lambda>q. messages_each \<le> q) (dm_next d)"
      using assms(2) by (simp_all add: demo_shut_def)
    with step show False
      using \<open>dm_main d = Returned r\<close> by (cases rule: demo_step.cases) (auto simp: list_all_length)
  qed
next
  assume main: "dm_main d \<noteq> Returned r"
  have halted: "dm_halted d" "ctx_done E d" using assms(1) by (simp_all add: demo_ending_def ctx_done_def demo_env_def)
  show "\<exists>s. demo_step J E runID actorID (d, polled) s"
  proof (cases "dm_poller d")
    case Polling
    then show ?thesis using demo_polls [OF _ refl] by blast
  next
    case (Forwarding ms)
    then show ?thesis using demo_forwarded demo_abandon halted(2) by (cases ms) blast+
  next
    case PollDone
    show ?thesis
    proof (cases "dm_main d = Leaving r")
      case True
      then show ?thesis using demo_join halted(1) PollDone by blast
    next
      case False
      then have "dm_main d = Joining r" using assms(1) main by (simp add: demo_ending_def)
      then show ?thesis
        using demo_return demo_publish by (metis list_all_length not_le)
    qed
  qed
qed

text \<open>
  C40: the demonstration program always shuts down. When \<open>run\<close> has its result, the deferred function
  calls \<open>cancel\<close>; from then on, whatever the scheduler chooses, every sequence of steps of the
  goroutines has at most \<open>demo_left\<close> steps, and it can go on until the deferred function has reached its
  end, so nothing it waits for gets stuck. No further message is printed or committed, and at the end
  the client has been closed, last of all calls. (The calls of the adapter return in the model.)
\<close>

theorem demo_shuts_down:
  assumes "demo_run J E c runID actorID d polled" and "dm_main d = Leaving r"
    and "(demo_step J E runID actorID ^^ n) (d\<lparr>dm_halted := True\<rparr>, polled) (d', polled')"
  shows "(dm_halted d \<or> demo_step J E runID actorID (d, polled) (d\<lparr>dm_halted := True\<rparr>, polled)) \<and>
    n \<le> demo_left d \<and> dm_main d' \<in> {Leaving r, Joining r, Returned r} \<and>
    ((\<exists>s. demo_step J E runID actorID (d', polled') s) \<longleftrightarrow> dm_main d' \<noteq> Returned r) \<and>
    dm_printed d' = dm_printed d \<and> commit_log (dm_kafka d') = commit_log (dm_kafka d) \<and>
    (dm_main d' = Returned r \<longrightarrow> last (client_calls (dm_kafka d')) = CloseClient)"
proof -
  let ?d = "d\<lparr>dm_halted := True\<rparr>"
  have "demo_shut ?d" using demo_run_shut [OF assms(1)] assms(2) by (auto simp: demo_shut_def)
  moreover have "demo_ending r ?d" using assms(2) by (simp add: demo_ending_def)
  ultimately have "demo_shut d' \<and> demo_ending r d' \<and> n + demo_left d' \<le> demo_left ?d \<and> dm_printed d' = dm_printed ?d \<and>
      commit_log (dm_kafka d') = commit_log (dm_kafka ?d)"
    using assms(3)
  proof (induction n arbitrary: d' polled')
    case (Suc n)
    then obtain b p where b: "(demo_step J E runID actorID ^^ n) (?d, polled) (b, p)"
      "demo_step J E runID actorID (b, p) (d', polled')" by (metis relpowp_Suc_E surj_pair)
    note IH = Suc.IH [OF Suc.prems(1,2) b(1)]
    show ?case
      using IH demo_shut_step [OF b(2)] demo_ending_step [OF b(2), of r] by auto
  qed simp
  moreover have "demo_left ?d = demo_left d" by (simp add: demo_left_def)
  ultimately show ?thesis
    using demo_ending_progress [of r d' J E runID actorID polled'] demo_cancel [OF assms(2), of J E runID actorID polled]
    by (auto simp: demo_ending_def demo_shut_def)
qed

theorem demo_shuts_down_witness:
  "\<exists>s. demo_step example_json (demo_broker True) ''run'' ''b'' ((demo_served True)\<lparr>dm_halted := True\<rparr>, [demo_received]) s"
proof -
  have main: "dm_main (demo_served True) = Leaving (Some (QueueError KClient))" by (simp add: demo_served)
  have "(demo_step example_json (demo_broker True) ''run'' ''b'' ^^ 0)
      ((demo_served True)\<lparr>dm_halted := True\<rparr>, [demo_received]) ((demo_served True)\<lparr>dm_halted := True\<rparr>, [demo_received])"
    by simp
  from demo_shuts_down [OF demo_served_run [of True] main this] show ?thesis using main by simp
qed

end
