(* ===== verification/Storage.thy ===== *)
theory Storage
  imports Messages GoStrings
begin

text \<open>
  storage/storage.go: the stored form of a snapshot, its validation, and what a store promises
  (\<open>IStore\<close>): versions fence writes. A store keeps, per actor, the snapshot written last; a
  write below the stored version leaves it alone, and a load takes the next version, so that
  the owner before can no longer write.
\<close>

section \<open>Stored snapshots\<close>

definition DefaultCollection :: string where "DefaultCollection = ''actor''"

datatype storage_error =
    ErrNotFound string
  | ErrStale "string list"
  | ErrInvalid
  | ErrUninitialized
  | DriverError
  | EncodeError

record 'v stored_snapshot =
  st_ActorID :: string
  st_ActorType :: string
  st_Version :: int
  st_Offset :: int
  st_State :: 'v
  st_Dedup :: "string list"

text \<open>The zero Snapshot, which a failed conversion returns beside its error.\<close>

definition zero_snapshot :: "'v::default stored_snapshot" where
  "zero_snapshot = \<lparr>st_ActorID = [], st_ActorType = [], st_Version = 0, st_Offset = 0,
     st_State = default, st_Dedup = []\<rparr>"

definition snapshotFromMessage :: "'v actor_snapshot \<Rightarrow> storage_error + 'v stored_snapshot" where
  "snapshotFromMessage s =
     (if blank (snap_ActorId s) \<or> \<not> ValidString (snap_ActorId s) then Inl ErrInvalid
      else if snap_Version s < 0 \<or> snap_Offset s < 0 then Inl ErrInvalid
      else Inr \<lparr>st_ActorID = snap_ActorId s, st_ActorType = snap_ActorType s, st_Version = snap_Version s,
        st_Offset = snap_Offset s, st_State = snap_State s, st_Dedup = snap_Dedup s\<rparr>)"

definition snapshot_message :: "'v stored_snapshot \<Rightarrow> 'v actor_snapshot" where
  "snapshot_message d = \<lparr>snap_ActorId = st_ActorID d, snap_ActorType = st_ActorType d,
     snap_Version = st_Version d, snap_Offset = st_Offset d, snap_State = st_State d,
     snap_Dedup = st_Dedup d\<rparr>"

fun validate_items :: "'v actor_snapshot list \<Rightarrow> string list \<Rightarrow> storage_error option" where
  "validate_items [] seen = None"
| "validate_items (s # ss) seen =
     (case snapshotFromMessage s of
        Inl err \<Rightarrow> Some err
      | Inr _ \<Rightarrow>
          if snap_ActorId s \<in> set seen then Some ErrInvalid
          else validate_items ss (snap_ActorId s # seen))"

definition validateBatch :: "'v actor_snapshot list \<Rightarrow> storage_error option" where
  "validateBatch ss = validate_items ss []"

definition validateActorID :: "string \<Rightarrow> storage_error option" where
  "validateActorID i = (if blank i \<or> \<not> ValidString i then Some ErrInvalid else None)"

text \<open>A snapshot that the stores accept, and the two conversions.\<close>

definition storable :: "'v actor_snapshot \<Rightarrow> bool" where
  "storable s \<longleftrightarrow> validateActorID (snap_ActorId s) = None \<and> 0 \<le> snap_Version s \<and> 0 \<le> snap_Offset s"

lemma snapshotFromMessage_ok:
  "storable s \<longleftrightarrow> (\<exists>d. snapshotFromMessage s = Inr d)"
  by (auto simp: storable_def snapshotFromMessage_def validateActorID_def)

lemma snapshotFromMessage_message:
  "snapshotFromMessage s = Inr d \<Longrightarrow> snapshot_message d = (s :: 'v actor_snapshot)"
  by (auto simp: snapshotFromMessage_def snapshot_message_def split: if_splits)

lemma snapshotFromMessage_fields:
  assumes "snapshotFromMessage s = Inr d"
  shows "st_ActorID d = snap_ActorId s" and "st_Version d = snap_Version s"
  using assms by (auto simp: snapshotFromMessage_def split: if_splits)

lemma validate_items_eq:
  "validate_items ss seen = None \<longleftrightarrow>
     (\<forall>s \<in> set ss. storable s) \<and> distinct (map snap_ActorId ss) \<and> set (map snap_ActorId ss) \<inter> set seen = {}"
  by (induction ss arbitrary: seen) (auto simp: snapshotFromMessage_ok split: sum.split)

text \<open>
  A batch is accepted exactly when every snapshot can be stored (an id that is valid UTF-8 and
  not blank, no negative version or offset) and no actor occurs twice.
\<close>

theorem batch_accepted_exactly:
  "validateBatch ss = None \<longleftrightarrow> list_all storable ss \<and> distinct (map snap_ActorId ss)"
  by (simp add: validateBatch_def validate_items_eq list_all_iff)

section \<open>The contract of a store\<close>

text \<open>
  \<open>at\<close>: the snapshot a store holds for an actor. \<open>save\<close> returns the ids it reports as
  written and the joined errors (none is nil); the ids can be relied on unless the driver itself
  failed. \<open>load\<close> returns the snapshot with its new version. \<open>kept\<close>: what the store makes of
  a snapshot, which has the same version (a JSON column does not keep invalid UTF-8).
\<close>

locale snapshot_store =
  fixes kept :: "'v actor_snapshot \<Rightarrow> 'v actor_snapshot"
    and held_at :: "'db \<Rightarrow> string \<Rightarrow> 'v actor_snapshot option"
    and save :: "'db \<Rightarrow> 'v actor_snapshot list \<Rightarrow> 'db \<times> string list \<times> storage_error list"
    and load :: "'db \<Rightarrow> string \<Rightarrow> 'db \<times> (storage_error + 'v actor_snapshot)"
  assumes kept_version: "snap_Version (kept s) = snap_Version s"
    and save_saved: "save db ss = (db', ids, errs) \<Longrightarrow> DriverError \<notin> set errs \<Longrightarrow> i \<in> set ids \<Longrightarrow>
      \<exists>s \<in> set ss. snap_ActorId s = i \<and> held_at db' i = Some (kept s)"
    and save_fenced: "save db ss = (db', ids, errs) \<Longrightarrow> held_at db i = Some d \<Longrightarrow>
      \<forall>s \<in> set ss. snap_ActorId s = i \<longrightarrow> snap_Version s < snap_Version d \<Longrightarrow> held_at db' i = Some d"
    and load_loaded: "load db i = (db', Inr s) \<Longrightarrow>
      \<exists>d. held_at db i = Some d \<and> s = d\<lparr>snap_Version := snap_Version d + 1\<rparr> \<and> held_at db' i = Some s"
begin

text \<open>Once another node has loaded an actor, saves of the owner before have no effect.\<close>

lemma load_fences:
  assumes "load db i = (db1, Inr s)" and "save db1 ss = (db2, ids, errs)"
    and "\<forall>t \<in> set ss. snap_ActorId t = i \<longrightarrow> snap_Version t < snap_Version s"
  shows "held_at db2 i = Some s" and "DriverError \<notin> set errs \<Longrightarrow> i \<notin> set ids"
proof -
  obtain d where "held_at db1 i = Some s" using load_loaded [OF assms(1)] by blast
  then show held: "held_at db2 i = Some s" using save_fenced assms(2,3) by blast
  show "i \<notin> set ids" if ok: "DriverError \<notin> set errs"
  proof
    assume "i \<in> set ids"
    then obtain t where "t \<in> set ss" "snap_ActorId t = i" "held_at db2 i = Some (kept t)"
      using save_saved [OF assms(2) ok] by blast
    then show False using held assms(3) kept_version [of t] by fastforce
  qed
qed

text \<open>What was saved is what is loaded, under the next version.\<close>

lemma save_load:
  assumes "save db ss = (db1, ids, errs)" and "DriverError \<notin> set errs" and "i \<in> set ids"
    and "load db1 i = (db2, Inr s)"
  shows "\<exists>t \<in> set ss. snap_ActorId t = i \<and> s = (kept t)\<lparr>snap_Version := snap_Version t + 1\<rparr>"
  using save_saved [OF assms(1-3)] load_loaded [OF assms(4)] kept_version by fastforce

end

text \<open>
  A history of a store: saves and loads by nodes with their own handles, one after the other. The
  second result holds the ids that were reported as written.
\<close>

datatype ('h, 'v) store_op = Saves 'h "'v actor_snapshot list" | Loads 'h string

fun store_history ::
  "('h \<Rightarrow> 'db \<Rightarrow> 'v actor_snapshot list \<Rightarrow> 'db \<times> string list \<times> storage_error list) \<Rightarrow>
   ('h \<Rightarrow> 'db \<Rightarrow> string \<Rightarrow> 'db \<times> (storage_error + 'v actor_snapshot)) \<Rightarrow>
   ('h, 'v) store_op list \<Rightarrow> 'db \<Rightarrow> 'db \<times> string list" where
  "store_history save load [] db = (db, [])"
| "store_history save load (Saves h ss # ops) db =
     (let (db, ids, errs) = save h db ss; (db, more) = store_history save load ops db in (db, ids @ more))"
| "store_history save load (Loads h i # ops) db =
     (let (db, r) = load h db i in store_history save load ops db)"

text \<open>
  What a store may do with one snapshot of a request, and the contract from it: the proof that
  both stores share.
\<close>

definition put_ok :: "'v actor_snapshot \<Rightarrow> 'v actor_snapshot option \<Rightarrow> 'v actor_snapshot option \<Rightarrow> bool \<Rightarrow> bool" where
  "put_ok s before after acked \<longleftrightarrow>
     (\<forall>d. before = Some d \<longrightarrow> snap_Version s < snap_Version d \<longrightarrow> after = before) \<and>
     (acked \<longrightarrow> after = Some s)"

definition puts_ok ::
  "('v actor_snapshot \<Rightarrow> 'v actor_snapshot) \<Rightarrow> ('db \<Rightarrow> string \<Rightarrow> 'v actor_snapshot option) \<Rightarrow> 'v actor_snapshot list \<Rightarrow> 'db \<Rightarrow> 'db \<Rightarrow> string list \<Rightarrow> bool" where
  "puts_ok kept held_at ss db db' ids \<longleftrightarrow>
     (\<forall>i. i \<notin> snap_ActorId ` set ss \<longrightarrow> held_at db' i = held_at db i) \<and>
     (\<forall>s \<in> set ss. put_ok (kept s) (held_at db (snap_ActorId s)) (held_at db' (snap_ActorId s))
       (snap_ActorId s \<in> set ids)) \<and> set ids \<subseteq> snap_ActorId ` set ss"

lemma puts_ok_same: "puts_ok kept held_at ss db db []"
  by (simp add: puts_ok_def put_ok_def)

lemma puts_ok_less: "puts_ok kept held_at ss db db' ids \<Longrightarrow> puts_ok kept held_at ss db db' []"
  by (simp add: puts_ok_def put_ok_def)

lemma puts_contract:
  assumes version: "\<And>s. snap_Version (kept s) = snap_Version s"
    and "\<And>db ss db' ids errs. save db ss = (db', ids, errs) \<Longrightarrow>
      puts_ok kept held_at ss db db' (if DriverError \<in> set errs then [] else ids)"
    and "\<And>db i db' s. load db i = (db', Inr s) \<Longrightarrow>
      \<exists>d. held_at db i = Some d \<and> s = d\<lparr>snap_Version := snap_Version d + 1\<rparr> \<and> held_at db' i = Some s"
  shows "snapshot_store kept held_at save load"
proof
  fix db ss db' ids errs i
  assume save: "save db ss = (db', ids, errs)" and ok: "DriverError \<notin> set errs" and i: "i \<in> set ids"
  have puts: "puts_ok kept held_at ss db db' ids" using assms(2) [OF save] ok by simp
  then obtain s where "s \<in> set ss" "snap_ActorId s = i" using i unfolding puts_ok_def by blast
  then show "\<exists>s \<in> set ss. snap_ActorId s = i \<and> held_at db' i = Some (kept s)"
    using puts i unfolding puts_ok_def put_ok_def by blast
next
  fix db ss db' ids errs i d
  assume save: "save db ss = (db', ids, errs)" and d: "held_at db i = Some d"
    and old: "\<forall>s \<in> set ss. snap_ActorId s = i \<longrightarrow> snap_Version s < snap_Version d"
  note puts = assms(2) [OF save]
  show "held_at db' i = Some d"
  proof (cases "i \<in> snap_ActorId ` set ss")
    case True
    then obtain s where "s \<in> set ss" "snap_ActorId s = i" by blast
    then show ?thesis using puts d old version unfolding puts_ok_def put_ok_def by metis
  next
    case False
    then show ?thesis using puts d unfolding puts_ok_def by simp
  qed
qed (rule version, rule assms(3))

end
