(* ===== verification/Mongo.thy ===== *)
theory Mongo
  imports Storage
begin

text \<open>
  storage/mongo.go: snapshots in a MongoDB collection. The driver is a library: a collection is
  a record of the three operations the store calls, over a database state of any type, with
  their documented effect on single documents as the hypotheses \<open>collection_ok\<close> and \<open>find_ok\<close>. A
  document is what \<open>Decode\<close> reads of it; \<open>decoded\<close> is what the driver makes of a state of type \<open>any\<close> when
  it is encoded to BSON and decoded again (a struct, for one, comes back as a \<open>bson.D\<close>).
\<close>

section \<open>The driver\<close>

text \<open>
  The update the store builds for a document: the filter asks for the id and for a version that
  is at most the new one or missing; the fields are set; an upsert inserts when nothing matches.
\<close>

record 'v update_model =
  um_id :: string
  um_max_version :: int
  um_actorType :: string
  um_version :: int
  um_offset :: int
  um_state :: 'v
  um_dedup :: "string list"

datatype update_reply = Updated nat nat | DuplicateKey | UpdateFailed

record bulk_errors =
  write_errors :: "(int \<times> bool) list"
  write_concern :: bool

datatype bulk_reply = BulkOk | BulkErrors bulk_errors | BulkFailed

datatype 'v find_reply = Found "'v stored_snapshot" | NoDocuments | FindFailed

record ('db, 'v) collection =
  update_one :: "'db \<Rightarrow> 'v update_model \<Rightarrow> 'db \<times> update_reply"
  bulk_write :: "'db \<Rightarrow> 'v update_model list \<Rightarrow> 'db \<times> bulk_reply"
  find_inc :: "'db \<Rightarrow> string \<Rightarrow> 'db \<times> 'v find_reply"
  document :: "'db \<Rightarrow> string \<Rightarrow> 'v stored_snapshot option"
  decoded :: "'v \<Rightarrow> 'v"

section \<open>The store\<close>

record mongo_store =
  has_client :: bool
  has_coll :: bool
  coll_name :: string
  owned :: bool

definition mongo_ready :: "mongo_store option \<Rightarrow> storage_error option" where
  "mongo_ready s = (case s of
       None \<Rightarrow> Some ErrUninitialized
     | Some s \<Rightarrow> if has_client s \<and> has_coll s then None else Some ErrUninitialized)"

text \<open>The first argument tells whether the caller passed a client.\<close>

definition NewMongoWithClient ::
  "bool \<Rightarrow> string \<Rightarrow> string \<Rightarrow> storage_error + mongo_store" where
  "NewMongoWithClient client database collection =
     (if \<not> client \<or> blank database then Inl ErrInvalid
      else let collection = (if blank collection then DefaultCollection else collection)
      in Inr \<lparr>has_client = client, has_coll = True, coll_name = collection, owned = False\<rparr>)"

text \<open>
  Connecting and pinging may fail; the second component counts the disconnects of the client
  that was made.
\<close>

definition NewMongo ::
  "bool \<Rightarrow> bool \<Rightarrow> string \<Rightarrow> string \<Rightarrow> string \<Rightarrow> (storage_error + mongo_store) \<times> nat" where
  "NewMongo connects pings uri database collection =
     (if blank uri then (Inl ErrInvalid, 0)
      else if \<not> connects then (Inl DriverError, 0)
      else if \<not> pings then (Inl DriverError, 1)
      else case NewMongoWithClient True database collection of
          Inl err \<Rightarrow> (Inl err, 1)
        | Inr store \<Rightarrow> (Inr (store\<lparr>owned := True\<rparr>), 0))"

text \<open>The flag tells whether the client was disconnected.\<close>

definition mongo_Close :: "mongo_store option \<Rightarrow> storage_error option \<times> bool" where
  "mongo_Close s = (case mongo_ready s of
       Some err \<Rightarrow> (Some err, False)
     | None \<Rightarrow> if \<not> owned (the s) then (None, False) else (None, True))"

definition update_of :: "'v stored_snapshot \<Rightarrow> 'v update_model" where
  "update_of d = \<lparr>um_id = st_ActorID d, um_max_version = st_Version d, um_actorType = st_ActorType d,
     um_version = st_Version d, um_offset = st_Offset d, um_state = st_State d, um_dedup = st_Dedup d\<rparr>"

definition saveOne ::
  "('db, 'v) collection \<Rightarrow> mongo_store option \<Rightarrow> 'v actor_snapshot \<Rightarrow> 'db \<Rightarrow> 'db \<times> storage_error option" where
  "saveOne C s input db =
     (case mongo_ready s of
        Some err \<Rightarrow> (db, Some err)
      | None \<Rightarrow>
          (case snapshotFromMessage input of
             Inl err \<Rightarrow> (db, Some err)
           | Inr d \<Rightarrow>
               let (db, reply) = update_one C db (update_of d)
               in (db, case reply of
                     DuplicateKey \<Rightarrow> Some (ErrStale [st_ActorID d])
                   | UpdateFailed \<Rightarrow> Some DriverError
                   | Updated matched upserted \<Rightarrow>
                       if matched = 0 \<and> upserted = 0 then Some (ErrStale [st_ActorID d]) else None)))"

text \<open>\<open>Index\<close> of a write error is the position of its model in the request.\<close>

definition successfulActorIDs :: "'v actor_snapshot list \<Rightarrow> bulk_reply \<Rightarrow> string list" where
  "successfulActorIDs inputs reply =
     (case reply of
        BulkErrors errs \<Rightarrow>
          if write_concern errs then []
          else map (\<lambda>(j, input). snap_ActorId input)
            (filter (\<lambda>(j, input). int j \<notin> fst ` set (write_errors errs)) (enumerate 0 inputs))
      | _ \<Rightarrow> [])"

text \<open>
  The joined errors: ids with a duplicate key are stale; any other error and a failed write
  concern come from the driver. Without either, the exception itself is returned.
\<close>

definition classifyBulkError :: "'v actor_snapshot list \<Rightarrow> bulk_reply \<Rightarrow> storage_error list" where
  "classifyBulkError inputs reply =
     (case reply of
        BulkErrors errs \<Rightarrow>
          let name = (\<lambda>j. if 0 \<le> j \<and> j < int (length inputs) then snap_ActorId (inputs ! nat j) else ''?'');
              stale = map (\<lambda>(j, dup). name j) (filter (\<lambda>(j, dup). dup) (write_errors errs));
              other = map (\<lambda>_. DriverError) (filter (\<lambda>(j, dup). \<not> dup) (write_errors errs));
              other = (if write_concern errs then other @ [DriverError] else other);
              other = (if stale \<noteq> [] then other @ [ErrStale stale] else other)
          in if other = [] then [DriverError] else other
      | _ \<Rightarrow> [DriverError])"

definition saveBatch ::
  "('db, 'v::default) collection \<Rightarrow> mongo_store option \<Rightarrow> 'v actor_snapshot list \<Rightarrow> 'db \<Rightarrow>
   'db \<times> string list \<times> storage_error list" where
  "saveBatch C s inputs db =
     (case mongo_ready s of
        Some err \<Rightarrow> (db, [], [err])
      | None \<Rightarrow>
          if inputs = [] then (db, [], [])
          else case validateBatch inputs of
              Some err \<Rightarrow> (db, [], [err])
            | None \<Rightarrow>
                let models = map (\<lambda>input. update_of (case snapshotFromMessage input of
                      Inr d \<Rightarrow> d | Inl _ \<Rightarrow> zero_snapshot)) inputs;
                    (db, reply) = bulk_write C db models
                in if reply = BulkOk then (db, map snap_ActorId inputs, [])
                   else (db, successfulActorIDs inputs reply, classifyBulkError inputs reply))"

definition mongo_Save ::
  "('db, 'v::default) collection \<Rightarrow> mongo_store option \<Rightarrow> 'db \<Rightarrow> 'v actor_snapshot list \<Rightarrow>
   'db \<times> string list \<times> storage_error list" where
  "mongo_Save C s db inputs =
     (case inputs of
        [] \<Rightarrow> (db, [], [])
      | [input] \<Rightarrow>
          (case saveOne C s input db of
             (db, Some err) \<Rightarrow> (db, [], [err])
           | (db, None) \<Rightarrow> (db, [snap_ActorId input], []))
      | _ \<Rightarrow> saveBatch C s inputs db)"

definition mongo_Load ::
  "('db, 'v) collection \<Rightarrow> mongo_store option \<Rightarrow> 'db \<Rightarrow> string \<Rightarrow> 'db \<times> (storage_error + 'v actor_snapshot)" where
  "mongo_Load C s db i =
     (case mongo_ready s of
        Some err \<Rightarrow> (db, Inl err)
      | None \<Rightarrow>
          (case validateActorID i of
             Some err \<Rightarrow> (db, Inl err)
           | None \<Rightarrow>
               let (db, reply) = find_inc C db i
               in (db, case reply of
                     NoDocuments \<Rightarrow> Inl (ErrNotFound i)
                   | FindFailed \<Rightarrow> Inl DriverError
                   | Found d \<Rightarrow> Inr (snapshot_message d))))"

section \<open>The documented effect of the driver\<close>

definition written :: "('v \<Rightarrow> 'v) \<Rightarrow> 'v update_model \<Rightarrow> 'v stored_snapshot" where
  "written dec u = \<lparr>st_ActorID = um_id u, st_ActorType = um_actorType u, st_Version = um_version u,
     st_Offset = um_offset u, st_State = dec (um_state u), st_Dedup = um_dedup u\<rparr>"

text \<open>A write to a document above the version bound changes nothing and is not acknowledged.\<close>

definition write_ok ::
  "('v \<Rightarrow> 'v) \<Rightarrow> 'v update_model \<Rightarrow> 'v stored_snapshot option \<Rightarrow> 'v stored_snapshot option \<Rightarrow> bool \<Rightarrow> bool" where
  "write_ok dec u before after acked \<longleftrightarrow>
     (if \<exists>d. before = Some d \<and> um_max_version u < st_Version d then after = before \<and> \<not> acked
      else after \<in> {before, Some (written dec u)} \<and> (acked \<longrightarrow> after = Some (written dec u)))"

definition bulk_acked :: "bulk_reply \<Rightarrow> nat \<Rightarrow> bool" where
  "bulk_acked reply j = (case reply of
       BulkOk \<Rightarrow> True
     | BulkErrors errs \<Rightarrow> \<not> write_concern errs \<and> int j \<notin> fst ` set (write_errors errs)
     | BulkFailed \<Rightarrow> False)"

definition collection_ok :: "('db, 'v) collection \<Rightarrow> bool" where
  "collection_ok C \<longleftrightarrow>
     (\<forall>db u. let (db', reply) = update_one C db u in
        (\<forall>i. i \<noteq> um_id u \<longrightarrow> document C db' i = document C db i) \<and>
        write_ok (decoded C) u (document C db (um_id u)) (document C db' (um_id u))
          (case reply of Updated m k \<Rightarrow> m \<noteq> 0 \<or> k \<noteq> 0 | _ \<Rightarrow> False)) \<and>
     (\<forall>db us. distinct (map um_id us) \<longrightarrow> (let (db', reply) = bulk_write C db us in
        (\<forall>i. i \<notin> um_id ` set us \<longrightarrow> document C db' i = document C db i) \<and>
        (\<forall>j < length us. write_ok (decoded C) (us ! j) (document C db (um_id (us ! j))) (document C db' (um_id (us ! j)))
          (bulk_acked reply j)))) \<and>
     (\<forall>db i db' d. find_inc C db i = (db', Found d) \<longrightarrow>
        (\<exists>before. document C db i = Some before \<and> d = before\<lparr>st_Version := st_Version before + 1\<rparr> \<and>
           document C db' i = Some d))"

text \<open>
  A \<open>FindOneAndUpdate\<close> changes no other document, and its own, if at all, by its increment: a failed
  call may have been executed.
\<close>

definition find_ok :: "('db, 'v) collection \<Rightarrow> bool" where
  "find_ok C \<longleftrightarrow> (\<forall>db i. let db' = fst (find_inc C db i) in
     (\<forall>j. j \<noteq> i \<longrightarrow> document C db' j = document C db j) \<and>
     document C db' i \<in> {document C db i, map_option (\<lambda>d. d\<lparr>st_Version := st_Version d + 1\<rparr>) (document C db i)})"

section \<open>The store keeps the contract\<close>

text \<open>What the store makes of a snapshot: its state as the driver reads it back.\<close>

definition mongo_kept :: "('db, 'v) collection \<Rightarrow> 'v actor_snapshot \<Rightarrow> 'v actor_snapshot" where
  "mongo_kept C s = s\<lparr>snap_State := decoded C (snap_State s)\<rparr>"

lemma mongo_kept_fields [simp]:
  "snap_Version (mongo_kept C s) = snap_Version s" "snap_ActorId (mongo_kept C s) = snap_ActorId s"
  by (simp_all add: mongo_kept_def)

lemma written_update_of [simp]: "written dec (update_of d) = d\<lparr>st_State := dec (st_State d)\<rparr>"
  by (simp add: written_def update_of_def)

lemma update_of_fields [simp]:
  "um_id (update_of d) = st_ActorID d" "um_max_version (update_of d) = st_Version d"
  by (simp_all add: update_of_def)

definition mongo_at :: "('db, 'v) collection \<Rightarrow> 'db \<Rightarrow> string \<Rightarrow> 'v actor_snapshot option" where
  "mongo_at C db i = map_option snapshot_message (document C db i)"

lemma one_effect:
  assumes "collection_ok C" and "update_one C db u = (db', reply)"
  shows "i \<noteq> um_id u \<Longrightarrow> document C db' i = document C db i"
    and "write_ok (decoded C) u (document C db (um_id u)) (document C db' (um_id u))
      (case reply of Updated m k \<Rightarrow> m \<noteq> 0 \<or> k \<noteq> 0 | _ \<Rightarrow> False)"
proof -
  have "let (db', reply) = update_one C db u in
        (\<forall>i. i \<noteq> um_id u \<longrightarrow> document C db' i = document C db i) \<and>
        write_ok (decoded C) u (document C db (um_id u)) (document C db' (um_id u))
          (case reply of Updated m k \<Rightarrow> m \<noteq> 0 \<or> k \<noteq> 0 | _ \<Rightarrow> False)"
    using assms(1) unfolding collection_ok_def by blast
  then show "i \<noteq> um_id u \<Longrightarrow> document C db' i = document C db i"
    and "write_ok (decoded C) u (document C db (um_id u)) (document C db' (um_id u))
      (case reply of Updated m k \<Rightarrow> m \<noteq> 0 \<or> k \<noteq> 0 | _ \<Rightarrow> False)"
    using assms(2) by simp_all
qed

lemma bulk_effect:
  assumes "collection_ok C" and "bulk_write C db us = (db', reply)" and "distinct (map um_id us)"
  shows "i \<notin> um_id ` set us \<Longrightarrow> document C db' i = document C db i"
    and "j < length us \<Longrightarrow> write_ok (decoded C) (us ! j) (document C db (um_id (us ! j)))
      (document C db' (um_id (us ! j))) (bulk_acked reply j)"
proof -
  have "let (db', reply) = bulk_write C db us in
        (\<forall>i. i \<notin> um_id ` set us \<longrightarrow> document C db' i = document C db i) \<and>
        (\<forall>j < length us. write_ok (decoded C) (us ! j) (document C db (um_id (us ! j))) (document C db' (um_id (us ! j)))
          (bulk_acked reply j))"
    using assms(1,3) unfolding collection_ok_def by blast
  then show "i \<notin> um_id ` set us \<Longrightarrow> document C db' i = document C db i"
    and "j < length us \<Longrightarrow> write_ok (decoded C) (us ! j) (document C db (um_id (us ! j)))
      (document C db' (um_id (us ! j))) (bulk_acked reply j)"
    using assms(2) by simp_all
qed

lemma write_put:
  assumes "snapshotFromMessage s = Inr d" and "write_ok (decoded C) (update_of d) before after acked"
  shows "put_ok (mongo_kept C s) (map_option snapshot_message before) (map_option snapshot_message after) acked"
proof -
  have "snapshot_message (d\<lparr>st_State := decoded C (st_State d)\<rparr>) = mongo_kept C s"
    using snapshotFromMessage_message [OF assms(1)] by (auto simp: snapshot_message_def mongo_kept_def)
  then show ?thesis
    using assms(2) snapshotFromMessage_fields(2) [OF assms(1)]
    by (auto simp: write_ok_def put_ok_def snapshot_message_def split: if_splits)
qed

lemma mongo_saveOne_put:
  assumes "collection_ok C" and "saveOne C st s db = (db', err)"
  shows "put_ok (mongo_kept C s) (mongo_at C db (snap_ActorId s)) (mongo_at C db' (snap_ActorId s)) (err = None) \<and>
    (\<forall>i. i \<noteq> snap_ActorId s \<longrightarrow> mongo_at C db' i = mongo_at C db i)"
proof (cases "mongo_ready st = None \<and> storable s")
  case True
  then obtain d where d: "snapshotFromMessage s = Inr d" using snapshotFromMessage_ok by blast
  obtain reply where r: "update_one C db (update_of d) = (db', reply)"
    "err = None \<longleftrightarrow> (case reply of Updated m k \<Rightarrow> m \<noteq> 0 \<or> k \<noteq> 0 | _ \<Rightarrow> False)"
    using assms(2) d True by (auto simp: saveOne_def Let_def split: prod.splits update_reply.splits if_splits)
  have id: "st_ActorID d = snap_ActorId s" using snapshotFromMessage_fields [OF d] by simp
  show ?thesis
    using write_put [OF d one_effect(2) [OF assms(1) r(1)]] one_effect(1) [OF assms(1) r(1)] id r(2)
    by (simp add: mongo_at_def)
next
  case False
  have "\<exists>x. saveOne C st s db = (db, Some x)"
  proof (cases "mongo_ready st")
    case None
    then obtain x where "snapshotFromMessage s = Inl x"
      using False snapshotFromMessage_ok [of s] by (cases "snapshotFromMessage s") auto
    then show ?thesis using None by (simp add: saveOne_def)
  qed (simp add: saveOne_def)
  then have "db' = db \<and> err \<noteq> None" using assms(2) by auto
  then show ?thesis by (auto simp: put_ok_def)
qed

lemma successful_acked:
  assumes "i \<in> set (if reply = BulkOk then map snap_ActorId ss else successfulActorIDs ss reply)"
  shows "\<exists>j < length ss. i = snap_ActorId (ss ! j) \<and> bulk_acked reply j"
proof (cases reply)
  case BulkOk
  then show ?thesis using assms by (auto simp: in_set_conv_nth bulk_acked_def)
next
  case (BulkErrors errs)
  then show ?thesis
    using assms by (auto simp: successfulActorIDs_def bulk_acked_def in_set_enumerate_eq split: if_splits)
qed (use assms in \<open>simp add: successfulActorIDs_def\<close>)

lemma mongo_saveBatch_put:
  assumes "collection_ok C" and "saveBatch C st ss db = (db', ids, errs)"
  shows "(\<forall>i. i \<notin> snap_ActorId ` set ss \<longrightarrow> mongo_at C db' i = mongo_at C db i) \<and>
    (\<forall>s \<in> set ss. put_ok (mongo_kept C s) (mongo_at C db (snap_ActorId s)) (mongo_at C db' (snap_ActorId s))
      (snap_ActorId s \<in> set ids)) \<and> set ids \<subseteq> snap_ActorId ` set ss"
proof (cases "mongo_ready st = None \<and> ss \<noteq> [] \<and> validateBatch ss = None")
  case False
  then have "db' = db \<and> ids = []"
    using assms(2) by (auto simp: saveBatch_def split: option.splits if_splits)
  then show ?thesis by (simp add: put_ok_def)
next
  case True
  let ?doc = "\<lambda>s. case snapshotFromMessage s of Inr d \<Rightarrow> d | Inl _ \<Rightarrow> zero_snapshot"
  let ?us = "map (\<lambda>s. update_of (?doc s)) ss"
  have valid: "list_all storable ss" "distinct (map snap_ActorId ss)"
    using True by (simp_all add: validateBatch_def validate_items_eq list_all_iff)
  have doc: "snapshotFromMessage s = Inr (?doc s)" "st_ActorID (?doc s) = snap_ActorId s"
    if s: "s \<in> set ss" for s
  proof -
    obtain d where "snapshotFromMessage s = Inr d"
      using valid(1) s snapshotFromMessage_ok [of s] by (auto simp: list_all_iff)
    then show "snapshotFromMessage s = Inr (?doc s)" "st_ActorID (?doc s) = snap_ActorId s"
      using snapshotFromMessage_fields by simp_all
  qed
  have um: "map um_id ?us = map snap_ActorId ss" using doc(2) by simp
  obtain reply where r: "bulk_write C db ?us = (db', reply)"
    "ids = (if reply = BulkOk then map snap_ActorId ss else successfulActorIDs ss reply)"
    using assms(2) True by (auto simp: saveBatch_def Let_def split: prod.splits if_splits)
  have dist: "distinct (map um_id ?us)" unfolding um by (rule valid(2))
  have put: "put_ok (mongo_kept C (ss ! j)) (mongo_at C db (snap_ActorId (ss ! j))) (mongo_at C db' (snap_ActorId (ss ! j)))
      (bulk_acked reply j)" if "j < length ss" for j
  proof -
    have s: "ss ! j \<in> set ss" using that by simp
    show ?thesis
      using write_put [OF doc(1) [OF s]] bulk_effect(2) [OF assms(1) r(1) dist, of j] doc(2) [OF s] that
      by (simp add: mongo_at_def)
  qed
  have acked: "\<exists>j < length ss. i = snap_ActorId (ss ! j) \<and> bulk_acked reply j" if "i \<in> set ids" for i
    using successful_acked [of i reply ss] that r(2) by simp
  have "put_ok (mongo_kept C s) (mongo_at C db (snap_ActorId s)) (mongo_at C db' (snap_ActorId s)) (snap_ActorId s \<in> set ids)"
    if s: "s \<in> set ss" for s
  proof -
    obtain j where j: "j < length ss" "s = ss ! j" using s by (auto simp: in_set_conv_nth)
    have "bulk_acked reply j" if i: "snap_ActorId s \<in> set ids"
    proof -
      obtain l where l: "l < length ss" "snap_ActorId s = snap_ActorId (ss ! l)" "bulk_acked reply l"
        using acked [OF i] by blast
      then have "l = j" using valid(2) j by (metis length_map nth_eq_iff_index_eq nth_map)
      then show ?thesis using l(3) by simp
    qed
    then show ?thesis using put [OF j(1)] j(2) by (simp add: put_ok_def)
  qed
  moreover have "mongo_at C db' i = mongo_at C db i" if "i \<notin> snap_ActorId ` set ss" for i
  proof -
    have "i \<notin> um_id ` set ?us" using um that by (metis list.set_map)
    then show ?thesis using bulk_effect(1) [OF assms(1) r(1) dist] by (simp add: mongo_at_def)
  qed
  ultimately show ?thesis using acked by fastforce
qed

lemma mongo_Save_put:
  assumes "collection_ok C" and "mongo_Save C st db ss = (db', ids, errs)"
  shows "puts_ok (mongo_kept C) (mongo_at C) ss db db' ids"
proof -
  consider "ss = []" | s where "ss = [s]" | s t us where "ss = s # t # us"
    by (cases ss rule: list.exhaust [case_names Nil Cons]) (metis list.exhaust)+
  then show ?thesis
  proof cases
    case 1
    then show ?thesis using assms(2) puts_ok_same by (simp add: mongo_Save_def)
  next
    case 2
    obtain err where err: "saveOne C st s db = (db', err)" "ids = (if err = None then [snap_ActorId s] else [])"
      using assms(2) 2 by (auto simp: mongo_Save_def split: prod.splits option.splits)
    show ?thesis
      using mongo_saveOne_put [OF assms(1) err(1)] err(2) 2 by (auto simp: puts_ok_def put_ok_def)
  next
    case 3
    then show ?thesis
      using mongo_saveBatch_put [OF assms(1), of st ss db db' ids errs] assms(2)
      by (simp add: mongo_Save_def puts_ok_def)
  qed
qed

locale mongo_collection =
  fixes C :: "('db, 'v::default) collection" and st :: "mongo_store option"
  assumes coll: "collection_ok C"
begin

lemma store_contract:
  "snapshot_store (mongo_kept C) (mongo_at C) (mongo_Save C st) (mongo_Load C st)"
proof (rule puts_contract, rule mongo_kept_fields(1))
  fix db ss db' ids errs
  assume "mongo_Save C st db ss = (db', ids, errs)"
  then show "puts_ok (mongo_kept C) (mongo_at C) ss db db' (if DriverError \<in> set errs then [] else ids)"
    using mongo_Save_put [OF coll] puts_ok_less by metis
next
  fix db i db' s
  assume "mongo_Load C st db i = (db', Inr s)"
  then obtain d where d: "find_inc C db i = (db', Found d)" "s = snapshot_message d"
    by (auto simp: mongo_Load_def Let_def split: option.splits prod.splits find_reply.splits)
  obtain before where "document C db i = Some before" "d = before\<lparr>st_Version := st_Version before + 1\<rparr>"
    "document C db' i = Some d"
    using coll d(1) unfolding collection_ok_def by blast
  then show "\<exists>d. mongo_at C db i = Some d \<and> s = d\<lparr>snap_Version := snap_Version d + 1\<rparr> \<and> mongo_at C db' i = Some s"
    using d(2) by (simp add: mongo_at_def snapshot_message_def)
qed

end

sublocale mongo_collection \<subseteq> store: snapshot_store "mongo_kept C" "mongo_at C" "mongo_Save C st" "mongo_Load C st"
  by (rule store_contract)

section \<open>What a load leaves for later saves\<close>

text \<open>A stored snapshot that only its version has changed since, and not downwards.\<close>

definition held_since :: "('db, 'v) collection \<Rightarrow> 'db \<Rightarrow> string \<Rightarrow> 'v actor_snapshot \<Rightarrow> bool" where
  "held_since C db i s \<longleftrightarrow> (\<exists>v \<ge> snap_Version s. mongo_at C db i = Some (s\<lparr>snap_Version := v\<rparr>))"

lemma save_below_held:
  assumes "collection_ok C" and "mongo_Save C st db ss = (db', ids, errs)" and "held_since C db i s"
    and "\<forall>t \<in> set ss. snap_Version t < snap_Version s"
  shows "held_since C db' i s \<and> i \<notin> set ids"
proof -
  obtain v where v: "snap_Version s \<le> v" "mongo_at C db i = Some (s\<lparr>snap_Version := v\<rparr>)"
    using assms(3) by (auto simp: held_since_def)
  have puts: "puts_ok (mongo_kept C) (mongo_at C) ss db db' ids" by (rule mongo_Save_put [OF assms(1,2)])
  have low: "snap_Version (mongo_kept C t) < v" if "t \<in> set ss" for t
    using assms(4) v(1) that by fastforce
  have "mongo_at C db' i = mongo_at C db i \<and> i \<notin> set ids"
  proof (cases "i \<in> snap_ActorId ` set ss")
    case True
    then obtain t where t: "t \<in> set ss" "snap_ActorId t = i" by force
    then have put: "put_ok (mongo_kept C t) (mongo_at C db i) (mongo_at C db' i) (i \<in> set ids)"
      using puts unfolding puts_ok_def by metis
    then have same: "mongo_at C db' i = mongo_at C db i" using v(2) low [OF t(1)] by (simp add: put_ok_def)
    moreover have "i \<notin> set ids"
    proof
      assume "i \<in> set ids"
      then have "Some (mongo_kept C t) = Some (s\<lparr>snap_Version := v\<rparr>)" using put same v(2) by (simp add: put_ok_def)
      then have "snap_Version (mongo_kept C t) = v" by simp
      then show False using low [OF t(1)] by simp
    qed
    ultimately show ?thesis by simp
  next
    case False
    then show ?thesis using puts unfolding puts_ok_def by blast
  qed
  then show ?thesis using v by (auto simp: held_since_def)
qed

lemma load_keeps_held:
  assumes "find_ok C" and "held_since C db i s"
  shows "held_since C (fst (mongo_Load C st db j)) i s"
proof -
  let ?db = "fst (find_inc C db j)"
  obtain v where v: "snap_Version s \<le> v" "mongo_at C db i = Some (s\<lparr>snap_Version := v\<rparr>)"
    using assms(2) by (auto simp: held_since_def)
  have find: "(\<forall>k. k \<noteq> j \<longrightarrow> document C ?db k = document C db k) \<and> document C ?db j \<in> {document C db j,
      map_option (\<lambda>d. d\<lparr>st_Version := st_Version d + 1\<rparr>) (document C db j)}"
    using assms(1) unfolding find_ok_def by (simp add: Let_def)
  obtain d where d: "document C db i = Some d" "snapshot_message d = s\<lparr>snap_Version := v\<rparr>"
    using v(2) by (auto simp: mongo_at_def)
  have up: "snapshot_message (d\<lparr>st_Version := st_Version d + 1\<rparr>) = s\<lparr>snap_Version := v + 1\<rparr>"
    using d(2) by (cases s) (auto simp: snapshot_message_def)
  have "document C ?db i \<in> {Some d, Some (d\<lparr>st_Version := st_Version d + 1\<rparr>)}"
    using find d(1) by (cases "i = j") auto
  then have "held_since C ?db i s" using v(1) d(2) up
    by (auto simp: held_since_def mongo_at_def intro: exI [of _ v] exI [of _ "v + 1"])
  moreover have "fst (mongo_Load C st db j) \<in> {db, ?db}"
    by (auto simp: mongo_Load_def Let_def split: option.split prod.split)
  ultimately show ?thesis using assms(2) by auto
qed

lemma history_keeps_held:
  assumes "collection_ok C" and "find_ok C" and "held_since C db i s"
    and "\<forall>st ss t. Saves st ss \<in> set ops \<longrightarrow> t \<in> set ss \<longrightarrow> snap_Version t < snap_Version s"
  shows "held_since C (fst (store_history (mongo_Save C) (mongo_Load C) ops db)) i s \<and>
    i \<notin> set (snd (store_history (mongo_Save C) (mongo_Load C) ops db))"
  using assms(3,4)
proof (induction ops arbitrary: db)
  case (Cons op ops)
  show ?case
  proof (cases op)
    case (Saves st ss)
    obtain db' ids errs where save: "mongo_Save C st db ss = (db', ids, errs)" by (metis prod_cases3)
    have low: "\<forall>t \<in> set ss. snap_Version t < snap_Version s" using Cons.prems(2) Saves by auto
    note held = save_below_held [OF assms(1) save Cons.prems(1) low]
    then show ?thesis using Cons.IH [of db'] Cons.prems(2) Saves save by (simp add: case_prod_beta Let_def)
  next
    case (Loads st j)
    then show ?thesis
      using Cons.IH [OF load_keeps_held [OF assms(2) Cons.prems(1)], of st j] Cons.prems(2)
      by (simp add: case_prod_beta Let_def)
  qed
qed simp

section \<open>Properties\<close>

text \<open>A collection that never fails, kept as a map, for the witnesses.\<close>

type_synonym 'v documents = "string \<Rightarrow> 'v stored_snapshot option"

definition refused :: "'v documents \<Rightarrow> 'v update_model \<Rightarrow> bool" where
  "refused db u \<longleftrightarrow> (case db (um_id u) of None \<Rightarrow> False | Some d \<Rightarrow> um_max_version u < st_Version d)"

definition map_bulk :: "'v documents \<Rightarrow> 'v update_model list \<Rightarrow> 'v documents" where
  "map_bulk db us = (\<lambda>i. case find (\<lambda>u. um_id u = i \<and> \<not> refused db u) us of
     None \<Rightarrow> db i | Some u \<Rightarrow> Some (written (\<lambda>x. x) u))"

definition map_errors :: "'v documents \<Rightarrow> 'v update_model list \<Rightarrow> (int \<times> bool) list" where
  "map_errors db us = map (\<lambda>(j, u). (int j, True)) (filter (\<lambda>(j, u). refused db u) (enumerate 0 us))"

definition map_collection :: "('v documents, 'v) collection" where
  "map_collection = \<lparr>
     update_one = (\<lambda>db u. if refused db u then (db, DuplicateKey)
       else (db(um_id u := Some (written (\<lambda>x. x) u)), if db (um_id u) = None then Updated 0 1 else Updated 1 0)),
     bulk_write = (\<lambda>db us. (map_bulk db us, if map_errors db us = [] then BulkOk
       else BulkErrors \<lparr>write_errors = map_errors db us, write_concern = False\<rparr>)),
     find_inc = (\<lambda>db i. case db i of None \<Rightarrow> (db, NoDocuments)
       | Some d \<Rightarrow> let d = d\<lparr>st_Version := st_Version d + 1\<rparr> in (db(i := Some d), Found d)),
     document = (\<lambda>db. db), decoded = (\<lambda>x. x)\<rparr>"

lemma map_errors_iff: "int j \<in> fst ` set (map_errors db us) \<longleftrightarrow> j < length us \<and> refused db (us ! j)"
  by (force simp: map_errors_def in_set_enumerate_eq image_iff)

lemma refused_iff: "refused db u \<longleftrightarrow> (\<exists>d. db (um_id u) = Some d \<and> um_max_version u < st_Version d)"
  by (simp add: refused_def split: option.split)

lemma map_bulk_at:
  assumes "distinct (map um_id us)" and "j < length us"
  shows "map_bulk db us (um_id (us ! j)) =
    (if refused db (us ! j) then db (um_id (us ! j)) else Some (written (\<lambda>x. x) (us ! j)))"
proof -
  have one: "u = us ! j" if "u \<in> set us" "um_id u = um_id (us ! j)" for u
    using assms that by (auto simp: in_set_conv_nth) (metis length_map nth_eq_iff_index_eq nth_map)
  show ?thesis
  proof (cases "find (\<lambda>u. um_id u = um_id (us ! j) \<and> \<not> refused db u) us")
    case None
    then have "refused db (us ! j)" using assms(2) by (force simp: find_None_iff)
    then show ?thesis using None by (simp add: map_bulk_def)
  next
    case (Some u)
    then have "u \<in> set us" "um_id u = um_id (us ! j)" "\<not> refused db u"
      by (auto simp: find_Some_iff)
    moreover then have "u = us ! j" by (intro one)
    ultimately show ?thesis using Some by (simp add: map_bulk_def)
  qed
qed

lemma map_bulk_other: "i \<notin> um_id ` set us \<Longrightarrow> map_bulk db us i = db i"
  by (force simp: map_bulk_def find_Some_iff split: option.split)

lemma map_collection_ok: "collection_ok map_collection"
proof -
  have "write_ok (\<lambda>x. x) (us ! j) (db (um_id (us ! j))) (map_bulk db us (um_id (us ! j)))
      (bulk_acked (if map_errors db us = [] then BulkOk
        else BulkErrors \<lparr>write_errors = map_errors db us, write_concern = False\<rparr>) j)"
    if us: "distinct (map um_id us)" "j < length us" for db :: "'a documents" and us j
    using map_bulk_at [OF us] map_errors_iff [of j db us] us(2)
    by (auto simp: write_ok_def bulk_acked_def refused_iff)
  note bulk = this
  show ?thesis
    unfolding collection_ok_def
  proof (intro conjI allI impI)
    fix db :: "'a documents" and us :: "'a update_model list"
    assume "distinct (map um_id us)"
    then show "let (db', reply) = bulk_write map_collection db us in
        (\<forall>i. i \<notin> um_id ` set us \<longrightarrow> document map_collection db' i = document map_collection db i) \<and>
        (\<forall>j < length us. write_ok (decoded map_collection) (us ! j) (document map_collection db (um_id (us ! j)))
          (document map_collection db' (um_id (us ! j))) (bulk_acked reply j))"
      using bulk [of us _ db] map_bulk_other [of _ us db] by (simp add: map_collection_def)
  next
    fix db :: "'a documents" and u :: "'a update_model"
    show "let (db', reply) = update_one map_collection db u in
        (\<forall>i. i \<noteq> um_id u \<longrightarrow> document map_collection db' i = document map_collection db i) \<and>
        write_ok (decoded map_collection) u (document map_collection db (um_id u)) (document map_collection db' (um_id u))
          (case reply of Updated m k \<Rightarrow> m \<noteq> 0 \<or> k \<noteq> 0 | _ \<Rightarrow> False)"
      by (cases "refused db u") (auto simp: map_collection_def write_ok_def refused_iff)
  next
    fix db :: "'a documents" and i db' d
    assume "find_inc map_collection db i = (db', Found d)"
    then show "\<exists>before. document map_collection db i = Some before \<and>
        d = before\<lparr>st_Version := st_Version before + 1\<rparr> \<and> document map_collection db' i = Some d"
      by (auto simp: map_collection_def Let_def split: option.splits)
  qed
qed

lemma map_find_ok: "find_ok map_collection"
  by (auto simp: find_ok_def map_collection_def Let_def split: option.split)

text \<open>A driver that keeps the documented effect exists.\<close>

interpretation mc: mongo_collection map_collection st for st
  by unfold_locales (rule map_collection_ok)

definition example_store :: "mongo_store option" where
  "example_store = Some \<lparr>has_client = True, has_coll = True, coll_name = ''actor'', owned = False\<rparr>"

definition example_snap :: "int \<Rightarrow> int actor_snapshot" where
  "example_snap v = \<lparr>snap_ActorId = ''a'', snap_ActorType = [], snap_Version = v, snap_Offset = 7,
     snap_State = 1, snap_Dedup = [''m'']\<rparr>"

text \<open>
  C15: a load fences the owner before it: after \<open>Load\<close> returned a snapshot with version v, no
  \<open>Save\<close> of snapshots with smaller versions changes what is stored, and none is reported as a
  success unless the driver itself failed.
\<close>

theorem mongo_load_fences:
  assumes "collection_ok C" and "mongo_Load C st db i = (db1, Inr s)"
    and "mongo_Save C st db1 ss = (db2, ids, errs)"
    and "\<forall>t \<in> set ss. snap_ActorId t = i \<longrightarrow> snap_Version t < snap_Version s"
  shows "mongo_at C db2 i = Some s \<and> (DriverError \<in> set errs \<or> i \<notin> set ids)"
  using snapshot_store.load_fences [OF mongo_collection.store_contract [OF mongo_collection.intro [OF assms(1)]]
      assms(2-4)] by blast

definition loaded_db :: "int documents" where
  "loaded_db = fst (mongo_Load map_collection example_store
     (fst (mongo_Save map_collection example_store (\<lambda>_. None) [example_snap 0])) ''a'')"

theorem mongo_load_fences_witness:
  "mongo_at map_collection (fst (mongo_Save map_collection example_store loaded_db [example_snap 0])) ''a'' =
   Some (example_snap 1)"
proof -
  let ?db = "fst (mongo_Save map_collection example_store (\<lambda>_. None) [example_snap 0])"
  obtain s where s: "mongo_Load map_collection example_store ?db ''a'' = (loaded_db, Inr s)" "s = example_snap 1"
  proof -
    have "case snd (mongo_Load map_collection example_store ?db ''a'') of Inr s \<Rightarrow> s = example_snap 1 | _ \<Rightarrow> False"
      by code_simp
    then show ?thesis
      using that by (cases "mongo_Load map_collection example_store ?db ''a''") (auto simp: loaded_db_def split: sum.splits)
  qed
  obtain db2 ids errs where "mongo_Save map_collection example_store loaded_db [example_snap 0] = (db2, ids, errs)"
    by (cases "mongo_Save map_collection example_store loaded_db [example_snap 0]") auto
  then show ?thesis
    using mongo_load_fences [OF map_collection_ok s(1)] s(2) by (simp add: example_snap_def)
qed

text \<open>
  C36: what a save reports as written is what a load returns, with the version raised by one: the ids,
  the offset and the deduplication ids are those of the snapshot that was saved, and the state is what
  the driver decodes from the state it encoded. This holds also when the save reports errors besides.
\<close>

theorem mongo_save_load:
  assumes "collection_ok C" and "mongo_Save C st db ss = (db1, ids, errs)"
    and "i \<in> set ids" and "mongo_Load C st db1 i = (db2, Inr s)"
  shows "\<exists>t \<in> set ss. snap_ActorId t = i \<and>
    s = t\<lparr>snap_Version := snap_Version t + 1, snap_State := decoded C (snap_State t)\<rparr>"
proof -
  obtain t where t: "t \<in> set ss" "snap_ActorId t = i" "mongo_at C db1 i = Some (mongo_kept C t)"
    using mongo_Save_put [OF assms(1,2)] assms(3) unfolding puts_ok_def put_ok_def by blast
  obtain d where "mongo_at C db1 i = Some d" "s = d\<lparr>snap_Version := snap_Version d + 1\<rparr>"
    using snapshot_store.load_loaded [OF mongo_collection.store_contract [OF mongo_collection.intro [OF assms(1)]]
      assms(4)] by blast
  then show ?thesis using t by (intro bexI [of _ t]) (auto simp: mongo_kept_def)
qed

theorem mongo_save_load_witness:
  "\<exists>db1 db2 s. mongo_Save map_collection example_store (\<lambda>_. None) [example_snap 0] = (db1, [''a''], []) \<and>
     mongo_Load map_collection example_store db1 ''a'' = (db2, Inr s) \<and> snap_Offset s = 7 \<and> snap_Version s = 1"
proof -
  let ?r = "mongo_Save map_collection example_store (\<lambda>_. None) [example_snap 0]"
  have "snd ?r = ([''a''], [])"
    "case snd (mongo_Load map_collection example_store (fst ?r) ''a'') of Inr s \<Rightarrow> True | _ \<Rightarrow> False"
    by code_simp+
  then obtain db1 db2 s where r: "?r = (db1, [''a''], [])"
    "mongo_Load map_collection example_store db1 ''a'' = (db2, Inr s)"
    by (cases ?r; cases "mongo_Load map_collection example_store (fst ?r) ''a''") (auto split: sum.splits)
  then show ?thesis
    using mongo_save_load [OF map_collection_ok r(1) _ r(2)] by (auto simp: example_snap_def)
qed

end
