(* ===== verification/Postgres.thy ===== *)
theory Postgres
  imports Storage Metadata
begin

text \<open>
  storage/postgres.go: snapshots in a PostgreSQL table. The SQL driver is a library: a database
  is a record of the statements the store executes, with the documented effect of
  \<open>INSERT ... ON CONFLICT\<close> and \<open>UPDATE ... RETURNING\<close> on single rows as a hypothesis.
  encoding/json on application values is a parameter, on the lists of message ids it is the model
  of \<open>Json\<close>; \<open>jsonb\<close> is how the database reformats a JSON text.
\<close>

section \<open>Identifiers\<close>

text \<open>\<open>letter\<close> and \<open>number\<close> are \<open>unicode.IsLetter\<close> and \<open>unicode.IsDigit\<close>.\<close>

fun valid_runes :: "(int \<Rightarrow> bool) \<Rightarrow> (int \<Rightarrow> bool) \<Rightarrow> nat \<Rightarrow> int list \<Rightarrow> bool" where
  "valid_runes letter number index [] = True"
| "valid_runes letter number index (r # rs) =
     (if index = 0 then
        (if r \<noteq> of_char CHR ''_'' \<and> \<not> letter r then False else valid_runes letter number (Suc index) rs)
      else if r \<noteq> of_char CHR ''_'' \<and> \<not> letter r \<and> \<not> number r then False
      else valid_runes letter number (Suc index) rs)"

definition validIdentifierPart :: "(int \<Rightarrow> bool) \<Rightarrow> (int \<Rightarrow> bool) \<Rightarrow> string \<Rightarrow> bool" where
  "validIdentifierPart letter number s =
     (if s = [] then False else valid_runes letter number 0 (string_runes s))"

fun quote_parts :: "(int \<Rightarrow> bool) \<Rightarrow> (int \<Rightarrow> bool) \<Rightarrow> string list \<Rightarrow> string list \<Rightarrow> string list option" where
  "quote_parts letter number [] quoted = Some quoted"
| "quote_parts letter number (p # ps) quoted =
     (if \<not> validIdentifierPart letter number p then None
      else quote_parts letter number ps (quoted @ [CHR 34 # p @ [CHR 34]]))"

definition quoteQualifiedIdentifier :: "(int \<Rightarrow> bool) \<Rightarrow> (int \<Rightarrow> bool) \<Rightarrow> string \<Rightarrow> storage_error + string" where
  "quoteQualifiedIdentifier letter number s =
     (case quote_parts letter number (split_at (CHR ''.'') s) [] of
        None \<Rightarrow> Inl ErrInvalid
      | Some quoted \<Rightarrow> Inr (join_with ''.'' quoted))"

section \<open>The driver\<close>

datatype sql_arg = ArgText string | ArgInt int | ArgJson bytes

text \<open>The statement of a save: the table, the placeholder numbers of each row, the arguments.\<close>

record upsert =
  up_table :: string
  up_values :: "nat list list"
  up_args :: "sql_arg list"

record pg_row =
  row_actor_id :: string
  row_actor_type :: string
  row_version :: int
  row_offset :: int
  row_state :: bytes
  row_dedup :: bytes

datatype row_reply = RowId string | RowNone | RowError

text \<open>The ids read, and whether a scan failed after them or reading the rows failed.\<close>

datatype rows_reply = QueryError | Rows "string list" bool bool

datatype load_reply = LoadRow pg_row | LoadNone | LoadError

record 'db postgres =
  query_row :: "'db \<Rightarrow> upsert \<Rightarrow> 'db \<times> row_reply"
  query_rows :: "'db \<Rightarrow> upsert \<Rightarrow> 'db \<times> rows_reply"
  query_load :: "'db \<Rightarrow> string \<Rightarrow> string \<Rightarrow> 'db \<times> load_reply"
  exec_schema :: "'db \<Rightarrow> string \<Rightarrow> 'db \<times> bool"
  row_at :: "'db \<Rightarrow> string \<Rightarrow> string \<Rightarrow> pg_row option"
  jsonb :: "bytes \<Rightarrow> bytes"

record 'v state_json =
  marshal_state :: "'v \<Rightarrow> bytes option"
  unmarshal_state :: "bytes \<Rightarrow> 'v option"

definition marshal_ids :: "string list \<Rightarrow> bytes" where
  "marshal_ids ids = bytes_of (marshal_strings ids)"

definition unmarshal_ids :: "bytes \<Rightarrow> string list option" where
  "unmarshal_ids bs = unmarshal_strings (of_bytes bs)"

section \<open>The store\<close>

definition defaultPostgresTable :: string where "defaultPostgresTable = ''actor''"

record pg_store =
  has_db :: bool
  table :: string
  pg_owned :: bool

definition pg_ready :: "pg_store option \<Rightarrow> storage_error option" where
  "pg_ready s = (case s of
       None \<Rightarrow> Some ErrUninitialized
     | Some s \<Rightarrow> if \<not> has_db s \<or> table s = [] then Some ErrUninitialized else None)"

definition NewPostgresWithDB ::
  "(int \<Rightarrow> bool) \<Rightarrow> (int \<Rightarrow> bool) \<Rightarrow> bool \<Rightarrow> string \<Rightarrow> storage_error + pg_store" where
  "NewPostgresWithDB letter number db tbl =
     (if \<not> db then Inl ErrInvalid
      else let tbl = (if blank tbl then defaultPostgresTable else tbl)
      in case quoteQualifiedIdentifier letter number tbl of
           Inl err \<Rightarrow> Inl err
         | Inr quoted \<Rightarrow> Inr \<lparr>has_db = db, table = quoted, pg_owned = False\<rparr>)"

text \<open>The second component counts how often the opened pool was closed again.\<close>

definition NewPostgres ::
  "(int \<Rightarrow> bool) \<Rightarrow> (int \<Rightarrow> bool) \<Rightarrow> bool \<Rightarrow> bool \<Rightarrow> string \<Rightarrow> string \<Rightarrow> (storage_error + pg_store) \<times> nat" where
  "NewPostgres letter number opens pings dsn tbl =
     (if blank dsn then (Inl ErrInvalid, 0)
      else if \<not> opens then (Inl DriverError, 0)
      else if \<not> pings then (Inl DriverError, 1)
      else case NewPostgresWithDB letter number True tbl of
          Inl err \<Rightarrow> (Inl err, 1)
        | Inr store \<Rightarrow> (Inr (store\<lparr>pg_owned := True\<rparr>), 0))"

definition EnsureSchema :: "'db postgres \<Rightarrow> pg_store option \<Rightarrow> 'db \<Rightarrow> 'db \<times> storage_error option" where
  "EnsureSchema P s db =
     (case pg_ready s of
        Some err \<Rightarrow> (db, Some err)
      | None \<Rightarrow> let (db, err) = exec_schema P db (table (the s)) in (db, if err then Some DriverError else None))"

definition pg_Close :: "pg_store option \<Rightarrow> storage_error option \<times> bool" where
  "pg_Close s = (case pg_ready s of
       Some err \<Rightarrow> (Some err, False)
     | None \<Rightarrow> if \<not> pg_owned (the s) then (None, False) else (None, True))"

definition encodePostgresSnapshot ::
  "'v state_json \<Rightarrow> 'v actor_snapshot \<Rightarrow> storage_error + 'v stored_snapshot \<times> bytes \<times> bytes" where
  "encodePostgresSnapshot J input =
     (case snapshotFromMessage input of
        Inl err \<Rightarrow> Inl err
      | Inr d \<Rightarrow>
          (case marshal_state J (st_State d) of
             None \<Rightarrow> Inl EncodeError
           | Some state \<Rightarrow> Inr (d, state, marshal_ids (st_Dedup d))))"

definition row_args :: "'v stored_snapshot \<Rightarrow> bytes \<Rightarrow> bytes \<Rightarrow> sql_arg list" where
  "row_args d state dedup = [ArgText (st_ActorID d), ArgText (st_ActorType d), ArgInt (st_Version d),
     ArgInt (st_Offset d), ArgJson state, ArgJson dedup]"

definition saveOnePostgres ::
  "'v state_json \<Rightarrow> 'db postgres \<Rightarrow> pg_store option \<Rightarrow> 'v actor_snapshot \<Rightarrow> 'db \<Rightarrow> 'db \<times> storage_error option" where
  "saveOnePostgres J P s input db =
     (case pg_ready s of
        Some err \<Rightarrow> (db, Some err)
      | None \<Rightarrow>
          (case encodePostgresSnapshot J input of
             Inl err \<Rightarrow> (db, Some err)
           | Inr (d, state, dedup) \<Rightarrow>
               let (db, reply) = query_row P db \<lparr>up_table = table (the s), up_values = [[1, 2, 3, 4, 5, 6]],
                     up_args = row_args d state dedup\<rparr>
               in (db, case reply of
                     RowNone \<Rightarrow> Some (ErrStale [st_ActorID d])
                   | RowError \<Rightarrow> Some DriverError
                   | RowId _ \<Rightarrow> None)))"

text \<open>The loop that numbers the placeholders of each row and appends its arguments.\<close>

fun batch_rows ::
  "'v state_json \<Rightarrow> nat \<Rightarrow> 'v actor_snapshot list \<Rightarrow> sql_arg list \<Rightarrow> nat list list \<Rightarrow>
   storage_error + sql_arg list \<times> nat list list" where
  "batch_rows J index [] args values = Inr (args, values)"
| "batch_rows J index (input # inputs) args values =
     (case encodePostgresSnapshot J input of
        Inl err \<Rightarrow> Inl err
      | Inr (d, state, dedup) \<Rightarrow>
          let base = index * 6 + 1
          in batch_rows J (index + 1) inputs (args @ row_args d state dedup)
               (values @ [[base, base + 1, base + 2, base + 3, base + 4, base + 5]]))"

definition saveBatchPostgres ::
  "'v state_json \<Rightarrow> 'db postgres \<Rightarrow> pg_store option \<Rightarrow> 'v actor_snapshot list \<Rightarrow> 'db \<Rightarrow>
   'db \<times> string list \<times> storage_error list" where
  "saveBatchPostgres J P s inputs db =
     (case pg_ready s of
        Some err \<Rightarrow> (db, [], [err])
      | None \<Rightarrow>
          (case validateBatch inputs of
             Some err \<Rightarrow> (db, [], [err])
           | None \<Rightarrow>
               (case batch_rows J 0 inputs [] [] of
                  Inl err \<Rightarrow> (db, [], [err])
                | Inr (args, values) \<Rightarrow>
                    let (db, reply) = query_rows P db \<lparr>up_table = table (the s), up_values = values, up_args = args\<rparr>
                    in case reply of
                         QueryError \<Rightarrow> (db, [], [DriverError])
                       | Rows success scan_failed read_failed \<Rightarrow>
                           if scan_failed \<or> read_failed then (db, success, [DriverError])
                           else if length success = length inputs then (db, success, [])
                           else (db, success, [ErrStale (filter (\<lambda>i. i \<notin> set success) (map snap_ActorId inputs))]))))"

definition pg_Save ::
  "'v state_json \<Rightarrow> 'db postgres \<Rightarrow> pg_store option \<Rightarrow> 'db \<Rightarrow> 'v actor_snapshot list \<Rightarrow>
   'db \<times> string list \<times> storage_error list" where
  "pg_Save J P s db inputs =
     (case inputs of
        [] \<Rightarrow> (db, [], [])
      | [input] \<Rightarrow>
          (case saveOnePostgres J P s input db of
             (db, Some err) \<Rightarrow> (db, [], [err])
           | (db, None) \<Rightarrow> (db, [snap_ActorId input], []))
      | _ \<Rightarrow> saveBatchPostgres J P s inputs db)"

text \<open>\<open>strings.TrimSpace(value) == "null"\<close>, on the runes of the value.\<close>

definition isJSONNull :: "bytes \<Rightarrow> bool" where
  "isJSONNull bs \<longleftrightarrow> rev (dropWhile IsSpace (rev (dropWhile IsSpace (map fst (runes (map uint bs)))))) =
     [110, 117, 108, 108]"

definition decodePostgresState ::
  "'v state_json \<Rightarrow> bytes \<Rightarrow> bytes \<Rightarrow> 'v stored_snapshot \<Rightarrow> storage_error + 'v stored_snapshot" where
  "decodePostgresState J stateJSON dedupJSON d =
     (let state = (if stateJSON \<noteq> [] \<and> \<not> isJSONNull stateJSON then unmarshal_state J stateJSON
                   else Some (st_State d));
          dedup = (if dedupJSON \<noteq> [] \<and> \<not> isJSONNull dedupJSON then unmarshal_ids dedupJSON
                   else Some (st_Dedup d))
      in case state of
           None \<Rightarrow> Inl EncodeError
         | Some st \<Rightarrow> (case dedup of
             None \<Rightarrow> Inl EncodeError
           | Some ids \<Rightarrow> Inr (d\<lparr>st_State := st, st_Dedup := ids\<rparr>)))"

definition row_snapshot :: "'v::default state_json \<Rightarrow> pg_row \<Rightarrow> storage_error + 'v stored_snapshot" where
  "row_snapshot J r = decodePostgresState J (row_state r) (row_dedup r)
     (zero_snapshot\<lparr>st_ActorID := row_actor_id r, st_ActorType := row_actor_type r,
        st_Version := row_version r, st_Offset := row_offset r\<rparr>)"

definition pg_Load ::
  "'v::default state_json \<Rightarrow> 'db postgres \<Rightarrow> pg_store option \<Rightarrow> 'db \<Rightarrow> string \<Rightarrow>
   'db \<times> (storage_error + 'v actor_snapshot)" where
  "pg_Load J P s db i =
     (case pg_ready s of
        Some err \<Rightarrow> (db, Inl err)
      | None \<Rightarrow>
          (case validateActorID i of
             Some err \<Rightarrow> (db, Inl err)
           | None \<Rightarrow>
               let (db, reply) = query_load P db (table (the s)) i
               in case reply of
                    LoadNone \<Rightarrow> (db, Inl (ErrNotFound i))
                  | LoadError \<Rightarrow> (db, Inl DriverError)
                  | LoadRow r \<Rightarrow>
                      (case row_snapshot J r of
                         Inl err \<Rightarrow> (db, Inl err)
                       | Inr d \<Rightarrow> (db, Inr (snapshot_message d)))))"

section \<open>Table names cannot leave their quotes\<close>

lemma quote_parts_eq:
  "quote_parts letter number ps acc =
     (if list_all (validIdentifierPart letter number) ps
      then Some (acc @ map (\<lambda>p. CHR 34 # p @ [CHR 34]) ps) else None)"
  by (induction ps arbitrary: acc) auto

lemma valid_runes_iff:
  "valid_runes letter number (Suc k) rs \<longleftrightarrow> (\<forall>r \<in> set rs. r = 95 \<or> letter r \<or> number r)"
  by (induction rs arbitrary: k) auto

lemma byte_quote: "byte c = 34 \<longleftrightarrow> c = CHR 34"
proof
  assume "byte c = 34"
  then have "(of_char c :: int) = of_char (CHR 34)" by (simp add: byte_def)
  then show "c = CHR 34" by (simp only: of_char_eq_iff)
qed (simp add: byte_def)

text \<open>
  C34: a table name that is accepted is quoted so that it stays an identifier: the result is the
  parts of the name, each between double quotes, joined by dots, and no part is empty or contains
  a double quote itself.
\<close>

theorem quoted_identifier_is_closed:
  assumes "\<not> letter 34" and "\<not> number 34" and "quoteQualifiedIdentifier letter number s = Inr q"
  shows "q = join_with ''.'' (map (\<lambda>p. CHR 34 # p @ [CHR 34]) (split_at (CHR ''.'') s)) \<and>
    (\<forall>p \<in> set (split_at (CHR ''.'') s). p \<noteq> [] \<and> CHR 34 \<notin> set p)"
proof -
  have ok: "list_all (validIdentifierPart letter number) (split_at (CHR ''.'') s)"
    "q = join_with ''.'' (map (\<lambda>p. CHR 34 # p @ [CHR 34]) (split_at (CHR ''.'') s))"
    using assms(3) by (auto simp: quoteQualifiedIdentifier_def quote_parts_eq split: if_splits)
  have "p \<noteq> [] \<and> CHR 34 \<notin> set p" if "validIdentifierPart letter number p" for p
  proof
    show "p \<noteq> []" using that by (auto simp: validIdentifierPart_def split: if_splits)
    have "34 \<notin> set (string_runes p)"
      using that assms(1,2) by (cases "string_runes p")
        (auto simp: validIdentifierPart_def valid_runes_iff split: if_splits)
    then show "CHR 34 \<notin> set p" using ascii_in_runes [of "CHR 34" p] by (auto simp: byte_quote byte_def)
  qed
  then show ?thesis using ok by (simp add: list_all_iff)
qed

theorem quoted_identifier_is_closed_witness:
  "quoteQualifiedIdentifier (\<lambda>r. 97 \<le> r \<and> r \<le> 122) (\<lambda>r. 48 \<le> r \<and> r \<le> 57) ''app.actor1'' =
     Inr (CHR 34 # ''app'' @ [CHR 34] @ ''.'' @ CHR 34 # ''actor1'' @ [CHR 34])"
proof -
  let ?q = "quoteQualifiedIdentifier (\<lambda>r. 97 \<le> r \<and> r \<le> 122) (\<lambda>r. 48 \<le> r \<and> r \<le> 57) ''app.actor1''"
  have "case ?q of Inr _ \<Rightarrow> True | Inl _ \<Rightarrow> False" by code_simp
  then obtain q where q: "?q = Inr q" by (auto split: sum.splits)
  show ?thesis using quoted_identifier_is_closed [OF _ _ q] q by simp
qed

section \<open>The rows of a statement\<close>

fun row_of_args :: "sql_arg list \<Rightarrow> pg_row option" where
  "row_of_args [ArgText i, ArgText t, ArgInt v, ArgInt off, ArgJson s, ArgJson d] =
     Some \<lparr>row_actor_id = i, row_actor_type = t, row_version = v, row_offset = off,
       row_state = s, row_dedup = d\<rparr>"
| "row_of_args _ = None"

text \<open>The placeholder \<open>$k\<close> stands for the k-th argument, counted from one.\<close>

definition statement_rows :: "upsert \<Rightarrow> pg_row option list" where
  "statement_rows u = map (\<lambda>ph. row_of_args (map (\<lambda>k. up_args u ! (k - 1)) ph)) (up_values u)"

definition encoded_row :: "'v state_json \<Rightarrow> 'v actor_snapshot \<Rightarrow> pg_row option" where
  "encoded_row J s = (case encodePostgresSnapshot J s of
     Inl _ \<Rightarrow> None
   | Inr (d, state, dedup) \<Rightarrow> row_of_args (row_args d state dedup))"

lemma row_args_nth:
  assumes "length args = k * 6"
  shows "map (\<lambda>j. (args @ row_args d st dd @ rest) ! (j - 1))
    [k * 6 + 1, k * 6 + 1 + 1, k * 6 + 1 + 2, k * 6 + 1 + 3, k * 6 + 1 + 4, k * 6 + 1 + 5] = row_args d st dd"
  using assms by (simp add: nth_append row_args_def)

lemma batch_rows_prefix:
  "batch_rows J k ss args vals = Inr (args', vals') \<Longrightarrow>
   (\<exists>more. args' = args @ more) \<and> (\<exists>vs. vals' = vals @ vs)"
proof (induction J k ss args vals arbitrary: args' vals' rule: batch_rows.induct)
  case (2 J k s ss args vals)
  then show ?case by (fastforce simp: Let_def split: sum.splits)
qed simp

lemma batch_rows_spec:
  "batch_rows J k ss args vals = Inr (args', vals') \<Longrightarrow> length args = k * 6 \<Longrightarrow>
   \<exists>vs. vals' = vals @ vs \<and> map (\<lambda>ph. row_of_args (map (\<lambda>j. args' ! (j - 1)) ph)) vs = map (encoded_row J) ss"
proof (induction ss arbitrary: k args vals)
  case (Cons s ss)
  obtain d st dd where enc: "encodePostgresSnapshot J s = Inr (d, st, dd)"
    using Cons.prems(1) by (cases "encodePostgresSnapshot J s") auto
  let ?ph = "[k * 6 + 1, k * 6 + 1 + 1, k * 6 + 1 + 2, k * 6 + 1 + 3, k * 6 + 1 + 4, k * 6 + 1 + 5]"
  have step: "batch_rows J (k + 1) ss (args @ row_args d st dd) (vals @ [?ph]) = Inr (args', vals')"
    using Cons.prems(1) enc by (simp add: Let_def)
  moreover have "length (args @ row_args d st dd) = (k + 1) * 6"
    using Cons.prems(2) by (simp add: row_args_def)
  ultimately obtain vs where vs: "vals' = (vals @ [?ph]) @ vs"
    "map (\<lambda>ph. row_of_args (map (\<lambda>j. args' ! (j - 1)) ph)) vs = map (encoded_row J) ss"
    using Cons.IH by blast
  obtain more where "args' = args @ row_args d st dd @ more"
    using batch_rows_prefix [OF step] by auto
  then have "map (\<lambda>j. args' ! (j - 1)) ?ph = row_args d st dd"
    using row_args_nth [OF Cons.prems(2), of d st dd more] by (simp only:)
  then have "row_of_args (map (\<lambda>j. args' ! (j - 1)) ?ph) = encoded_row J s"
    using enc by (simp only: encoded_row_def sum.case prod.case)
  then show ?case
    using vs by (intro exI [of _ "?ph # vs"]) (simp only: append_assoc append_Cons append_Nil list.map simp_thms)
qed simp

text \<open>
  C33: in the statement of a batch, the numbered placeholders of each row address exactly the six
  arguments of its snapshot: the statement writes the rows of the snapshots, in their order.
\<close>

theorem batch_statement_writes_snapshots:
  assumes "batch_rows J 0 ss [] [] = Inr (args, values)"
  shows "statement_rows \<lparr>up_table = t, up_values = values, up_args = args\<rparr> = map (encoded_row J) ss"
  using batch_rows_spec [OF assms] by (auto simp: statement_rows_def)

definition example_state_json :: "int state_json" where
  "example_state_json = \<lparr>marshal_state = (\<lambda>v. Some [of_nat (nat v + 48)]),
     unmarshal_state = (\<lambda>bs. Some (uint (hd bs) - 48))\<rparr>"

definition example_snaps :: "int actor_snapshot list" where
  "example_snaps = [\<lparr>snap_ActorId = ''a'', snap_ActorType = [], snap_Version = 0, snap_Offset = 7,
       snap_State = 1, snap_Dedup = []\<rparr>,
     \<lparr>snap_ActorId = ''b'', snap_ActorType = [], snap_Version = 2, snap_Offset = 9,
       snap_State = 3, snap_Dedup = []\<rparr>]"

theorem batch_statement_writes_snapshots_witness:
  "\<exists>args values. batch_rows example_state_json 0 example_snaps [] [] = Inr (args, values) \<and>
     map (map_option row_actor_id) (statement_rows \<lparr>up_table = ''t'', up_values = values, up_args = args\<rparr>) =
       [Some ''a'', Some ''b'']"
proof -
  have "case batch_rows example_state_json 0 example_snaps [] [] of Inr _ \<Rightarrow> True | _ \<Rightarrow> False"
    "map (map_option row_actor_id) (map (encoded_row example_state_json) example_snaps) = [Some ''a'', Some ''b'']"
    by code_simp+
  then obtain args vals where r: "batch_rows example_state_json 0 example_snaps [] [] = Inr (args, vals)"
    "map (map_option row_actor_id) (map (encoded_row example_state_json) example_snaps) = [Some ''a'', Some ''b'']"
    by (auto split: sum.splits)
  show ?thesis
    using batch_statement_writes_snapshots [OF r(1), of "''t''"] r by auto
qed

section \<open>The store keeps the contract\<close>

definition stored_row :: "'db postgres \<Rightarrow> pg_row \<Rightarrow> pg_row" where
  "stored_row P r = r\<lparr>row_state := jsonb P (row_state r), row_dedup := jsonb P (row_dedup r)\<rparr>"

definition upsert_ok :: "'db postgres \<Rightarrow> pg_row \<Rightarrow> pg_row option \<Rightarrow> pg_row option \<Rightarrow> bool \<Rightarrow> bool" where
  "upsert_ok P r before after returned \<longleftrightarrow>
     (if \<exists>b. before = Some b \<and> row_version r < row_version b then after = before \<and> \<not> returned
      else after \<in> {before, Some (stored_row P r)} \<and> (returned \<longrightarrow> after = Some (stored_row P r)))"

text \<open>The ids that a statement returned in full.\<close>

fun confirmed :: "rows_reply \<Rightarrow> string list" where
  "confirmed QueryError = []"
| "confirmed (Rows ids scan_failed read_failed) = (if scan_failed \<or> read_failed then [] else ids)"

text \<open>
  The documented effect of the statements: other rows stay, a conflicting row changes only when
  its version is not above the new one, and the ids that a statement returned in full are those
  it wrote; an \<open>UPDATE\<close> that returns a row has raised its version.
\<close>

definition postgres_ok :: "'db postgres \<Rightarrow> bool" where
  "postgres_ok P \<longleftrightarrow>
     (\<forall>db u r. statement_rows u = [Some r] \<longrightarrow> (let (db', reply) = query_row P db u in
        (\<forall>i. i \<noteq> row_actor_id r \<longrightarrow> row_at P db' (up_table u) i = row_at P db (up_table u) i) \<and>
        upsert_ok P r (row_at P db (up_table u) (row_actor_id r)) (row_at P db' (up_table u) (row_actor_id r))
          (\<exists>i. reply = RowId i))) \<and>
     (\<forall>db u rs. statement_rows u = map Some rs \<longrightarrow> distinct (map row_actor_id rs) \<longrightarrow>
        (let (db', reply) = query_rows P db u;
             ids = confirmed reply
         in set ids \<subseteq> row_actor_id ` set rs \<and>
           (\<forall>i. i \<notin> row_actor_id ` set rs \<longrightarrow> row_at P db' (up_table u) i = row_at P db (up_table u) i) \<and>
           (\<forall>r \<in> set rs. upsert_ok P r (row_at P db (up_table u) (row_actor_id r))
             (row_at P db' (up_table u) (row_actor_id r)) (row_actor_id r \<in> set ids)))) \<and>
     (\<forall>db t i db' r. query_load P db t i = (db', LoadRow r) \<longrightarrow>
        (\<exists>b. row_at P db t i = Some b \<and> r = b\<lparr>row_version := row_version b + 1\<rparr> \<and> row_at P db' t i = Some r))"

text \<open>
  The hypothesis on encoding/json and \<open>jsonb\<close>: the text of a state can be read back (as whatever value
  of type \<open>any\<close>: a struct, for one, comes back as a map), and a list of strings is the same list for the reader after
  the database has reformatted its text.
\<close>

definition state_json_ok :: "'v::default state_json \<Rightarrow> 'db postgres \<Rightarrow> bool" where
  "state_json_ok J P \<longleftrightarrow>
     (\<forall>st state. marshal_state J st = Some state \<longrightarrow> jsonb P state \<noteq> [] \<longrightarrow> \<not> isJSONNull (jsonb P state) \<longrightarrow>
        unmarshal_state J (jsonb P state) \<noteq> None) \<and>
     (\<forall>ids. let text = jsonb P (marshal_ids ids) in
        text \<noteq> [] \<and> \<not> isJSONNull text \<and> unmarshal_ids text = unmarshal_ids (marshal_ids ids))"

text \<open>
  What the columns keep of a snapshot: of the state what is read back (nothing of a \<open>null\<close>), and JSON
  replaces the bytes of the ids that are not UTF-8.
\<close>

definition pg_decoded :: "'v::default state_json \<Rightarrow> 'db postgres \<Rightarrow> 'v \<Rightarrow> 'v" where
  "pg_decoded J P st = (case marshal_state J st of
     None \<Rightarrow> st
   | Some state \<Rightarrow> if jsonb P state \<noteq> [] \<and> \<not> isJSONNull (jsonb P state)
       then the (unmarshal_state J (jsonb P state)) else default)"

definition pg_kept :: "'v::default state_json \<Rightarrow> 'db postgres \<Rightarrow> 'v actor_snapshot \<Rightarrow> 'v actor_snapshot" where
  "pg_kept J P s = s\<lparr>snap_State := pg_decoded J P (snap_State s), snap_Dedup := map coerce_utf8 (snap_Dedup s)\<rparr>"

lemma unmarshal_marshal_ids [simp]: "unmarshal_ids (marshal_ids ids) = Some (map coerce_utf8 ids)"
  by (simp add: unmarshal_ids_def marshal_ids_def unmarshal_marshal_strings)

definition pg_at :: "'v::default state_json \<Rightarrow> 'db postgres \<Rightarrow> pg_store option \<Rightarrow> 'db \<Rightarrow> string \<Rightarrow> 'v actor_snapshot option" where
  "pg_at J P s db i = (case row_at P db (table (the s)) i of
     None \<Rightarrow> None
   | Some r \<Rightarrow> (case row_snapshot J r of Inl _ \<Rightarrow> None | Inr d \<Rightarrow> Some (snapshot_message d)))"

lemma encoded_row_fields:
  assumes "encodePostgresSnapshot J s = Inr (d, st, dd)"
  shows "encoded_row J s = Some \<lparr>row_actor_id = snap_ActorId s, row_actor_type = snap_ActorType s,
    row_version = snap_Version s, row_offset = snap_Offset s, row_state = st, row_dedup = dd\<rparr>"
    and "marshal_state J (snap_State s) = Some st" and "dd = marshal_ids (snap_Dedup s)"
    and "storable s"
  using assms snapshotFromMessage_ok [of s]
  by (auto simp: encodePostgresSnapshot_def encoded_row_def row_args_def snapshotFromMessage_def
      split: sum.splits option.splits if_splits)

lemma row_snapshot_stored:
  assumes "state_json_ok J P" and "encoded_row J s = Some r"
  shows "\<exists>d. row_snapshot J (stored_row P r) = Inr d \<and> snapshot_message d = pg_kept J P s"
proof -
  obtain d st dd where enc: "encodePostgresSnapshot J s = Inr (d, st, dd)"
    using assms(2) by (auto simp: encoded_row_def split: sum.splits)
  note f = encoded_row_fields [OF enc]
  let ?d = "zero_snapshot\<lparr>st_ActorID := snap_ActorId s, st_ActorType := snap_ActorType s,
    st_Version := snap_Version s, st_Offset := snap_Offset s\<rparr> :: 'a stored_snapshot"
  have read: "unmarshal_state J (jsonb P st) = Some (pg_decoded J P (snap_State s))"
    if "jsonb P st \<noteq> []" "\<not> isJSONNull (jsonb P st)"
    using assms(1) f(2) that unfolding state_json_ok_def by (force simp: pg_decoded_def)
  have null: "pg_decoded J P (snap_State s) = default" if "jsonb P st = [] \<or> isJSONNull (jsonb P st)"
    using f(2) that by (auto simp: pg_decoded_def)
  have "jsonb P dd \<noteq> [] \<and> \<not> isJSONNull (jsonb P dd) \<and>
      unmarshal_ids (jsonb P dd) = Some (map coerce_utf8 (snap_Dedup s))"
    using assms(1) f(3) unfolding state_json_ok_def by (simp add: Let_def)
  then have "decodePostgresState J (jsonb P st) (jsonb P dd) ?d =
      Inr (?d\<lparr>st_State := pg_decoded J P (snap_State s), st_Dedup := map coerce_utf8 (snap_Dedup s)\<rparr>)"
    using read null by (cases "jsonb P st \<noteq> [] \<and> \<not> isJSONNull (jsonb P st)")
      (auto simp: zero_snapshot_def decodePostgresState_def)
  then have "row_snapshot J (stored_row P r) =
      Inr (?d\<lparr>st_State := pg_decoded J P (snap_State s), st_Dedup := map coerce_utf8 (snap_Dedup s)\<rparr>)"
    using f(1) assms(2) by (auto simp: row_snapshot_def stored_row_def)
  then show ?thesis by (simp add: snapshot_message_def zero_snapshot_def pg_kept_def)
qed

lemma row_snapshot_Version: "row_snapshot J b = Inr d \<Longrightarrow> st_Version d = row_version b"
  by (auto simp: row_snapshot_def decodePostgresState_def Let_def split: option.splits if_splits)

lemma row_snapshot_version:
  "row_snapshot J (b\<lparr>row_version := v\<rparr>) =
     (case row_snapshot J b of Inl err \<Rightarrow> Inl err | Inr d \<Rightarrow> Inr (d\<lparr>st_Version := v\<rparr>))"
  by (simp add: row_snapshot_def decodePostgresState_def zero_snapshot_def Let_def split: option.split)

lemma upsert_put:
  assumes "state_json_ok J P" and "encoded_row J s = Some r" and "upsert_ok P r before after returned"
  shows "put_ok (pg_kept J P s) (case before of None \<Rightarrow> None | Some r \<Rightarrow> (case row_snapshot J r of Inl _ \<Rightarrow> None | Inr d \<Rightarrow> Some (snapshot_message d)))
    (case after of None \<Rightarrow> None | Some r \<Rightarrow> (case row_snapshot J r of Inl _ \<Rightarrow> None | Inr d \<Rightarrow> Some (snapshot_message d)))
    returned"
proof -
  obtain d where d: "row_snapshot J (stored_row P r) = Inr d" "snapshot_message d = pg_kept J P s"
    using row_snapshot_stored [OF assms(1,2)] by blast
  have v: "row_version r = snap_Version s"
    using assms(2) encoded_row_fields(1) by (fastforce simp: encoded_row_def split: sum.splits)
  have same: "snap_Version (snapshot_message d') = row_version b" if "row_snapshot J b = Inr d'" for b d'
    using row_snapshot_Version [OF that] by (simp add: snapshot_message_def)
  show ?thesis
  proof (cases "\<exists>b. before = Some b \<and> row_version r < row_version b")
    case True
    then show ?thesis using assms(3) by (simp add: upsert_ok_def put_ok_def pg_kept_def)
  next
    case False
    then have "after \<in> {before, Some (stored_row P r)}" "returned \<longrightarrow> after = Some (stored_row P r)"
      using assms(3) by (auto simp: upsert_ok_def split: if_splits)
    then show ?thesis
      using False d v same by (auto simp: put_ok_def pg_kept_def split: option.splits sum.splits)
  qed
qed

lemma encoded_row_id: "encoded_row J s = Some r \<Longrightarrow> row_actor_id r = snap_ActorId s"
  using encoded_row_fields(1) by (fastforce simp: encoded_row_def split: sum.splits)

lemma pg_saveOne_puts:
  assumes P: "postgres_ok P" and J: "state_json_ok J P" and "saveOnePostgres J P st s db = (db', err)"
  shows "puts_ok (pg_kept J P) (pg_at J P st) [s] db db' (if err = None then [snap_ActorId s] else [])"
proof (cases "pg_ready st")
  case None
  show ?thesis
  proof (cases "encodePostgresSnapshot J s")
    case (Inl x)
    then show ?thesis using assms(3) None puts_ok_same by (auto simp: saveOnePostgres_def)
  next
    case (Inr enc)
    then obtain d state dd where enc: "encodePostgresSnapshot J s = Inr (d, state, dd)" by (cases enc) auto
    let ?u = "\<lparr>up_table = table (the st), up_values = [[1, 2, 3, 4, 5, 6]], up_args = row_args d state dd\<rparr>"
    obtain r where r: "encoded_row J s = Some r" using encoded_row_fields(1) [OF enc] by blast
    have rows: "statement_rows ?u = [Some r]"
      using r enc by (simp add: statement_rows_def encoded_row_def row_args_def)
    obtain reply where q: "query_row P db ?u = (db', reply)" "err = None \<longleftrightarrow> (\<exists>i. reply = RowId i)"
      using assms(3) None enc by (auto simp: saveOnePostgres_def Let_def split: prod.splits row_reply.splits)
    have "let (db', reply) = query_row P db ?u in
        (\<forall>i. i \<noteq> row_actor_id r \<longrightarrow> row_at P db' (up_table ?u) i = row_at P db (up_table ?u) i) \<and>
        upsert_ok P r (row_at P db (up_table ?u) (row_actor_id r)) (row_at P db' (up_table ?u) (row_actor_id r))
          (\<exists>i. reply = RowId i)"
      using P rows unfolding postgres_ok_def by blast
    then show ?thesis
      using q upsert_put [OF J r] encoded_row_id [OF r] by (auto simp: puts_ok_def pg_at_def)
  qed
qed (use assms(3) puts_ok_same in \<open>auto simp: saveOnePostgres_def\<close>)

lemma batch_rows_encoded:
  "batch_rows J k ss args vals = Inr (args', vals') \<Longrightarrow> \<forall>s \<in> set ss. \<exists>r. encoded_row J s = Some r"
proof (induction ss arbitrary: k args vals)
  case (Cons s ss)
  obtain d st dd where enc: "encodePostgresSnapshot J s = Inr (d, st, dd)"
    using Cons.prems by (cases "encodePostgresSnapshot J s") auto
  then show ?case
    using Cons encoded_row_fields(1) [OF enc] by (auto simp: Let_def)
qed simp

lemma pg_saveBatch_puts:
  assumes P: "postgres_ok P" and J: "state_json_ok J P"
    and save: "saveBatchPostgres J P st ss db = (db', ids, errs)"
  shows "puts_ok (pg_kept J P) (pg_at J P st) ss db db' (if DriverError \<in> set errs then [] else ids)"
proof (cases "pg_ready st = None \<and> validateBatch ss = None \<and> (\<exists>r. batch_rows J 0 ss [] [] = Inr r)")
  case False
  then have "db' = db \<and> ids = []"
    using save by (auto simp: saveBatchPostgres_def split: option.splits sum.splits)
  then show ?thesis using puts_ok_same by simp
next
  case True
  then obtain args vals where rows: "batch_rows J 0 ss [] [] = Inr (args, vals)" by auto
  let ?u = "\<lparr>up_table = table (the st), up_values = vals, up_args = args\<rparr>"
  define rs where "rs = map (\<lambda>s. the (encoded_row J s)) ss"
  have enc: "encoded_row J s = Some (the (encoded_row J s))" if "s \<in> set ss" for s
    using batch_rows_encoded [OF rows] that by fastforce
  have "statement_rows ?u = map (encoded_row J) ss"
    using batch_rows_spec [OF rows] by (auto simp: statement_rows_def)
  then have st: "statement_rows ?u = map Some rs" using enc by (simp add: rs_def)
  have "row_actor_id (the (encoded_row J s)) = snap_ActorId s" if "s \<in> set ss" for s
    by (rule encoded_row_id [OF enc [OF that]])
  then have names: "map row_actor_id rs = map snap_ActorId ss" by (simp add: rs_def)
  then have dist: "distinct (map row_actor_id rs)"
    using True by (simp add: validateBatch_def validate_items_eq)
  obtain reply where q: "query_rows P db ?u = (db', reply)"
    "(if DriverError \<in> set errs then [] else ids) = confirmed reply"
    using save True rows
    by (cases "query_rows P db ?u") (auto simp: saveBatchPostgres_def Let_def split: rows_reply.splits if_splits)
  define got where "got = (if DriverError \<in> set errs then [] else ids)"
  have "let (db', reply) = query_rows P db ?u;
             ids = confirmed reply
         in set ids \<subseteq> row_actor_id ` set rs \<and>
           (\<forall>i. i \<notin> row_actor_id ` set rs \<longrightarrow> row_at P db' (up_table ?u) i = row_at P db (up_table ?u) i) \<and>
           (\<forall>r \<in> set rs. upsert_ok P r (row_at P db (up_table ?u) (row_actor_id r))
             (row_at P db' (up_table ?u) (row_actor_id r)) (row_actor_id r \<in> set ids))"
    using P st dist unfolding postgres_ok_def by blast
  then have eff: "set got \<subseteq> row_actor_id ` set rs"
    "\<forall>i. i \<notin> row_actor_id ` set rs \<longrightarrow> row_at P db' (table (the st)) i = row_at P db (table (the st)) i"
    "\<forall>r \<in> set rs. upsert_ok P r (row_at P db (table (the st)) (row_actor_id r))
       (row_at P db' (table (the st)) (row_actor_id r)) (row_actor_id r \<in> set got)"
    using q by (simp_all add: got_def Let_def)
  have ids: "row_actor_id ` set rs = snap_ActorId ` set ss" using names by (metis list.set_map)
  have "put_ok (pg_kept J P s) (pg_at J P st db (snap_ActorId s)) (pg_at J P st db' (snap_ActorId s)) (snap_ActorId s \<in> set got)"
    if "s \<in> set ss" for s
  proof -
    let ?r = "the (encoded_row J s)"
    have "?r \<in> set rs" using that by (simp add: rs_def)
    then show ?thesis
      using upsert_put [OF J enc [OF that]] eff(3) encoded_row_id [OF enc [OF that]] by (fastforce simp: pg_at_def)
  qed
  then show ?thesis using eff(1,2) ids by (auto simp: puts_ok_def got_def pg_at_def)
qed

locale postgres_table =
  fixes J :: "'v::default state_json" and P :: "'db postgres" and st :: "pg_store option"
  assumes driver: "postgres_ok P" and json: "state_json_ok J P"
begin

lemma store_contract: "snapshot_store (pg_kept J P) (pg_at J P st) (pg_Save J P st) (pg_Load J P st)"
proof (rule puts_contract)
  show "snap_Version (pg_kept J P s) = snap_Version s" for s by (simp add: pg_kept_def)
next
  fix db ss db' ids errs
  assume save: "pg_Save J P st db ss = (db', ids, errs)"
  consider "ss = []" | s where "ss = [s]" | s t us where "ss = s # t # us"
    by (cases ss rule: list.exhaust [case_names Nil Cons]) (metis list.exhaust)+
  then show "puts_ok (pg_kept J P) (pg_at J P st) ss db db' (if DriverError \<in> set errs then [] else ids)"
  proof cases
    case 1
    then show ?thesis using save puts_ok_same by (simp add: pg_Save_def)
  next
    case 2
    then obtain err where err: "saveOnePostgres J P st s db = (db', err)"
      "ids = (if err = None then [snap_ActorId s] else [])" "errs = (case err of None \<Rightarrow> [] | Some x \<Rightarrow> [x])"
      using save by (auto simp: pg_Save_def split: prod.splits option.splits)
    show ?thesis
      using pg_saveOne_puts [OF driver json err(1)] err(2,3) 2 by (auto split: option.splits)
  next
    case 3
    then show ?thesis
      using pg_saveBatch_puts [OF driver json, of st ss db db' ids errs] save by (simp add: pg_Save_def)
  qed
next
  fix db i db' s
  assume "pg_Load J P st db i = (db', Inr s)"
  then obtain r d where r: "query_load P db (table (the st)) i = (db', LoadRow r)" "row_snapshot J r = Inr d"
    "s = snapshot_message d"
    by (auto simp: pg_Load_def Let_def split: option.splits prod.splits load_reply.splits sum.splits)
  obtain b where b: "row_at P db (table (the st)) i = Some b" "r = b\<lparr>row_version := row_version b + 1\<rparr>"
    "row_at P db' (table (the st)) i = Some r"
    using driver r(1) unfolding postgres_ok_def by blast
  obtain d0 where d0: "row_snapshot J b = Inr d0" "d = d0\<lparr>st_Version := row_version b + 1\<rparr>"
    using r(2) unfolding b(2) row_snapshot_version by (auto split: sum.splits)
  then have "d = d0\<lparr>st_Version := st_Version d0 + 1\<rparr>" using row_snapshot_Version [OF d0(1)] by simp
  then show "\<exists>d. pg_at J P st db i = Some d \<and> s = d\<lparr>snap_Version := snap_Version d + 1\<rparr> \<and>
      pg_at J P st db' i = Some s"
    using b r d0(1) by (simp add: pg_at_def snapshot_message_def)
qed

end

sublocale postgres_table \<subseteq> store: snapshot_store "pg_kept J P" "pg_at J P st" "pg_Save J P st" "pg_Load J P st"
  by (rule store_contract)

section \<open>Fencing\<close>

text \<open>A database kept as a map from table and id, for the witness.\<close>

type_synonym pg_tables = "string \<times> string \<Rightarrow> pg_row option"

definition behind :: "pg_tables \<Rightarrow> string \<Rightarrow> pg_row \<Rightarrow> bool" where
  "behind db t r \<longleftrightarrow> (case db (t, row_actor_id r) of None \<Rightarrow> False | Some b \<Rightarrow> row_version r < row_version b)"

definition put_rows :: "pg_tables \<Rightarrow> string \<Rightarrow> pg_row list \<Rightarrow> pg_tables" where
  "put_rows db t rows = (\<lambda>(u, i). if u \<noteq> t then db (u, i)
     else case find (\<lambda>r. row_actor_id r = i \<and> \<not> behind db t r) rows of
       None \<Rightarrow> db (u, i) | Some r \<Rightarrow> Some r)"

definition map_postgres :: "pg_tables postgres" where
  "map_postgres = \<lparr>
     query_row = (\<lambda>db u. case statement_rows u of
         [Some r] \<Rightarrow> if behind db (up_table u) r then (db, RowNone)
           else (db((up_table u, row_actor_id r) := Some r), RowId (row_actor_id r))
       | _ \<Rightarrow> (db, RowError)),
     query_rows = (\<lambda>db u. if list_all (\<lambda>r. r \<noteq> None) (statement_rows u)
       then (put_rows db (up_table u) (map the (statement_rows u)),
         Rows (map row_actor_id (filter (\<lambda>r. \<not> behind db (up_table u) r) (map the (statement_rows u)))) False False)
       else (db, QueryError)),
     query_load = (\<lambda>db t i. case db (t, i) of None \<Rightarrow> (db, LoadNone)
       | Some r \<Rightarrow> let r = r\<lparr>row_version := row_version r + 1\<rparr> in (db((t, i) := Some r), LoadRow r)),
     exec_schema = (\<lambda>db t. (db, False)),
     row_at = (\<lambda>db t i. db (t, i)),
     jsonb = (\<lambda>bs. bs)\<rparr>"

lemma behind_iff: "behind db t r \<longleftrightarrow> (\<exists>b. db (t, row_actor_id r) = Some b \<and> row_version r < row_version b)"
  by (simp add: behind_def split: option.split)

lemma put_rows_at:
  assumes "distinct (map row_actor_id rs)" and "r \<in> set rs"
  shows "put_rows db t rs (t, row_actor_id r) = (if behind db t r then db (t, row_actor_id r) else Some r)"
proof -
  have one: "r' = r" if "r' \<in> set rs" "row_actor_id r' = row_actor_id r" for r'
    using assms that by (auto simp: distinct_map inj_on_def)
  show ?thesis
  proof (cases "find (\<lambda>r'. row_actor_id r' = row_actor_id r \<and> \<not> behind db t r') rs")
    case None
    then have "behind db t r" using assms(2) by (auto simp: find_None_iff)
    then show ?thesis using None by (simp add: put_rows_def)
  next
    case (Some r')
    then have "r' \<in> set rs" "row_actor_id r' = row_actor_id r" "\<not> behind db t r'"
      by (auto simp: find_Some_iff)
    moreover then have "r' = r" by (intro one)
    ultimately show ?thesis using Some by (simp add: put_rows_def)
  qed
qed

lemma put_rows_other: "i \<notin> row_actor_id ` set rs \<Longrightarrow> put_rows db t rs (t, i) = db (t, i)"
  by (auto simp: put_rows_def find_Some_iff split: option.split)

lemma map_postgres_rows [simp]:
  "row_at map_postgres db t i = db (t, i)"
  "statement_rows u = map Some rs \<Longrightarrow> query_rows map_postgres db u =
     (put_rows db (up_table u) rs,
      Rows (map row_actor_id (filter (\<lambda>r. \<not> behind db (up_table u) r) rs)) False False)"
  by (simp_all add: map_postgres_def list_all_iff comp_def)

lemma map_postgres_ok: "postgres_ok map_postgres"
  unfolding postgres_ok_def
proof (intro conjI allI impI)
  fix db u r
  assume "statement_rows u = [Some r]"
  then show "let (db', reply) = query_row map_postgres db u in
        (\<forall>i. i \<noteq> row_actor_id r \<longrightarrow> row_at map_postgres db' (up_table u) i = row_at map_postgres db (up_table u) i) \<and>
        upsert_ok map_postgres r (row_at map_postgres db (up_table u) (row_actor_id r))
          (row_at map_postgres db' (up_table u) (row_actor_id r)) (\<exists>i. reply = RowId i)"
    by (cases "behind db (up_table u) r") (auto simp: map_postgres_def upsert_ok_def stored_row_def behind_iff)
next
  fix db u rs
  assume rows: "statement_rows u = map Some rs" and dist: "distinct (map row_actor_id rs)"
  have acked: "row_actor_id r \<in> row_actor_id ` {r \<in> set rs. \<not> behind db t r} \<longleftrightarrow> \<not> behind db t r"
    if "r \<in> set rs" for r t
    using dist that by (auto simp: distinct_map inj_on_def)
  have "upsert_ok map_postgres r (db (t, row_actor_id r)) (put_rows db t rs (t, row_actor_id r))
      (row_actor_id r \<in> row_actor_id ` {r \<in> set rs. \<not> behind db t r})" if "r \<in> set rs" for r t
    unfolding acked [OF that] put_rows_at [OF dist that]
    by (auto simp: upsert_ok_def stored_row_def map_postgres_def behind_iff)
  then show "let (db', reply) = query_rows map_postgres db u;
             ids = confirmed reply
         in set ids \<subseteq> row_actor_id ` set rs \<and>
           (\<forall>i. i \<notin> row_actor_id ` set rs \<longrightarrow> row_at map_postgres db' (up_table u) i = row_at map_postgres db (up_table u) i) \<and>
           (\<forall>r \<in> set rs. upsert_ok map_postgres r (row_at map_postgres db (up_table u) (row_actor_id r))
             (row_at map_postgres db' (up_table u) (row_actor_id r)) (row_actor_id r \<in> set ids))"
    using rows put_rows_other [of _ rs db "up_table u"] by (simp add: image_subset_iff)
next
  fix db t i db' r
  assume "query_load map_postgres db t i = (db', LoadRow r)"
  then show "\<exists>b. row_at map_postgres db t i = Some b \<and> r = b\<lparr>row_version := row_version b + 1\<rparr> \<and>
      row_at map_postgres db' t i = Some r"
    by (auto simp: map_postgres_def Let_def split: option.splits)
qed

text \<open>
  C16: a load from PostgreSQL fences the owner before it: after it returned version v, no \<open>Save\<close> of
  snapshots with smaller versions, alone or in a batch, changes the row, and none is reported as a
  success unless the driver itself failed.
\<close>

theorem postgres_load_fences:
  assumes "postgres_ok P" and "state_json_ok J P" and "pg_Load J P st db i = (db1, Inr s)"
    and "pg_Save J P st db1 ss = (db2, ids, errs)"
    and "\<forall>t \<in> set ss. snap_ActorId t = i \<longrightarrow> snap_Version t < snap_Version s"
  shows "pg_at J P st db2 i = Some s \<and> (DriverError \<in> set errs \<or> i \<notin> set ids)"
  using snapshot_store.load_fences [OF postgres_table.store_contract [OF postgres_table.intro [OF assms(1,2)]]
      assms(3-5)] by blast

definition example_pg_json :: "int state_json" where
  "example_pg_json = \<lparr>marshal_state = (\<lambda>v. if v = 1 then Some [49] else None),
     unmarshal_state = (\<lambda>bs. if bs = [49] then Some 1 else None)\<rparr>"

lemma array_not_null: "\<not> isJSONNull (91 # bs)"
proof -
  have runes: "map fst (runes (map uint (91 # bs :: bytes))) = 91 # map fst (runes (map uint bs))" by simp
  have "rev (dropWhile IsSpace (rev (91 # rs))) = 91 # rev (dropWhile IsSpace (rev rs))" for rs
    by (simp add: dropWhile_append IsSpace_def dropWhile_eq_Nil_conv)
  then show ?thesis unfolding isJSONNull_def runes by (simp add: IsSpace_def)
qed

lemma example_pg_json_ok: "state_json_ok example_pg_json map_postgres"
proof -
  have "\<not> isJSONNull [49]" by code_simp
  moreover have "marshal_ids ids = 91 # tl (marshal_ids ids)" for ids
    by (simp add: marshal_ids_def marshal_strings_def write_array_def bytes_of_def)
  then have "marshal_ids ids \<noteq> [] \<and> \<not> isJSONNull (marshal_ids ids)" for ids
    using array_not_null by (metis list.distinct(1))
  ultimately show ?thesis
    by (simp add: state_json_ok_def example_pg_json_def map_postgres_def Let_def)
qed

text \<open>A driver and an encoding that keep the documented effect exist.\<close>

interpretation pt: postgres_table example_pg_json map_postgres st for st
  by unfold_locales (rule map_postgres_ok, rule example_pg_json_ok)

definition example_pg :: "pg_store option" where
  "example_pg = Some \<lparr>has_db = True, table = ''t'', pg_owned = False\<rparr>"

definition pg_snap :: "int \<Rightarrow> int actor_snapshot" where
  "pg_snap v = \<lparr>snap_ActorId = ''a'', snap_ActorType = [], snap_Version = v, snap_Offset = 7,
     snap_State = 1, snap_Dedup = [''m'']\<rparr>"

definition pg_saved :: pg_tables where
  "pg_saved = fst (pg_Save example_pg_json map_postgres example_pg (\<lambda>_. None) [pg_snap 0])"

definition pg_loaded :: pg_tables where
  "pg_loaded = fst (pg_Load example_pg_json map_postgres example_pg pg_saved ''a'')"

theorem postgres_load_fences_witness:
  "pg_at example_pg_json map_postgres example_pg
     (fst (pg_Save example_pg_json map_postgres example_pg pg_loaded [pg_snap 0])) ''a'' = Some (pg_snap 1)"
proof -
  have "case snd (pg_Load example_pg_json map_postgres example_pg pg_saved ''a'') of
      Inr s \<Rightarrow> s = pg_snap 1 | _ \<Rightarrow> False"
    by code_simp
  then have s: "pg_Load example_pg_json map_postgres example_pg pg_saved ''a'' = (pg_loaded, Inr (pg_snap 1))"
    by (cases "pg_Load example_pg_json map_postgres example_pg pg_saved ''a''")
      (auto simp: pg_loaded_def split: sum.splits)
  obtain db2 ids errs where
    "pg_Save example_pg_json map_postgres example_pg pg_loaded [pg_snap 0] = (db2, ids, errs)"
    by (cases "pg_Save example_pg_json map_postgres example_pg pg_loaded [pg_snap 0]") auto
  then show ?thesis
    using postgres_load_fences [OF map_postgres_ok example_pg_json_ok s] by (simp add: pg_snap_def)
qed

end
