(* ===== verification/NodePoll.thy ===== *)
theory NodePoll
  imports NodeProps Kafka
begin

text \<open>
  The poll goroutine of \<open>startPoll\<close> (core/node.go) over the Kafka adapter: what it forwards to
  the node's mailbox. Its context is the one \<open>stopPoll\<close> cancels.
\<close>

section \<open>The goroutine\<close>

text \<open>An error, even one that comes together with messages, only repeats the loop.\<close>

definition poll_batch :: "kafka_error + 'v message list \<times> poll_failure list \<Rightarrow> 'v message list" where
  "poll_batch reply = (case reply of
       Inl err \<Rightarrow> []
     | Inr (messages, failures) \<Rightarrow> if failures \<noteq> [] then [] else messages)"

text \<open>
  The inner loop: before each message the goroutine may find its context done and return (True);
  otherwise it waits until the mailbox has room and sends. \<open>halts\<close> are the choices of the select,
  True only when the context is done.
\<close>

fun forward :: "bool \<Rightarrow> bool list \<Rightarrow> 'v message list \<Rightarrow> 'v message list \<Rightarrow> 'v message list \<times> bool" where
  "forward over halts sent [] = (sent, False)"
| "forward over halts sent (m # ms) =
     (if over \<and> (halts = [] \<or> hd halts) then (sent, True)
      else forward over (tl halts) (sent @ [m]) ms)"

text \<open>The outer loop, with a bound on its rounds; the flag tells whether the goroutine returned.\<close>

fun poll_rounds ::
  "kafka_env \<Rightarrow> (nat \<Rightarrow> bool list) \<Rightarrow> nat \<Rightarrow> 'v message list \<Rightarrow> kafka \<Rightarrow>
   'v message list \<times> kafka \<times> bool" where
  "poll_rounds E halts 0 sent k = (sent, k, False)"
| "poll_rounds E halts (Suc r) sent k =
     (let (k, reply) = Poll E k;
          (sent, returned) = forward (ctx_err E (client_calls k)) (halts r) sent (poll_batch reply)
      in if returned then (sent, k, True) else poll_rounds E halts r sent k)"

section \<open>Properties\<close>

text \<open>
  C38: one record that cannot be decoded makes the node lose its whole batch: the adapter returns the
  decoded messages together with the error, and the goroutine forwards none of them, although the
  client's position has passed them.
\<close>

theorem bad_record_drops_batch:
  assumes "\<not> ctx_err E (client_calls k)" and "r \<in> set (fetched (poll_reply E (client_calls k)))"
    and "(ToMMMessage (consumed r) :: mq_error + 'v message) = Inl err"
  shows "poll_rounds E halts 1 (sent :: 'v message list) k = (sent, log_call PollFetches k, False)"
proof -
  let ?f = "poll_reply E (client_calls k)"
  have "DecodeFailure (consumed r) err \<in> set (List.map_filter (\<lambda>r. case (ToMMMessage (consumed r) :: mq_error + 'v message) of
      Inl err \<Rightarrow> Some (DecodeFailure (consumed r) err) | Inr _ \<Rightarrow> None) (fetched ?f))"
    using assms(2,3) by (force simp: List.map_filter_def split: sum.splits)
  then have "snd (decodeFetches ?f :: 'v message list \<times> _) \<noteq> []" by (auto simp: decodeFetches_def decode_fold)
  then have "poll_batch (Inr (decodeFetches ?f)) = ([] :: 'v message list)"
    by (simp add: poll_batch_def case_prod_beta)
  then show ?thesis using assms(1) by (simp add: Poll_def One_nat_def Let_def)
qed

definition mixed_env :: kafka_env where
  "mixed_env = example_env_kafka\<lparr>poll_reply := (\<lambda>_. \<lparr>fetch_errors = [], fetched =
     [\<lparr>kr_Topic = ''topic'', kr_Partition = 3, kr_Offset = 40, kr_Key = bytes_of ''b'', kr_Value = [9],
        kr_Headers = [\<lparr>hdr_Key = sharedMetadataHeader, hdr_Value = bytes_of (marshal_metadata example_meta)\<rparr>], kr_Timestamp = 0\<rparr>,
      \<lparr>kr_Topic = ''topic'', kr_Partition = 3, kr_Offset = 41, kr_Key = [], kr_Value = [],
        kr_Headers = [], kr_Timestamp = 0\<rparr>]\<rparr>)\<rparr>"

theorem bad_record_drops_batch_witness:
  "length (fst (decodeFetches (poll_reply mixed_env []) :: int message list \<times> poll_failure list)) = 1 \<and>
   poll_rounds mixed_env (\<lambda>_. []) 1 ([] :: int message list) example_kafka =
     ([], log_call PollFetches example_kafka, False)"
proof
  show "length (fst (decodeFetches (poll_reply mixed_env []) :: int message list \<times> poll_failure list)) = 1"
    by code_simp
  have "\<exists>err. (ToMMMessage (consumed (fetched (poll_reply mixed_env []) ! 1)) :: _ + int message) = Inl err"
    by (simp add: mixed_env_def ToMMMessage_def consumed_def)
  then show "poll_rounds mixed_env (\<lambda>_. []) 1 ([] :: int message list) example_kafka =
      ([], log_call PollFetches example_kafka, False)"
    using bad_record_drops_batch [of mixed_env example_kafka "fetched (poll_reply mixed_env []) ! 1"]
    by (auto simp: mixed_env_def example_env_kafka_def example_kafka_def)
qed

text \<open>
  C26: a poll goroutine that finds its context cancelled at the head of its loop never returns: \<open>Poll\<close>
  fails at once, the loop repeats, and the check of the context in the inner loop is not reached, in
  any number of rounds. (It returns only when it is cancelled while it forwards messages.)
\<close>

theorem cancelled_poll_never_returns:
  assumes "ctx_err E (client_calls k)"
  shows "poll_rounds E halts r sent k = (sent, k, False)"
  using assms by (induction r) (simp_all add: Poll_def poll_batch_def)

theorem cancelled_poll_never_returns_witness:
  "poll_rounds (example_env_kafka\<lparr>ctx_err := (\<lambda>_. True)\<rparr>) (\<lambda>_. []) 1000 [] example_kafka =
     ([], example_kafka, False)"
  by (rule cancelled_poll_never_returns) simp

end
