(* ===== verification/NodePlay.thy ===== *)
theory NodePlay
  imports NodeRun
begin

text \<open>
  The runs of the node as programs: \<open>play\<close> performs a list of happenings one after the other,
  each with its guard, and reaches exactly the states of \<open>node_run\<close>. With it a run can be
  evaluated, and what holds from a state on can be said of every continuation.
\<close>

section \<open>Happenings\<close>

text \<open>
  \<open>Delivered k\<close>: the report at position \<open>k\<close> of those on their way gets into the mailbox.
\<close>

datatype 'v happening =
    Registers int
  | Polled "'v message"
  | Delivered nat
  | Acts string wall actor_event
  | Signalled
  | Expires wall
  | Turns wall node_event

fun play_one ::
  "(int \<Rightarrow> int \<Rightarrow> string) \<Rightarrow> 'v::default env \<Rightarrow> 'v happening \<Rightarrow> 'v node \<times> 'v message list \<Rightarrow>
   ('v node \<times> 'v message list) option" where
  "play_one L e (Registers s) (n, way) = Some (startShard s n, way)"
| "play_one L e (Polled m) (n, way) =
     (if polling n \<and> length (n_mailbox n) < NodeChannelCapacity \<and>
        (Type m = MessageTypeNetwork \<or> (case Payload m of PRaw _ \<Rightarrow> True | _ \<Rightarrow> False)) \<and>
        0 \<le> Offset m \<and> L (ActorShard (ref_Id (Receiver m))) (Offset m) = ref_Id (Receiver m)
      then Some (n\<lparr>n_mailbox := n_mailbox n @ [m]\<rparr>, way) else None)"
| "play_one L e (Delivered k) (n, way) =
     (if k < length way \<and> length (n_mailbox n) < NodeChannelCapacity
      then Some (n\<lparr>n_mailbox := n_mailbox n @ [way ! k]\<rparr>, take k way @ drop (Suc k) way) else None)"
| "play_one L e (Acts i w ev) (n, way) = (case map_Get (actors n) i of
       None \<Rightarrow> None
     | Some a \<Rightarrow> if actor_ready w (na_actor a) ev
         then let (b, out) = actor_step w ev (na_actor a)
           in Some (set_actor i (a\<lparr>na_actor := b\<rparr>) n, way @ out)
         else None)"
| "play_one L e Signalled (n, way) = Some (n\<lparr>n_stop := True\<rparr>, way)"
| "play_one L e (Expires w) (n, way) =
     (if due w (endTimer n) \<and> \<not> n_end n then Some (n\<lparr>n_end := True\<rparr>, way) else None)"
| "play_one L e (Turns w ev) (n, way) =
     (if node_ready w n ev then (case node_step w e ev n of Inr (n, False) \<Rightarrow> Some (n, way) | _ \<Rightarrow> None)
      else None)"

fun play ::
  "(int \<Rightarrow> int \<Rightarrow> string) \<Rightarrow> 'v::default env \<Rightarrow> 'v happening list \<Rightarrow> 'v node \<times> 'v message list \<Rightarrow>
   ('v node \<times> 'v message list) option" where
  "play L e [] nw = Some nw"
| "play L e (h # hs) nw = (case play_one L e h nw of None \<Rightarrow> None | Some nw \<Rightarrow> play L e hs nw)"

text \<open>The state after a play, or the old one when a guard is not met.\<close>

definition played ::
  "(int \<Rightarrow> int \<Rightarrow> string) \<Rightarrow> 'v::default env \<Rightarrow> 'v happening list \<Rightarrow> 'v node \<times> 'v message list \<Rightarrow>
   'v node \<times> 'v message list" where
  "played L e hs nw = (case play L e hs nw of None \<Rightarrow> nw | Some nw \<Rightarrow> nw)"

section \<open>The same states\<close>

lemma play_one_run:
  assumes "node_run L e n way" and "play_one L e h (n, way) = Some (n', way')"
  shows "node_run L e n' way'"
proof (cases h)
  case (Polled m)
  then show ?thesis using assms by (auto split: if_splits payload.splits intro: node_poll)
next
  case (Delivered k)
  then have k: "k < length way" using assms(2) by (auto split: if_splits)
  show ?thesis
    using assms Delivered node_report [of L e n "take k way" "way ! k" "drop (Suc k) way"] id_take_nth_drop [OF k]
    by (auto split: if_splits)
next
  case (Acts i w ev)
  then show ?thesis using assms by (auto split: option.splits if_splits prod.splits intro: node_actor)
next
  case (Turns w ev)
  then show ?thesis using assms by (auto split: sum.splits prod.splits bool.splits if_splits intro: node_turn)
qed (use assms in \<open>auto split: if_splits intro: node_shard node_signal node_expire\<close>)

lemma play_run:
  "node_run L e n way \<Longrightarrow> play L e hs (n, way) = Some (n', way') \<Longrightarrow> node_run L e n' way'"
proof (induction hs arbitrary: n way)
  case (Cons h hs)
  then obtain n1 way1 where "play_one L e h (n, way) = Some (n1, way1)" "play L e hs (n1, way1) = Some (n', way')"
    by (auto split: option.splits)
  then show ?case using Cons play_one_run by blast
qed simp

lemma played_run:
  "node_run L e (fst nw) (snd nw) \<Longrightarrow> node_run L e (fst (played L e hs nw)) (snd (played L e hs nw))"
  using play_run [of L e "fst nw" "snd nw" hs] by (auto simp: played_def split: option.split)

lemma play_append:
  "play L e (hs @ hs') nw = (case play L e hs nw of None \<Rightarrow> None | Some nw \<Rightarrow> play L e hs' nw)"
  by (induction hs arbitrary: nw) (auto split: option.split)

lemma play_snoc: "play L e hs nw = Some nw1 \<Longrightarrow> play_one L e h nw1 = Some nw2 \<Longrightarrow> play L e (hs @ [h]) nw = Some nw2"
  by (simp add: play_append)

lemma reached_step:
  assumes "\<exists>r w i hs. factory_ok r \<and> play L e hs (start r w i) = Some nw1" and "play_one L e h nw1 = Some nw2"
  shows "\<exists>r w i hs. factory_ok r \<and> play L e hs (start r w i) = Some nw2"
  using assms play_snoc by blast

text \<open>
  The step relation is executable: the states of the running node are those that a list of
  happenings reaches from a node that was just started.
\<close>

theorem runs_are_plays:
  "node_run L e n way \<longleftrightarrow> (\<exists>r w i hs. factory_ok r \<and>
     play L e hs (node_beforeStart w (NewNode\<lparr>n_id := i, n_factory := r\<rparr>), []) = Some (n, way))"
proof
  assume "node_run L e n way"
  then show "\<exists>r w i hs. factory_ok r \<and>
      play L e hs (node_beforeStart w (NewNode\<lparr>n_id := i, n_factory := r\<rparr>), []) = Some (n, way)"
  proof (induction rule: node_run.induct)
    case (node_new r w i)
    then show ?case using play.simps(1) by blast
  next
    case (node_report n pre m post)
    show ?case by (rule reached_step [OF node_report.IH, where h = "Delivered (length pre)"]) (use node_report.hyps in simp)
  next
    case (node_shard n way s)
    show ?case by (rule reached_step [OF node_shard.IH, where h = "Registers s"]) (use node_shard.hyps in simp)
  next
    case (node_poll n way m)
    show ?case by (rule reached_step [OF node_poll.IH, where h = "Polled m"]) (use node_poll.hyps in auto)
  next
    case (node_actor n way i a w ev b out)
    show ?case by (rule reached_step [OF node_actor.IH, where h = "Acts i w ev"]) (use node_actor.hyps in simp)
  next
    case (node_signal n way)
    show ?case by (rule reached_step [OF node_signal.IH, where h = "Signalled"]) (use node_signal.hyps in simp)
  next
    case (node_expire n way w)
    show ?case by (rule reached_step [OF node_expire.IH, where h = "Expires w"]) (use node_expire.hyps in simp)
  next
    case (node_turn n way w ev n')
    show ?case by (rule reached_step [OF node_turn.IH, where h = "Turns w ev"]) (use node_turn.hyps in simp)
  qed
qed (blast intro: play_run node_new)

end
