(* ===== verification/NodeQueue.thy ===== *)
theory NodeQueue
  imports NodePoll NodePlay
begin

text \<open>
  The node on the Kafka adapter: every call that the node records runs on the adapter of
  mq/kafka.go, whose answer is the error the node sees, with any number of polls in between. What
  the pause of a shard in the node (core/node_shard.go) and the pause at the client have to do
  with each other. The node's part is proved for every queue of the locale \<open>pausing_queue\<close>.
\<close>

section \<open>What the node may rely on\<close>

text \<open>A call to the queue on which the resumption of a shard depends, and whether one failed.\<close>

fun resumes_shard :: "'v call \<Rightarrow> int \<Rightarrow> bool" where
  "resumes_shard (CallSeek t off) s = (t = s)"
| "resumes_shard (CallResume t) s = (t = s)"
| "resumes_shard (CallCommit t off) s = (t = s)"
| "resumes_shard _ s = False"

definition call_failed :: "'v env \<Rightarrow> 'v call list \<Rightarrow> int \<Rightarrow> bool" where
  "call_failed e log s \<longleftrightarrow>
     (\<exists>i < length log. resumes_shard (log ! i) s \<and> fails e (take i log) (log ! i))"

lemma call_failed_snoc [simp]:
  "call_failed e (log @ [c]) s \<longleftrightarrow> call_failed e log s \<or> resumes_shard c s \<and> fails e log c"
  by (simp add: call_failed_def Ex_less_Suc nth_append disj_ac cong: conj_cong)

lemma call_failed_append: "call_failed e log s \<Longrightarrow> call_failed e (log @ cs) s"
  by (induction cs rule: rev_induct) (simp_all flip: append_assoc)

text \<open>The shard is paused in the node, and something will end the pause or a call went wrong.\<close>

definition shard_waits :: "'v env \<Rightarrow> 'v node \<Rightarrow> int \<Rightarrow> bool" where
  "shard_waits e n s \<longleftrightarrow> (case map_Get (shards n) s of
       None \<Rightarrow> False
     | Some sh \<Rightarrow> IsEnabled (shard_pause sh) \<and> (in_flight (window sh) \<noteq> {} \<or> call_failed e (calls n) s))"

lemma shard_waits_iff: "shard_waits e n s \<longleftrightarrow> (\<exists>sh. map_Get (shards n) s = Some sh \<and>
    IsEnabled (shard_pause sh) \<and> (in_flight (window sh) \<noteq> {} \<or> call_failed e (calls n) s))"
  by (simp add: shard_waits_def split: option.split)

lemma complete_keeps_limit [simp]: "windowLimit (fst (infl_Complete f list)) = windowLimit f"
proof -
  have "windowLimit (fst (complete_items f list)) = windowLimit f"
  proof (induction list rule: rev_induct)
    case (snoc it list)
    then show ?case by (simp add: complete_items_snoc infl_remove_fields Let_def case_prod_beta)
  qed (simp add: complete_items_def)
  then show ?thesis by (simp add: infl_Complete_def infl_resetMinOffset_def Let_def case_prod_beta)
qed

definition shards_sane :: "'v node \<Rightarrow> bool" where
  "shards_sane n \<longleftrightarrow> (\<forall>s sh. map_Get (shards n) s = Some sh \<longrightarrow>
     s \<in> set (registerShards n) \<and> 0 < windowLimit (window sh))"

text \<open>Between two states no shard gets held without the node waiting for it.\<close>

definition tame :: "'v env \<Rightarrow> ('v call list \<Rightarrow> int \<Rightarrow> bool) \<Rightarrow> 'v node \<Rightarrow> 'v node \<Rightarrow> bool" where
  "tame e stalls n n' \<longleftrightarrow> n_stopping n' = n_stopping n \<and> (shards_sane n \<longrightarrow> shards_sane n' \<and>
     (\<forall>s. (stalls (calls n) s \<longrightarrow> shard_waits e n s) \<longrightarrow> stalls (calls n') s \<longrightarrow> shard_waits e n' s))"

locale pausing_queue =
  fixes e :: "'v::default env" and stalls :: "'v call list \<Rightarrow> int \<Rightarrow> bool"
  assumes stalls_before: "stalls (log @ [c]) s \<Longrightarrow> c \<noteq> CallPause s \<Longrightarrow> stalls log s"
    and stalls_after: "stalls log s \<Longrightarrow> c \<noteq> CallResume s \<Longrightarrow> stalls (log @ [c]) s"
    and resume_releases: "\<not> fails e log (CallResume s) \<Longrightarrow> \<not> stalls (log @ [CallResume s]) s"
begin

lemma tame_refl [simp]: "tame e stalls n n"
  by (simp add: tame_def)

lemma tame_trans: "tame e stalls n n' \<Longrightarrow> tame e stalls n' n'' \<Longrightarrow> tame e stalls n n''"
  by (simp add: tame_def)

lemma tame_fold: "(\<And>x n. tame e stalls n (f x n)) \<Longrightarrow> tame e stalls n (fold f xs n)"
  by (induction xs arbitrary: n) (auto intro: tame_trans)

lemma tame_same:
  "shards n' = shards n \<Longrightarrow> calls n' = calls n \<Longrightarrow> n_stopping n' = n_stopping n \<Longrightarrow>
     registerShards n' = registerShards n \<Longrightarrow> tame e stalls n n'"
  by (simp add: tame_def shard_waits_iff shards_sane_def)

lemma tame_set_actor [simp]: "tame e stalls n (set_actor i a n)"
  by (rule tame_same) simp_all

lemma tame_call: "\<forall>s. c \<noteq> CallPause s \<Longrightarrow> tame e stalls n (n\<lparr>calls := calls n @ [c]\<rparr>)"
  using stalls_before [of "calls n" c] by (auto simp: tame_def shard_waits_iff shards_sane_def)

lemma tame_set_shard:
  assumes "map_Get (shards n) s = Some sh" and "shard_pause sh' = shard_pause sh"
    and "windowLimit (window sh') = windowLimit (window sh)"
    and "in_flight (window sh) \<noteq> {} \<Longrightarrow> in_flight (window sh') \<noteq> {}"
  shows "tame e stalls n (set_shard s sh' n)"
  using assms by (auto simp: tame_def shard_waits_iff shards_sane_def)

lemma stalls_append:
  "stalls (log @ cs) s \<Longrightarrow> \<forall>t. CallPause t \<notin> set cs \<Longrightarrow> stalls log s"
proof (induction cs rule: rev_induct)
  case (snoc c cs)
  then have "stalls (log @ cs) s" using stalls_before [of "log @ cs" c s] by auto
  then show ?case using snoc by simp
qed simp

text \<open>A step that writes one shard and makes calls that pause nothing.\<close>

lemma tame_at:
  assumes "map_Get (shards n) s = Some sh"
    and shards: "\<And>t. map_Get (shards r) t = (if t = s then Some sh' else map_Get (shards n) t)"
    and "windowLimit (window sh') = windowLimit (window sh)"
    and same: "n_stopping r = n_stopping n" "registerShards r = registerShards n"
    and calls: "calls r = calls n @ cs" "\<forall>t. CallPause t \<notin> set cs"
    and at: "stalls (calls r) s \<Longrightarrow> IsEnabled (shard_pause sh) \<Longrightarrow>
      IsEnabled (shard_pause sh') \<and> (in_flight (window sh') \<noteq> {} \<or> call_failed e (calls r) s)"
  shows "tame e stalls n r"
proof -
  have "shards_sane r" if "shards_sane n" using that assms(1-5) by (auto simp: shards_sane_def)
  moreover have "shard_waits e r t"
    if "stalls (calls n) t \<longrightarrow> shard_waits e n t" "stalls (calls r) t" for t
  proof -
    have "shard_waits e n t" using that stalls_append calls by metis
    then show ?thesis
      using at that(2) assms(1) shards calls(1) call_failed_append by (cases "t = s") (auto simp: shard_waits_iff)
  qed
  ultimately show ?thesis using same by (simp add: tame_def)
qed

lemma tame_complete_and_resume: "tame e stalls n (complete_and_resume e s list n)"
proof (cases "map_Get (shards n) s")
  case None
  then show ?thesis by (simp add: complete_and_resume_def completeOffset_def resumeOffset_def)
next
  case (Some sh)
  obtain f off adv where f: "infl_Complete (window sh) list = (f, off, adv)"
    by (cases "infl_Complete (window sh) list")
  then have lim: "windowLimit f = windowLimit (window sh)"
    using complete_keeps_limit [of "window sh" list] by simp
  define cs :: "'v call list" where "cs = (if adv then [CallCommit s off] else [])"
  let ?m = "set_shard s (sh\<lparr>window := f\<rparr>) n"
  define n1 where "n1 = (if adv then ?m\<lparr>calls := calls n @ [CallCommit s off]\<rparr> else ?m)"
  let ?seek = "CallSeek s (bvalue (shard_pause sh))"
  let ?n2 = "n1\<lparr>calls := calls n1 @ [?seek]\<rparr>"
  let ?n3 = "n1\<lparr>calls := calls n1 @ [?seek, CallResume s]\<rparr>"
  have n1: "\<And>t. map_Get (shards n1) t = (if t = s then Some (sh\<lparr>window := f\<rparr>) else map_Get (shards n) t)"
    "n_stopping n1 = n_stopping n" "registerShards n1 = registerShards n" "calls n1 = calls n @ cs"
    by (simp_all add: n1_def cs_def)
  have eq: "complete_and_resume e s list n =
      (if adv \<and> fails e (calls n) (CallCommit s off) then n1 else fst (resumeOffset e s n1))"
    using Some f by (auto simp: complete_and_resume_def completeOffset_def mq_call_def n1_def)
  have resume: "fst (resumeOffset e s n1) = (if \<not> IsEnabled (shard_pause sh) then n1
      else if fails e (calls n1) ?seek then ?n2
      else if fails e (calls n1 @ [?seek]) (CallResume s) then ?n3
      else set_shard s (sh\<lparr>window := f, shard_pause := Disable (shard_pause sh)\<rparr>) ?n3)"
    by (simp add: resumeOffset_def n1 mq_call_def bv_Get_def IsEnabled_def Let_def)
  have cs: "CallPause t \<notin> set cs" for t by (simp add: cs_def)
  have 1: "tame e stalls n n1" if "adv" "fails e (calls n) (CallCommit s off)"
    by (rule tame_at [OF Some n1(1) _ n1(2-4)]) (use lim that cs n1(4) in \<open>simp_all add: cs_def\<close>)
  have 2: "tame e stalls n n1" if "\<not> IsEnabled (shard_pause sh)"
    by (rule tame_at [OF Some n1(1) _ n1(2-4)]) (use lim that cs in simp_all)
  have 3: "tame e stalls n ?n2" if "fails e (calls n1) ?seek"
  proof -
    have "call_failed e (calls n1 @ [?seek]) s" using that by simp
    then show ?thesis
      by (intro tame_at [OF Some, where cs = "cs @ [?seek]" and sh' = "sh\<lparr>window := f\<rparr>"])
        (use lim cs n1 in simp_all)
  qed
  have 4: "tame e stalls n ?n3" if "fails e (calls n1 @ [?seek]) (CallResume s)"
  proof -
    have "call_failed e ((calls n1 @ [?seek]) @ [CallResume s]) s" using that by (simp del: append_assoc)
    then show ?thesis
      by (intro tame_at [OF Some, where cs = "cs @ [?seek, CallResume s]" and sh' = "sh\<lparr>window := f\<rparr>"])
        (use lim cs n1 in simp_all)
  qed
  have 5: "tame e stalls n (set_shard s (sh\<lparr>window := f, shard_pause := Disable (shard_pause sh)\<rparr>) ?n3)"
    if "\<not> fails e (calls n1 @ [?seek]) (CallResume s)"
  proof -
    have "\<not> stalls ((calls n1 @ [?seek]) @ [CallResume s]) s" using that resume_releases by blast
    then show ?thesis
      by (intro tame_at [OF Some, where cs = "cs @ [?seek, CallResume s]"
            and sh' = "sh\<lparr>window := f, shard_pause := Disable (shard_pause sh)\<rparr>"])
        (use lim cs n1 in simp_all)
  qed
  show ?thesis unfolding eq resume using 1 2 3 4 5 by simp
qed

lemma tame_snapshot: "tame e stalls n (snapshot e i n)"
proof (cases "map_Get (actors n) i")
  case (Some a)
  let ?s = "bvalue (na_snapshot a)"
  let ?n = "n\<lparr>calls := calls n @ [CallSave [?s]]\<rparr>"
  have "tame e stalls n ?n" by (rule tame_call) simp
  moreover from this have "tame e stalls n (complete_and_resume e (ActorShard (a_id (na_actor a)))
      [completed_by ?s] (set_actor i (a\<lparr>na_snapshot := Disable (na_snapshot a)\<rparr>) ?n))"
    by (rule tame_trans) (rule tame_trans [OF tame_set_actor tame_complete_and_resume])
  ultimately show ?thesis using Some
    by (simp add: snapshot_def bv_Get_def saveSnapshot_def Let_def split: prod.split)
qed (simp add: snapshot_def)

lemma tame_batch_group: "tame e stalls (fst p) (fst (batch_group i p))"
  by (cases p) (simp add: batch_group_def bv_Get_def Let_def split: option.split)

lemma tame_batch_groups: "tame e stalls (fst p) (fst (fold batch_group is p))"
proof (induction "is" arbitrary: p)
  case (Cons i "is")
  show ?case using tame_trans [OF tame_batch_group [of p i] Cons [of "batch_group i p"]] by simp
qed simp

lemma tame_snapshotBatch: "tame e stalls n (snapshotBatch e n)"
proof -
  let ?ss = "batch_snapshots e n"
  let ?n = "n\<lparr>calls := calls n @ [CallSave ?ss]\<rparr>"
  have one: "tame e stalls n ?n" by (rule tame_call) simp
  have "tame e stalls n (fst (fold batch_group ok (?n, NewMap)))" for ok
    using tame_trans [OF one] tame_batch_groups [of "(?n, NewMap)" ok] by simp
  then have "tame e stalls n (fold (\<lambda>s. complete_and_resume e s (l s)) ks (fst (fold batch_group ok (?n, NewMap))))"
    for ok l ks
    by (rule tame_trans) (rule tame_fold, rule tame_complete_and_resume)
  then show ?thesis
    using one by (simp add: snapshotBatch_def saveSnapshot_def Let_def case_prod_beta)
qed

lemma tame_stopActor: "tame e stalls n (stopActor i n)"
  by (simp add: stopActor_def split: option.split)

lemma tame_stopShard: "tame e stalls n (stopShard e s n)"
  by (simp add: stopShard_def tame_fold tame_stopActor split: option.split)

lemma tame_receive:
  "tame e stalls n (receiveSnapshot i snap n)" "tame e stalls n (receiveAlive i t n)"
  "tame e stalls n (receiveReady e i n)"
proof -
  show "tame e stalls n (receiveReady e i n)"
  proof (cases "map_Get (actors n) i")
    case (Some a)
    show ?thesis
      using Some tame_trans [OF tame_set_actor tame_call]
      by (simp add: receiveReady_def bv_Get_def Let_def)
  qed (simp add: receiveReady_def)
qed (simp_all add: receiveSnapshot_def receiveAlive_def split: option.split)

lemma tame_recycleActor: "recycleActor e i n = Inr n' \<Longrightarrow> tame e stalls n n'"
  using tame_call [of _ n] tame_trans [OF tame_snapshotBatch tame_stopActor] tame_stopActor
  by (auto simp: recycleActor_def bv_Get_def Let_def and_then_def split: option.splits sum.splits prod.splits if_splits)

lemma tame_drop_actor: "tame e stalls n (drop_actor i n)"
proof (cases "map_Get (shards n) (ActorShard i)")
  case None
  then show ?thesis by (auto simp: drop_actor_def Let_def intro: tame_same)
next
  case (Some sh)
  let ?n = "n\<lparr>disableActors := set_Del i (disableActors n), actors := map_Del i (actors n)\<rparr>"
  let ?m = "set_shard (ActorShard i) (sh\<lparr>shard_actors := set_Del i (shard_actors sh)\<rparr>) ?n"
  have m: "tame e stalls n ?m"
    by (rule tame_trans [of _ ?n]) (auto intro: tame_same tame_set_shard Some simp: Some)
  show ?thesis
  proof (cases "shards_sane n")
    case True
    then have "ActorShard i \<in> set (registerShards n)" using Some by (simp add: shards_sane_def)
    then show ?thesis using m Some by (simp add: drop_actor_def Let_def)
  next
    case False
    then show ?thesis using Some by (simp add: tame_def drop_actor_def Let_def)
  qed
qed

lemma tame_startActor: "startActor w ref n = Inr (n', err) \<Longrightarrow> tame e stalls n n'"
proof -
  assume eq: "startActor w ref n = Inr (n', err)"
  have "tame e stalls n (set_shard s (sh\<lparr>shard_actors := x\<rparr>) (n\<lparr>actors := as\<rparr>))"
    if "map_Get (shards n) s = Some sh" for s sh x as
    by (rule tame_trans [of _ "n\<lparr>actors := as\<rparr>"]) (auto intro: tame_same tame_set_shard simp: that)
  then show ?thesis
    using eq by (auto simp: startActor_def Let_def split: option.splits prod.splits if_splits)
qed

lemma tame_deliver: "deliver s m n = Inr n' \<Longrightarrow> tame e stalls n n'"
proof -
  assume eq: "deliver s m n = Inr n'"
  then obtain sh where sh: "map_Get (shards n) s = Some sh"
    by (auto simp: deliver_def Let_def split: option.splits)
  let ?n = "set_shard s (sh\<lparr>window := infl_Add (window sh) (Offset m) (ref_Id (Receiver m))\<rparr>) n"
  have "tame e stalls n ?n" using sh by (intro tame_set_shard) (simp_all add: infl_Add_fields)
  then have "tame e stalls n ?n" "\<And>i a. tame e stalls n (set_actor i a ?n)"
    by (simp, blast intro: tame_trans tame_set_actor)
  then show ?thesis
    using eq sh by (auto simp: deliver_def Let_def split: option.splits if_splits)
qed

text \<open>Only a full window pauses a shard, and a full window is not empty.\<close>

lemma full_in_flight: "infl_inv f \<Longrightarrow> 0 < windowLimit f \<Longrightarrow> infl_Full f off \<Longrightarrow> in_flight f \<noteq> {}"
  by (auto simp: infl_inv_def infl_Full_def split: if_splits)

lemma tame_pause:
  assumes "node_inv L n" and sh: "map_Get (shards n) s = Some sh" and "infl_Full (window sh) off"
  shows "tame e stalls n ((set_shard s (sh\<lparr>shard_pause := Enable off (shard_pause sh)\<rparr>) n)
    \<lparr>calls := calls n @ [CallPause s]\<rparr>)" (is "tame e stalls n ?r")
proof -
  have "shard_waits e ?r t" if sane: "shards_sane n" and before: "stalls (calls n) t \<longrightarrow> shard_waits e n t"
    and after: "stalls (calls ?r) t" for t
  proof (cases "t = s")
    case True
    have "infl_inv (window sh)" using inv_window [OF assms(1) sh] by (simp add: window_ok_def)
    then have "in_flight (window sh) \<noteq> {}" using full_in_flight sane sh assms(3) by (auto simp: shards_sane_def)
    then show ?thesis using True by (simp add: shard_waits_iff bool_value_defs)
  next
    case False
    then have "stalls (calls n) t" using after stalls_before [of "calls n" "CallPause s" t] by simp
    then show ?thesis using before False by (auto simp: shard_waits_iff)
  qed
  then show ?thesis using sh by (auto simp: tame_def shards_sane_def)
qed

lemma tame_Dispatcher:
  assumes "node_inv L n" and "Dispatcher w e m n = Inr n'"
  shows "tame e stalls n n'"
proof -
  have dis: "disableActors n = []" using assms(1) by (simp add: node_inv_def)
  have start: "tame e stalls n n2"
    if "startActor w ref n = Inr (n1, err)" "deliver s m n1 = Inr n2" for ref n1 err s n2
    using that by (blast intro: tame_trans tame_startActor tame_deliver)
  show ?thesis
    using assms dis tame_pause [OF assms(1)] start
    by (auto simp: Dispatcher_def Let_def and_then_def intro: tame_deliver tame_startActor
        split: option.splits if_splits sum.splits)
qed

lemma tame_receiveStopped:
  assumes "receiveStopped e i n = Inr n'"
  shows "tame e stalls n n'"
proof -
  let ?n = "drop_actor i (snapshot e i n)"
  have d: "tame e stalls n ?n" by (rule tame_trans [OF tame_snapshot tame_drop_actor])
  have "tame e stalls n (?n\<lparr>n_end := b\<rparr>)" for b
    by (rule tame_trans [OF d]) (rule tame_same; simp)
  moreover have "tame e stalls n (?n\<lparr>calls := calls ?n @ [CallSeek s off]\<rparr>)" for s off
    by (rule tame_trans [OF d]) (rule tame_call, simp)
  ultimately show ?thesis
    using assms d
    by (auto simp: receiveStopped_def handleEnding_def Let_def bv_Get_def split: option.splits if_splits)
qed

lemma tame_node_handle:
  assumes "node_inv L n" and "node_handle w e m n = Inr n'"
  shows "tame e stalls n n'"
  using assms tame_Dispatcher [OF assms(1)]
  by (auto simp: node_handle_def Let_def receiveIdle_def split: if_splits payload.splits
      intro: tame_receive tame_recycleActor tame_receiveStopped)

text \<open>A step of the goroutine: either the node is stopping afterwards, or it was tame.\<close>

lemma tame_node_step:
  assumes "node_inv L n" and "node_step w e ev n = Inr (n', fin)"
  shows "n_stopping n' \<or> tame e stalls n n'"
proof (cases ev)
  case NodeMailbox
  let ?n = "n\<lparr>n_mailbox := tl (n_mailbox n)\<rparr>"
  have "node_handle w e (hd (n_mailbox n)) ?n = Inr n'"
    using assms(2) NodeMailbox by (simp add: and_then_def split: sum.splits)
  then have "tame e stalls ?n n'" using assms(1) by (intro tame_node_handle) simp_all
  then show ?thesis by (simp add: tame_def shard_waits_iff shards_sane_def)
next
  case (NodeSnapshotTimer r)
  let ?n = "n\<lparr>snapshotTimer := None\<rparr>"
  have "tame e stalls n ?n" by (rule tame_same) simp_all
  then have "tame e stalls n (snapshotBatch e ?n)" by (rule tame_trans [OF _ tame_snapshotBatch])
  then have "tame e stalls n (restartTimer w r (snapshotBatch e ?n))"
    by (rule tame_trans) (simp add: restartTimer_def tame_same)
  then show ?thesis using assms(2) NodeSnapshotTimer by simp
next
  case NodeEnd
  let ?n = "n\<lparr>n_end := False, endTimer := None\<rparr>"
  have "tame e stalls n ?n" by (rule tame_same) simp_all
  then have "tame e stalls n (snapshotBatch e ?n)" by (rule tame_trans [OF _ tame_snapshotBatch])
  then have "tame e stalls n (node_finish (snapshotBatch e ?n))"
    by (rule tame_trans) (simp add: node_finish_def tame_same)
  then show ?thesis using assms(2) NodeEnd by (simp add: node_afterStop_def)
next
  case NodeStop
  show ?thesis
  proof (cases "n_stopping n")
    case True
    then show ?thesis using assms(2) NodeStop by (auto simp: node_beforeStop_def)
  next
    case False
    have "n_stopping (fold (stopShard e) ks m) = n_stopping m" for ks m
      using tame_fold [of "stopShard e" m ks] tame_stopShard by (simp add: tame_def)
    then have "n_stopping n'"
      using assms(2) NodeStop False
      by (auto simp: node_beforeStop_def Let_def handleEnding_def and_then_def stopPoll_def split: if_splits sum.splits)
    then show ?thesis by simp
  qed
qed

lemma tame_startShard: "tame e stalls n (startShard s n)"
  by (auto simp: startShard_def tame_def shards_sane_def shard_waits_iff NewNodeShard_def NewInflight_def
      InflightWindowLimit_def Let_def)

text \<open>The invariant over all states of the running node.\<close>

lemma run_waits:
  assumes "node_run L e n way"
  shows "\<not> n_stopping n \<longrightarrow> shards_sane n \<and> (\<not> stalls [] s \<longrightarrow> stalls (calls n) s \<longrightarrow> shard_waits e n s)"
  using assms
proof (induction rule: node_run.induct)
  case (node_new r w i)
  then show ?case by (simp add: node_beforeStart_def startPoll_def NewNode_def shards_sane_def)
next
  case (node_turn n way w ev n')
  have "node_inv L n" using node_run_ok [OF node_turn(1)] by (simp add: run_ok_def)
  then show ?case
    using tame_node_step [of L n w ev n' False] node_turn(3,4) by (auto simp: tame_def)
next
  case (node_shard n way s)
  then show ?case using tame_startShard [of n s] by (auto simp: tame_def)
next
  case (node_actor n way i a w ev b out)
  then show ?case using tame_set_actor [of n i "a\<lparr>na_actor := b\<rparr>"] by (auto simp: tame_def)
qed (simp_all add: shards_sane_def shard_waits_iff)

end

section \<open>The Kafka adapter behind the node\<close>

text \<open>What a call of the node is on the adapter; the store is not its business.\<close>

fun queue_call ::
  "'v marshaller \<Rightarrow> kafka_env \<Rightarrow> 'v call \<Rightarrow> kafka \<Rightarrow> kafka \<times> kafka_error option" where
  "queue_call J E (CallSeek s off) k = SeekMessage E s off k"
| "queue_call J E (CallPause s) k = PausePartition E s k"
| "queue_call J E (CallResume s) k = ResumePartition E s k"
| "queue_call J E (CallCommit s off) k = CommitOffset E [(s, off)] k"
| "queue_call J E (CallDLQ m reason) k = DLQ J E m reason k"
| "queue_call J E CallClose k = (Close k, None)"
| "queue_call J E (CallSave ss) k = (k, None)"

text \<open>
  The adapter after the calls of the node, newest first. The poll goroutine polls in between:
  \<open>p log\<close> times after the calls \<open>log\<close>.
\<close>

fun polled :: "kafka_env \<Rightarrow> nat \<Rightarrow> kafka \<Rightarrow> kafka" where
  "polled E 0 k = k"
| "polled E (Suc r) k = polled E r (fst (Poll E k :: kafka \<times> (kafka_error + unit message list \<times> poll_failure list)))"

fun client_rev ::
  "'v marshaller \<Rightarrow> kafka_env \<Rightarrow> ('v call list \<Rightarrow> nat) \<Rightarrow> kafka \<Rightarrow> 'v call list \<Rightarrow> kafka" where
  "client_rev J E p k [] = polled E (p []) k"
| "client_rev J E p k (c # cs) = polled E (p (rev (c # cs))) (fst (queue_call J E c (client_rev J E p k cs)))"

definition client ::
  "'v marshaller \<Rightarrow> kafka_env \<Rightarrow> ('v call list \<Rightarrow> nat) \<Rightarrow> kafka \<Rightarrow> 'v call list \<Rightarrow> kafka" where
  "client J E p k log = client_rev J E p k (rev log)"

text \<open>The environment of a node whose queue is the adapter.\<close>

definition on_kafka ::
  "'v marshaller \<Rightarrow> kafka_env \<Rightarrow> ('v call list \<Rightarrow> nat) \<Rightarrow> kafka \<Rightarrow> 'v env \<Rightarrow> 'v env" where
  "on_kafka J E p k e = e\<lparr>fails := (\<lambda>log c. snd (queue_call J E c (client J E p k log)) \<noteq> None)\<rparr>"

lemma client_snoc: "client J E p k (log @ [c]) =
    polled E (p (log @ [c])) (fst (queue_call J E c (client J E p k log)))"
  by (simp add: client_def)

lemma polled_effect [simp]:
  "is_paused (polled E r k) s = is_paused k s" "consumes_from (polled E r k) s = consumes_from k s"
  "topic_of (polled E r k) = topic_of k"
  by (induction r arbitrary: k) (simp_all add: Poll_def is_paused_def consumes_from_def)

lemma live_call:
  "snd (SeekMessage E s off k) = None \<Longrightarrow>
     0 \<le> s \<and> 0 \<le> off \<and> SeekMessage E s off k = SeekMessage (live E) s off k"
  "snd (PausePartition E s k) = None \<Longrightarrow> 0 \<le> s \<and> PausePartition E s k = PausePartition (live E) s k"
  "snd (ResumePartition E s k) = None \<Longrightarrow> 0 \<le> s \<and> ResumePartition E s k = ResumePartition (live E) s k"
  by (auto simp: SeekMessage_def PausePartition_def ResumePartition_def validateShards_def live_def
      split: if_splits option.splits)

lemma failed_call_changes_nothing:
  "snd (SeekMessage E s off k) \<noteq> None \<Longrightarrow> fst (SeekMessage E s off k) = k"
  "snd (PausePartition E s k) \<noteq> None \<Longrightarrow> fst (PausePartition E s k) = k"
  "snd (ResumePartition E s k) \<noteq> None \<Longrightarrow> fst (ResumePartition E s k) = k"
  by (auto simp: SeekMessage_def PausePartition_def ResumePartition_def split: if_splits option.splits)

text \<open>Which partitions are paused after a call, by the contract of \<open>Kafka\<close>.\<close>

lemma queue_call_paused:
  "is_paused (fst (queue_call J E c k)) s = (case c of
       CallPause t \<Rightarrow> t = s \<and> snd (queue_call J E c k) = None \<or> is_paused k s
     | CallResume t \<Rightarrow> \<not> (t = s \<and> snd (queue_call J E c k) = None) \<and> is_paused k s
     | _ \<Rightarrow> is_paused k s)"
proof (cases c)
  case (CallSeek t off)
  then show ?thesis
    using live_call(1) [of E t off k] failed_call_changes_nothing(1) [of E t off k] kq.seek_blocked [of t off E k s]
    by (cases "snd (SeekMessage E t off k) = None") auto
next
  case (CallPause t)
  then show ?thesis
    using live_call(2) [of E t k] failed_call_changes_nothing(2) [of E t k] kq.pause_blocked [of t E k s]
    by (cases "snd (PausePartition E t k) = None") auto
next
  case (CallResume t)
  then show ?thesis
    using live_call(3) [of E t k] failed_call_changes_nothing(3) [of E t k] kq.resume_blocked [of t E k s]
    by (cases "snd (ResumePartition E t k) = None") auto
qed (auto simp: is_paused_def CommitOffset_def DLQ_def produce_def Close_def Let_def
      split: sum.splits prod.splits list.splits option.splits)

interpretation nq: pausing_queue "on_kafka J E p k e" "\<lambda>log s. is_paused (client J E p k log) s"
  for J :: "'v::default marshaller" and E p k e
proof unfold_locales
  fix log s and c :: "'v call"
  show "is_paused (client J E p k log) s" if "is_paused (client J E p k (log @ [c])) s" "c \<noteq> CallPause s"
    using that by (auto simp: client_snoc queue_call_paused split: call.splits)
  show "is_paused (client J E p k (log @ [c])) s" if "is_paused (client J E p k log) s" "c \<noteq> CallResume s"
    using that by (auto simp: client_snoc queue_call_paused split: call.splits)
  show "\<not> is_paused (client J E p k (log @ [CallResume s])) s" if "\<not> fails (on_kafka J E p k e) log (CallResume s)"
    using that queue_call_paused [of J E "CallResume s" "client J E p k log" s]
    by (simp add: client_snoc on_kafka_def)
qed

section \<open>A shard that the client holds\<close>

text \<open>
  C5: while the node is not stopping, a partition that is paused at the Kafka client is paused in the
  node too, and its window holds an offset in flight whose completion will resume it, unless a seek,
  resume or commit for the shard failed before. The calls run on the model of the adapter, with any
  polls in between and any answers of the client.
\<close>

theorem paused_shard_has_work:
  assumes "node_run L (on_kafka J E p k e) n way" and "\<not> n_stopping n" and "\<not> is_paused k s"
    and "is_paused (client J E p k (calls n)) s"
  shows "\<exists>sh. map_Get (shards n) s = Some sh \<and> IsEnabled (shard_pause sh) \<and>
    (in_flight (window sh) \<noteq> {} \<or> call_failed (on_kafka J E p k e) (calls n) s)"
  using nq.run_waits [OF assms(1), of s] assms(2-4) by (simp add: client_def shard_waits_iff)

definition example_queue :: "int env" where
  "example_queue = on_kafka example_json example_env_kafka (\<lambda>_. 1) example_kafka example_env"

definition full_node :: "int node \<times> int message list" where
  "full_node = played (\<lambda>_ _. ''a'') example_queue
     [Polled (to_a ''m'' 7), Turns example_wall NodeMailbox, Polled (to_a ''z'' 5000), Turns example_wall NodeMailbox]
     (example_idle, [])"

lemma example_idle_queue: "node_run (\<lambda>_ _. ''a'') example_queue example_idle []"
  unfolding example_idle_def
  by (intro node_shard node_new) (use factory_ok_Warp [of "[(''t'', counting)]"] in simp)

lemma full_node_run: "node_run (\<lambda>_ _. ''a'') example_queue (fst full_node) (snd full_node)"
  unfolding full_node_def by (rule played_run) (simp add: example_idle_queue)

theorem paused_shard_has_work_witness:
  "\<exists>sh. map_Get (shards (fst full_node)) (ActorShard ''a'') = Some sh \<and> IsEnabled (shard_pause sh) \<and>
     in_flight (window sh) \<noteq> {}"
proof -
  have "is_paused (client example_json example_env_kafka (\<lambda>_. 1) example_kafka (calls (fst full_node))) (ActorShard ''a'')"
    "\<not> is_paused example_kafka (ActorShard ''a'')" "\<not> n_stopping (fst full_node)"
    "\<not> call_failed example_queue (calls (fst full_node)) (ActorShard ''a'')"
    by code_simp+
  then show ?thesis
    using paused_shard_has_work [OF full_node_run [unfolded example_queue_def]] unfolding example_queue_def
    by blast
qed

section \<open>Resuming\<close>

lemma client_call:
  "is_paused (client J E p k (log @ [c])) t = is_paused (fst (queue_call J E c (client J E p k log))) t"
  "consumes_from (client J E p k (log @ [c])) t = consumes_from (fst (queue_call J E c (client J E p k log))) t"
  by (simp_all add: client_snoc)

text \<open>
  C20: when the node resumes a shard without an error, the Kafka client consumes its partition again,
  and from exactly the offset at which the window was found full; every other partition keeps its
  position and its pause, and the node's own pause is over.
\<close>

theorem resume_continues_at_pause:
  assumes "map_Get (shards n) s = Some sh" and "bv_Get (shard_pause sh) = (off, True)"
    and "resumeOffset (on_kafka J E p k e) s n = (n', False)"
  shows "consumes_from (client J E p k (calls n')) t =
      (if t = s then Some off else consumes_from (client J E p k (calls n)) t) \<and>
    is_paused (client J E p k (calls n')) t = (t \<noteq> s \<and> is_paused (client J E p k (calls n)) t) \<and>
    map_Get (shards n') s = Some (sh\<lparr>shard_pause := Disable (shard_pause sh)\<rparr>)"
proof -
  let ?e = "on_kafka J E p k e" and ?k = "\<lambda>log. client J E p k log"
  let ?log = "calls n @ [CallSeek s off]"
  have ok: "\<not> fails ?e (calls n) (CallSeek s off)" "\<not> fails ?e ?log (CallResume s)"
    and n': "calls n' = ?log @ [CallResume s]" "map_Get (shards n') s = Some (sh\<lparr>shard_pause := Disable (shard_pause sh)\<rparr>)"
    using assms by (auto simp: resumeOffset_def mq_call_def Let_def split: if_splits)
  have seek: "0 \<le> s" "0 \<le> off" "SeekMessage E s off (?k (calls n)) = SeekMessage (live E) s off (?k (calls n))"
    and resume: "ResumePartition E s (?k ?log) = ResumePartition (live E) s (?k ?log)"
    using live_call(1) [of E s off "?k (calls n)"] live_call(3) [of E s "?k ?log"] ok by (simp_all add: on_kafka_def)
  have "consumes_from (?k ?log) t = (if t = s then Some off else consumes_from (?k (calls n)) t)"
    "is_paused (?k ?log) t = is_paused (?k (calls n)) t"
    using kq.seek_pos [OF seek(1,2)] kq.seek_blocked [OF seek(1,2)] by (simp_all add: client_call seek(3))
  moreover have "consumes_from (?k (?log @ [CallResume s])) t = consumes_from (?k ?log) t"
    "is_paused (?k (?log @ [CallResume s])) t = (t \<noteq> s \<and> is_paused (?k ?log) t)"
    using kq.resume_pos [OF seek(1)] kq.resume_blocked [OF seek(1)] by (simp_all only: client_call queue_call.simps resume)
  ultimately show ?thesis using n' by simp
qed

definition resumed_node :: "int node" where
  "resumed_node = fst (resumeOffset example_queue (ActorShard ''a'') (fst full_node))"

theorem resume_continues_at_pause_witness:
  "consumes_from (client example_json example_env_kafka (\<lambda>_. 1) example_kafka (calls resumed_node)) (ActorShard ''a'') = Some 5000"
proof -
  have f: "case map_Get (shards (fst full_node)) (ActorShard ''a'') of None \<Rightarrow> False
     | Some sh \<Rightarrow> bv_Get (shard_pause sh) = (5000, True)"
    "\<not> snd (resumeOffset example_queue (ActorShard ''a'') (fst full_node))"
    by code_simp+
  obtain sh where sh: "map_Get (shards (fst full_node)) (ActorShard ''a'') = Some sh" "bv_Get (shard_pause sh) = (5000, True)"
    using f(1) by (auto split: option.splits)
  have "resumeOffset example_queue (ActorShard ''a'') (fst full_node) = (resumed_node, False)"
    using f(2) by (simp add: resumed_node_def prod_eq_iff)
  then show ?thesis
    using resume_continues_at_pause [OF sh] unfolding example_queue_def by fastforce
qed

end
