(* ===== verification/NodeStranded.thy ===== *)
theory NodeStranded
  imports NodeQueue
begin

text \<open>
  A shard that nobody resumes. The node ends the pause of a shard only when the snapshot of an
  actor of the shard was stored, and it starts an actor only for a message of a shard that is not
  paused: a paused shard without actors stays paused. A seek does not help while it is paused.
\<close>

section \<open>Paused and without actors\<close>

definition stranded :: "'v node \<Rightarrow> int \<Rightarrow> bool" where
  "stranded n s \<longleftrightarrow>
     (case map_Get (shards n) s of None \<Rightarrow> False | Some sh \<Rightarrow> IsEnabled (shard_pause sh)) \<and>
     (\<forall>i a. map_Get (actors n) i = Some a \<longrightarrow> ActorShard i \<noteq> s \<and> ActorShard (a_id (na_actor a)) \<noteq> s)"

text \<open>Between two states a stranded shard is left as it is.\<close>

definition leaves :: "int \<Rightarrow> 'v node \<Rightarrow> 'v node \<Rightarrow> bool" where
  "leaves s n n' \<longleftrightarrow> (stranded n s \<longrightarrow> stranded n' s \<and> map_Get (shards n') s = map_Get (shards n) s \<and>
     (\<exists>new. calls n' = calls n @ new \<and> CallResume s \<notin> set new))"

lemma stranded_shard: "stranded n s \<Longrightarrow> \<exists>sh. map_Get (shards n) s = Some sh \<and> IsEnabled (shard_pause sh)"
  by (auto simp: stranded_def split: option.splits)

lemma stranded_actor:
  "stranded n s \<Longrightarrow> map_Get (actors n) i = Some a \<Longrightarrow> ActorShard i \<noteq> s \<and> ActorShard (a_id (na_actor a)) \<noteq> s"
  by (auto simp: stranded_def)

lemma leaves_refl [simp]: "leaves s n n"
  by (simp add: leaves_def)

lemma leaves_trans: "leaves s n n' \<Longrightarrow> leaves s n' n'' \<Longrightarrow> leaves s n n''"
  by (auto simp: leaves_def)

lemma leaves_fold:
  "(\<And>x n. x \<in> set xs \<Longrightarrow> leaves s n (f x n)) \<Longrightarrow> leaves s n (fold f xs n)"
proof (induction xs arbitrary: n)
  case (Cons x xs)
  have "leaves s (f x n) (fold f xs (f x n))" using Cons.prems by (intro Cons.IH) simp
  then show ?case using leaves_trans Cons.prems by (metis fold_simps(2) list.set_intros(1))
qed simp

lemma leaves_same:
  "shards n' = shards n \<Longrightarrow> calls n' = calls n \<Longrightarrow> actors n' = actors n \<Longrightarrow> leaves s n n'"
  by (simp add: leaves_def stranded_def)

lemma leaves_call: "c \<noteq> CallResume s \<Longrightarrow> leaves s n (n\<lparr>calls := calls n @ [c]\<rparr>)"
  by (simp add: leaves_def stranded_def)

lemma leaves_set_actor:
  assumes "stranded n s \<Longrightarrow> ActorShard i \<noteq> s \<and> ActorShard (a_id (na_actor a)) \<noteq> s"
  shows "leaves s n (set_actor i a n)"
  using assms by (auto simp: leaves_def stranded_def split: option.splits)

lemma leaves_update_actor:
  assumes "map_Get (actors n) i = Some a" and "a_id (na_actor b) = a_id (na_actor a)"
  shows "leaves s n (set_actor i b n)"
  using assms by (intro leaves_set_actor) (auto dest: stranded_actor)

lemma leaves_set_shard: "t \<noteq> s \<Longrightarrow> leaves s n (set_shard t sh n)"
  by (simp add: leaves_def stranded_def)

lemma leaves_complete_and_resume:
  assumes "t \<noteq> s"
  shows "leaves s n (complete_and_resume e t list n)"
proof -
  have "leaves s n (fst (completeOffset e t list n))" for n
  proof (cases "map_Get (shards n) t")
    case (Some sh)
    then show ?thesis
      using leaves_trans [OF leaves_set_shard [OF assms] leaves_call] leaves_set_shard [OF assms]
      by (auto simp: completeOffset_def Let_def split: prod.split)
  qed (simp add: completeOffset_def)
  moreover have "leaves s n (fst (resumeOffset e t n))" for n
  proof (cases "map_Get (shards n) t")
    case (Some sh)
    let ?seek = "CallSeek t (bvalue (shard_pause sh))"
    let ?n2 = "n\<lparr>calls := calls n @ [?seek]\<rparr>"
    let ?n3 = "n\<lparr>calls := calls n @ [?seek, CallResume t]\<rparr>"
    have n2: "leaves s n ?n2" by (rule leaves_call) simp
    moreover have "leaves s ?n2 ?n3" using leaves_call [of "CallResume t" s ?n2] assms by simp
    ultimately show ?thesis
      using Some leaves_trans leaves_set_shard [OF assms]
      by (simp add: resumeOffset_def mq_call_def bv_Get_def Let_def) blast
  qed (simp add: resumeOffset_def)
  ultimately show ?thesis
    using complete_and_resume_eq [of e t list n] leaves_trans by (metis insertE singletonD)
qed

section \<open>The operations of the node\<close>

lemma leaves_snapshot: "leaves s n (snapshot e i n)"
proof (cases "stranded n s")
  case True
  show ?thesis
  proof (cases "map_Get (actors n) i")
    case (Some a)
    let ?s = "bvalue (na_snapshot a)"
    let ?n = "n\<lparr>calls := calls n @ [CallSave [?s]]\<rparr>"
    let ?m = "set_actor i (a\<lparr>na_snapshot := Disable (na_snapshot a)\<rparr>) ?n"
    have n: "leaves s n ?n" by (rule leaves_call) simp
    have m: "leaves s ?n ?m" using Some by (intro leaves_update_actor [where a = a]) simp_all
    have "ActorShard (a_id (na_actor a)) \<noteq> s" using stranded_actor True Some by blast
    then have "leaves s n (complete_and_resume e (ActorShard (a_id (na_actor a))) [completed_by ?s] ?m)"
      using leaves_trans [OF leaves_trans [OF n m] leaves_complete_and_resume] by blast
    then show ?thesis using Some n by (simp add: snapshot_def bv_Get_def saveSnapshot_def Let_def split: prod.split)
  qed (simp add: snapshot_def)
qed (simp add: leaves_def)

text \<open>The groups that \<open>snapshotBatch\<close> completes belong to shards of actors.\<close>

lemma leaves_batch_groups:
  assumes "stranded n s" and "map_Get g s = None"
  shows "leaves s n (fst (fold batch_group is (n, g))) \<and> map_Get (snd (fold batch_group is (n, g))) s = None"
  using assms
proof (induction "is" arbitrary: n g)
  case (Cons i "is")
  obtain n1 g1 where step: "batch_group i (n, g) = (n1, g1)" by force
  have "leaves s n n1 \<and> map_Get g1 s = None"
    using step Cons.prems stranded_actor [OF Cons.prems(1), of i] leaves_update_actor [of n i _ _ s]
    by (auto simp: batch_group_def bv_Get_def Let_def split: option.splits if_splits)
  moreover from this have "stranded n1 s" using Cons.prems(1) by (simp add: leaves_def)
  ultimately show ?case using Cons.IH [of n1 g1] step leaves_trans by auto
qed simp

lemma leaves_snapshotBatch: "leaves s n (snapshotBatch e n)"
proof (cases "stranded n s")
  case True
  let ?ss = "batch_snapshots e n"
  let ?n = "n\<lparr>calls := calls n @ [CallSave ?ss]\<rparr>"
  have n: "leaves s n ?n" by (rule leaves_call) simp
  then have "stranded ?n s" using True by (simp add: leaves_def)
  then have g: "leaves s ?n (fst (fold batch_group ok (?n, NewMap)))"
    "map_Get (snd (fold batch_group ok (?n, NewMap))) s = None" for ok
    using leaves_batch_groups [of ?n s NewMap ok] by (simp_all add: NewMap_def)
  have "leaves s n (fold (\<lambda>t n. complete_and_resume e t (l t) n) (map_Keys o1 (snd (fold batch_group ok (?n, NewMap))))
      (fst (fold batch_group ok (?n, NewMap))))" for ok l o1
    by (rule leaves_trans [OF leaves_trans [OF n g(1)]], rule leaves_fold, rule leaves_complete_and_resume)
      (use g(2) in auto)
  then show ?thesis
    using n by (simp add: snapshotBatch_def saveSnapshot_def Let_def case_prod_beta)
qed (simp add: leaves_def)

lemma leaves_stopActor: "leaves s n (stopActor i n)"
  by (auto simp: stopActor_def intro: leaves_update_actor split: option.split)

lemma leaves_stopShard: "leaves s n (stopShard e t n)"
  by (simp add: stopShard_def leaves_fold leaves_stopActor split: option.split)

lemma leaves_receive:
  "leaves s n (receiveSnapshot i snap n)" "leaves s n (receiveAlive i t n)" "leaves s n (receiveReady e i n)"
proof -
  show "leaves s n (receiveReady e i n)"
  proof (cases "map_Get (actors n) i")
    case (Some a)
    let ?n = "set_actor i (a\<lparr>na_pause := Disable (na_pause a)\<rparr>) n"
    have "leaves s n ?n" using Some by (intro leaves_update_actor [where a = a]) simp_all
    then show ?thesis
      using Some leaves_trans [of s n ?n, OF _ leaves_call] by (simp add: receiveReady_def bv_Get_def Let_def)
  qed (simp add: receiveReady_def)
qed (auto simp: receiveSnapshot_def receiveAlive_def intro: leaves_update_actor split: option.split)

lemma leaves_recycleActor: "recycleActor e i n = Inr n' \<Longrightarrow> leaves s n n'"
  using leaves_call [of _ s n] leaves_trans [OF leaves_snapshotBatch leaves_stopActor] leaves_stopActor
  by (auto simp: recycleActor_def bv_Get_def Let_def and_then_def split: option.splits sum.splits prod.splits if_splits)

lemma leaves_drop_actor:
  assumes "ActorShard i \<noteq> s"
  shows "leaves s n (drop_actor i n)"
  using assms by (auto simp: leaves_def stranded_def drop_actor_def Let_def split: option.splits if_splits)

lemma leaves_receiveStopped:
  assumes "receiveStopped e i n = Inr n'"
  shows "leaves s n n'"
proof (cases "stranded n s \<and> map_Get (actors n) i \<noteq> None")
  case True
  let ?n = "drop_actor i (snapshot e i n)"
  have "ActorShard i \<noteq> s" using True stranded_actor by blast
  then have d: "leaves s n ?n" by (rule leaves_trans [OF leaves_snapshot leaves_drop_actor])
  have "leaves s n (?n\<lparr>n_end := b\<rparr>)" for b
    by (rule leaves_trans [OF d]) (rule leaves_same; simp)
  moreover have "leaves s n (?n\<lparr>calls := calls ?n @ [CallSeek t off]\<rparr>)" for t off
    by (rule leaves_trans [OF d]) (rule leaves_call, simp)
  ultimately show ?thesis
    using assms d True
    by (auto simp: receiveStopped_def handleEnding_def Let_def bv_Get_def split: option.splits if_splits)
next
  case False
  then show ?thesis using assms by (auto simp: receiveStopped_def leaves_def)
qed

lemma leaves_startActor:
  assumes "factory_ok (n_factory n)" and "ActorShard (ref_Id ref) \<noteq> s" and "startActor w ref n = Inr (n', err)"
  shows "leaves s n n'"
proof -
  have "leaves s n (set_shard (ActorShard (ref_Id ref)) sh (n\<lparr>actors := map_AddOrUpdate (ref_Id ref) a (actors n)\<rparr>))"
    if "a_id (na_actor a) = ref_Id ref" for sh a
    using that assms(2) by (intro leaves_trans [OF _ leaves_set_shard]) (auto simp: leaves_def stranded_def)
  moreover have "a_id a = ref_Id ref"
    if "factory_New (n_factory n) (ActorConfigDefault\<lparr>cfg_Id := ref_Id ref, cfg_Type := t, cfg_Node := i\<rparr>) = Some a" for t i a
    using that assms(1) unfolding factory_ok_def factory_New_def by (force split: option.splits)
  moreover have "a_id (na_actor (NewNodeActor w (fst (actor_Start w a)))) = a_id a" for a :: "'a actor"
    by (simp add: NewNodeActor_def)
  ultimately show ?thesis
    using assms(3) by (auto simp: startActor_def Let_def case_prod_beta split: option.splits if_splits)
qed

lemma leaves_deliver:
  assumes "t \<noteq> s" and "deliver t m n = Inr n'"
  shows "leaves s n n'"
proof -
  obtain sh a where sh: "map_Get (shards n) t = Some sh" "map_Get (actors n) (ref_Id (Receiver m)) = Some a"
    using assms(2) by (auto simp: deliver_def Let_def split: option.splits)
  let ?n = "set_shard t (sh\<lparr>window := infl_Add (window sh) (Offset m) (ref_Id (Receiver m))\<rparr>) n"
  have n: "leaves s n ?n" using assms(1) by (rule leaves_set_shard)
  have b: "leaves s n (set_actor (ref_Id (Receiver m)) b ?n)" if "a_id (na_actor b) = a_id (na_actor a)" for b
    by (rule leaves_trans [OF n leaves_update_actor [of _ _ a]]) (use sh(2) that in simp_all)
  have sent: "a_id c = a_id (na_actor a)" if "try_send m (na_actor a) = Some c" for c
    using that by (auto simp: try_send_def split: if_splits)
  have eq: "deliver t m n =
      (if na_stopping a then Inr (set_actor (ref_Id (Receiver m)) (a\<lparr>na_pending := Enable (Offset m) (na_pending a)\<rparr>) ?n)
       else if IsEnabled (na_pause a) then Inr ?n
       else (case try_send m (na_actor a) of
           Some c \<Rightarrow> Inr (set_actor (ref_Id (Receiver m)) (a\<lparr>na_actor := c\<rparr>) ?n)
         | None \<Rightarrow> Inr (set_actor (ref_Id (Receiver m)) (a\<lparr>na_pause := Enable (Offset m) (na_pause a)\<rparr>) ?n)))"
    using sh by (simp add: deliver_def Let_def)
  consider "na_stopping a" | "\<not> na_stopping a" "IsEnabled (na_pause a)"
    | "\<not> na_stopping a" "\<not> IsEnabled (na_pause a)" "try_send m (na_actor a) = None"
    | c where "\<not> na_stopping a" "\<not> IsEnabled (na_pause a)" "try_send m (na_actor a) = Some c"
    by blast
  then show ?thesis
  proof cases
    case 1
    then show ?thesis using assms(2) b [of "a\<lparr>na_pending := Enable (Offset m) (na_pending a)\<rparr>"] eq by simp
  next
    case 2
    then show ?thesis using assms(2) n eq by simp
  next
    case 3
    then show ?thesis using assms(2) b [of "a\<lparr>na_pause := Enable (Offset m) (na_pause a)\<rparr>"] eq by simp
  next
    case 4
    then show ?thesis using assms(2) b [of "a\<lparr>na_actor := c\<rparr>"] sent [OF 4(3)] eq by simp
  qed
qed

lemma leaves_Dispatcher:
  assumes "node_inv L n" and "Dispatcher w e m n = Inr n'"
  shows "leaves s n n'"
proof (cases "stranded n s \<and> ActorShard (ref_Id (Receiver m)) \<noteq> s")
  case True
  let ?t = "ActorShard (ref_Id (Receiver m))"
  have dis: "disableActors n = []" and fac: "factory_ok (n_factory n)" using assms(1) by (simp_all add: node_inv_def)
  have start: "leaves s n n2"
    if "startActor w (Receiver m) n = Inr (n1, err)" "deliver ?t m n1 = Inr n2" for n1 err n2
    using that True fac by (blast intro: leaves_trans leaves_startActor leaves_deliver)
  have "leaves s n ((set_shard ?t sh n)\<lparr>calls := calls n @ [CallPause ?t]\<rparr>)" for sh
    using leaves_trans [OF leaves_set_shard leaves_call [of "CallPause ?t"]] True by fastforce
  then show ?thesis
    using assms(2) True dis start fac
    by (auto simp: Dispatcher_def Let_def and_then_def intro: leaves_deliver leaves_startActor
        split: option.splits if_splits sum.splits)
next
  case False
  then show ?thesis
    using assms(2) stranded_shard [of n s] by (auto simp: Dispatcher_def leaves_def Let_def split: if_splits)
qed

lemma leaves_node_handle:
  assumes "node_inv L n" and "node_handle w e m n = Inr n'"
  shows "leaves s n n'"
  using assms leaves_Dispatcher [OF assms(1)]
  by (auto simp: node_handle_def Let_def receiveIdle_def split: if_splits payload.splits
      intro: leaves_receive leaves_recycleActor leaves_receiveStopped)

lemma leaves_node_step:
  assumes "node_inv L n" and "node_step w e ev n = Inr (n', fin)"
  shows "leaves s n n'"
proof (cases ev)
  case NodeMailbox
  let ?n = "n\<lparr>n_mailbox := tl (n_mailbox n)\<rparr>"
  have "node_handle w e (hd (n_mailbox n)) ?n = Inr n'"
    using assms(2) NodeMailbox by (simp add: and_then_def split: sum.splits)
  then have "leaves s ?n n'" using assms(1) by (intro leaves_node_handle) simp_all
  moreover have "leaves s n ?n" by (rule leaves_same) simp_all
  ultimately show ?thesis using leaves_trans by blast
next
  case (NodeSnapshotTimer r)
  let ?n = "n\<lparr>snapshotTimer := None\<rparr>"
  have "leaves s n ?n" by (rule leaves_same) simp_all
  then have "leaves s n (snapshotBatch e ?n)" by (rule leaves_trans [OF _ leaves_snapshotBatch])
  then have "leaves s n (restartTimer w r (snapshotBatch e ?n))"
    by (rule leaves_trans) (simp add: restartTimer_def leaves_same)
  then show ?thesis using assms(2) NodeSnapshotTimer by simp
next
  case NodeEnd
  let ?n = "n\<lparr>n_end := False, endTimer := None\<rparr>"
  have "leaves s n ?n" by (rule leaves_same) simp_all
  then have "leaves s n (snapshotBatch e ?n)" by (rule leaves_trans [OF _ leaves_snapshotBatch])
  then have "leaves s n (node_finish (snapshotBatch e ?n))"
    by (rule leaves_trans) (simp add: node_finish_def leaves_same)
  then show ?thesis using assms(2) NodeEnd by (simp add: node_afterStop_def)
next
  case NodeStop
  let ?n = "stopPoll (n\<lparr>n_stop := False, n_stopping := True\<rparr>)"
  let ?c = "?n\<lparr>calls := calls ?n @ [CallClose]\<rparr>"
  define m where "m = fold (stopShard e) (map_Keys (shard_order e (calls ?c)) (shards ?c)) (?c\<lparr>registerShards := set_Clear (registerShards ?c)\<rparr>)"
  have "leaves s n ?n" by (rule leaves_same) simp_all
  then have "leaves s n ?c" by (rule leaves_trans [OF _ leaves_call]) simp
  then have "leaves s n (?c\<lparr>registerShards := set_Clear (registerShards ?c)\<rparr>)" by (rule leaves_trans) (rule leaves_same; simp)
  then have m: "leaves s n m" unfolding m_def by (rule leaves_trans) (rule leaves_fold, rule leaves_stopShard)
  have "leaves s m (m\<lparr>endTimer := t\<rparr>)" "leaves s m (m\<lparr>n_end := b, endTimer := t\<rparr>)" for t b
    by (rule leaves_same; simp)+
  then have "leaves s n (m\<lparr>endTimer := t\<rparr>)" "leaves s n (m\<lparr>n_end := b, endTimer := t\<rparr>)" for t b
    using leaves_trans [OF m] by blast+
  moreover have "leaves s n (n\<lparr>n_stop := False\<rparr>)" by (rule leaves_same) simp_all
  moreover have "node_beforeStop w e (n\<lparr>n_stop := False\<rparr>) = and_then (handleEnding m)
      (\<lambda>n. Inr (n\<lparr>endTimer := Some (unix_nanos w + NodeStopTimeout)\<rparr>))" if "\<not> n_stopping n"
    using that by (simp add: node_beforeStop_def Let_def m_def mq_call_def)
  moreover have "node_beforeStop w e (n\<lparr>n_stop := False\<rparr>) = Inr (n\<lparr>n_stop := False\<rparr>)" if "n_stopping n"
    using that by (simp add: node_beforeStop_def)
  ultimately show ?thesis
    using assms(2) NodeStop handleEnding_cases [of m] by (cases "n_stopping n") auto
qed

section \<open>Every continuation\<close>

lemma leaves_startShard: "leaves s n (startShard t n)"
  by (auto simp: leaves_def stranded_def startShard_def Let_def split: option.splits)

lemma leaves_play_one:
  assumes "node_run L e n way" and "play_one L e h (n, way) = Some (n', way')"
  shows "leaves s n n'"
proof (cases h)
  case (Acts i w ev)
  then obtain a where a: "map_Get (actors n) i = Some a" "n' = set_actor i (a\<lparr>na_actor := fst (actor_step w ev (na_actor a))\<rparr>) n"
    using assms(2) by (auto simp: case_prod_beta Let_def split: option.splits if_splits)
  then show ?thesis by (auto intro: leaves_update_actor simp: actor_step_id)
next
  case (Turns w ev)
  then have "node_step w e ev n = Inr (n', False)"
    using assms(2) by (auto split: if_splits sum.splits prod.splits bool.splits)
  then show ?thesis
    using leaves_node_step node_run_ok [OF assms(1)] unfolding run_ok_def by blast
next
  case (Registers t)
  then show ?thesis using assms(2) leaves_startShard by auto
qed (use assms(2) in \<open>auto intro!: leaves_same split: if_splits\<close>)

lemma leaves_play:
  "node_run L e n way \<Longrightarrow> play L e hs (n, way) = Some (n', way') \<Longrightarrow> leaves s n n'"
proof (induction hs arbitrary: n way)
  case (Cons h hs)
  then obtain n1 way1 where one: "play_one L e h (n, way) = Some (n1, way1)" "play L e hs (n1, way1) = Some (n', way')"
    by (auto split: option.splits)
  show ?case
    using leaves_trans [OF leaves_play_one [OF Cons.prems(1) one(1)]]
      Cons.IH [OF play_one_run [OF Cons.prems(1) one(1)] one(2)] by blast
qed simp

context pausing_queue
begin

lemma stalls_on: "stalls log s \<Longrightarrow> CallResume s \<notin> set new \<Longrightarrow> stalls (log @ new) s"
proof (induction new rule: rev_induct)
  case (snoc c new)
  then show ?case using stalls_after [of "log @ new" s c] by auto
qed simp

lemma stranded_stalls:
  assumes "node_run L e n way" and "stranded n s" and "stalls (calls n) s"
    and "play L e hs (n, way) = Some (n', way')"
  shows "stalls (calls n') s \<and> stranded n' s \<and> map_Get (shards n') s = map_Get (shards n) s"
proof -
  have "leaves s n n'" using leaves_play [OF assms(1,4)] .
  then show ?thesis using assms(2,3) stalls_on unfolding leaves_def by metis
qed

end

text \<open>
  C17: a shard that is paused and has no actor left stays so in every continuation of the run: no
  message of it is dispatched, so no actor is started for it, so nothing of it is stored, and the node
  never resumes it. At the Kafka client the partition stays paused, and its window keeps its offsets.
\<close>

theorem stranded_shard_stays_paused:
  assumes "node_run L (on_kafka J E p k e) n way" and "stranded n s"
    and "is_paused (client J E p k (calls n)) s"
    and "play L (on_kafka J E p k e) hs (n, way) = Some (n', way')"
  shows "is_paused (client J E p k (calls n')) s \<and> stranded n' s \<and>
    map_Get (shards n') s = map_Get (shards n) s"
  using nq.stranded_stalls [OF assms] .

text \<open>
  Such a state is reached without any failure. An actor is told to stop and its last snapshot is
  stored; before its Stopped report arrives a message of it is put into the window to be sought
  later, and a message far behind it fills the window and pauses the shard. The report then drops
  the actor and seeks the waiting message, but the shard is still paused.
\<close>

definition two_minutes :: wall where
  "two_minutes = example_wall\<lparr>unix_nanos := 120 * second\<rparr>"

definition stranding :: "int happening list" where
  "stranding =
     [Polled (to_a ''m'' 7), Turns example_wall NodeMailbox, Acts ''a'' example_wall OnBegin,
      Acts ''a'' example_wall OnMailbox, Acts ''a'' example_wall OnIdle, Delivered 0,
      Turns example_wall NodeMailbox, Turns minute_later (NodeSnapshotTimer 0),
      Delivered 0, Turns minute_later NodeMailbox,
      Acts ''a'' minute_later OnStop, Acts ''a'' minute_later OnDrained, Delivered 0,
      Turns minute_later NodeMailbox, Turns two_minutes (NodeSnapshotTimer 0),
      Polled (to_a ''y'' 10), Turns two_minutes NodeMailbox,
      Polled (to_a ''z'' 5000), Turns two_minutes NodeMailbox,
      Delivered 0, Turns two_minutes NodeMailbox]"

definition stranded_node :: "int node \<times> int message list" where
  "stranded_node = played (\<lambda>_ _. ''a'') example_queue stranding (example_idle, [])"

definition example_client :: "int call list \<Rightarrow> kafka" where
  "example_client = client example_json example_env_kafka (\<lambda>_. 1) example_kafka"

lemma stranded_node_run: "node_run (\<lambda>_ _. ''a'') example_queue (fst stranded_node) (snd stranded_node)"
  unfolding stranded_node_def by (rule played_run) (simp add: example_idle_queue)

lemma stranded_node_state:
  "stranded (fst stranded_node) (ActorShard ''a'')"
  "is_paused (example_client (calls (fst stranded_node))) (ActorShard ''a'')"
  "\<not> call_failed example_queue (calls (fst stranded_node)) (ActorShard ''a'')"
  "consumes_from (example_client (calls (fst stranded_node))) (ActorShard ''a'') = Some 10"
  "window_of ''a'' (fst stranded_node) = [(10, ''a'')]"
proof -
  have "map_entries (actors (fst stranded_node)) = []" by code_simp
  moreover have "case map_Get (shards (fst stranded_node)) (ActorShard ''a'') of None \<Rightarrow> False
      | Some sh \<Rightarrow> IsEnabled (shard_pause sh)" by code_simp
  ultimately show "stranded (fst stranded_node) (ActorShard ''a'')"
    by (simp add: stranded_def map_Get_entries)
qed code_simp+

theorem stranded_shard_stays_paused_witness:
  "(\<forall>hs. is_paused (example_client (calls (fst (played (\<lambda>_ _. ''a'') example_queue hs stranded_node)))) (ActorShard ''a'')) \<and>
   \<not> call_failed example_queue (calls (fst stranded_node)) (ActorShard ''a'') \<and>
   window_of ''a'' (fst stranded_node) = [(10, ''a'')]"
proof -
  have "is_paused (example_client (calls (fst (played (\<lambda>_ _. ''a'') example_queue hs stranded_node)))) (ActorShard ''a'')" for hs
    using stranded_shard_stays_paused [OF stranded_node_run [unfolded example_queue_def] stranded_node_state(1)
        stranded_node_state(2) [unfolded example_client_def], of hs] stranded_node_state(2)
    by (auto simp: played_def example_queue_def example_client_def split: option.split)
  then show ?thesis using stranded_node_state(3,5) by simp
qed

end
