(* ===== verification/Spec2Isabelle.thy ===== *)
theory Spec2Isabelle
  imports Containers Ring Dedup QuadHeapSpec Inflight Messages MessageId Timer ActorMail NodeProps
    ActorContext Convert KafkaDemo Mongo Postgres NodePoll NodeStranded
begin

text \<open>
  Verification of goactor: actors whose messages come from Kafka shards and whose snapshots go to a
  database. The theories translate the Go code of src/ (all packages but the generated protobuf
  code) and prove what each part promises and how the parts fit together.

  \<^bold>\<open>The program.\<close> A node (core/node.go) owns shards of the queue. Its poll goroutine fetches records
  through the queue interface (mq/mq.go, implemented by mq/kafka.go over franz-go) and puts them into
  the node's mailbox. The node's goroutine dispatches each message to the actor it names, starting it
  if needed, and tracks the offset in the window of its shard (core/inflight.go). Every actor
  (core/actor.go) runs handlers on its messages, drops duplicates by a window of ids (core/dedup.go on
  structs/ring.go), keeps timers (core/timer.go on structs/quadheap.go) and reports to the node:
  snapshots, idleness, room in a mailbox that was full, its end. The node saves snapshots
  (storage/*.go), completes the offsets they cover, commits the smallest offset that is still in
  flight, and pauses, seeks and resumes shards as windows and mailboxes fill and empty.

  \<^bold>\<open>Theories, in the order of the code.\<close>
  \<^item> \<open>Prelude\<close>: zero values, outcomes (a value, a panic, a blocked goroutine), Go maps as lists of
    entries with their laws, the fact collections. \<open>GoStrings\<close>: UTF-8, white space, splitting,
    decimal numbers. \<open>Json\<close>: what the program uses of encoding/json.
  \<^item> \<open>Containers\<close>, \<open>Ring\<close>, \<open>QuadHeap\<close> with \<open>QuadHeapSpec\<close>: structs/. \<open>Dedup\<close>, \<open>Inflight\<close>, \<open>MessageId\<close>,
    \<open>Timer\<close>: the files of those names in core/. \<open>Messages\<close>: message/mm and the sharding.
  \<^item> \<open>Actor\<close>: actor.go, handler.go, context.go, factory.go as steps of one goroutine; \<open>ActorLife\<close>: its
    reachable states and its exit; \<open>ActorMail\<close>: what happens to messages; \<open>ActorContext\<close>: derived
    contexts.
  \<^item> \<open>Node\<close>: node.go, node_actor.go, node_shard.go as functions on the node's state; \<open>NodeInv\<close> and
    \<open>NodeStep\<close>: invariant and step lemmas; \<open>NodeRun\<close>: all interleavings of the node, its poll goroutine
    and its actors; \<open>NodeProps\<close>: the properties of every reachable state; \<open>NodePoll\<close>: the poll goroutine
    over the Kafka adapter; \<open>NodePlay\<close>: runs of the node as lists of happenings that can be evaluated;
    \<open>NodeQueue\<close>: the node with every call run on the Kafka adapter; \<open>NodeStranded\<close>: shards that nobody
    resumes.
  \<^item> \<open>Metadata\<close> and \<open>Convert\<close>: mq/convert.go and the types of mq.go; \<open>Kafka\<close>: mq/kafka.go; \<open>KafkaDemo\<close>:
    examples/kafka/main.go with its goroutines.
  \<^item> \<open>Storage\<close>: storage.go and the contract of a store; \<open>Mongo\<close>, \<open>Postgres\<close>: the two stores.
  \<^item> \<open>Spec2Isabelle\<close> (this theory): properties that span the adapter, the node, the actor and the store.

  \<^bold>\<open>How the code is modelled.\<close> A struct is a record with the fields of the struct, a method a function
  that returns the new state with its results. A pointer that may be nil is an option where the code
  tests it. Integers whose width matters are words or wrap explicitly (the arrival numbers of the heap,
  durations, hashes); offsets and versions are int. A panic and a send that blocks for ever are values
  of \<open>outcome\<close>. A select is a choice of one of its ready branches: \<open>actor_ready\<close> and \<open>node_ready\<close> say which
  are ready, \<open>actor_step\<close> and \<open>node_step\<close> what they do, and \<open>actor_run\<close>, \<open>node_run\<close> and \<open>demo_run\<close> are the
  interleavings of the goroutines. Iteration over a Go map has an arbitrary order, which is an argument.
  Handlers are arbitrary programs over the calls of a context, and may return an error or panic; they do
  not run for ever. A report of an actor leaves it at once and waits on its way until the node's mailbox
  has room; the wait of the actor in \<open>signal\<close> is not modelled. So the theorems on actors and the node say
  what they do in any order, not that they make progress.

  \<^bold>\<open>Interfaces.\<close> The contracts between parts are locales, each interpreted on the model of the code:
  the bounded queue of \<open>Ring\<close> that \<open>Dedup\<close> builds on, the set of recent ids that \<open>Dedup\<close> provides,
  the agenda of \<open>QuadHeap\<close> under \<open>Timer\<close>, the shard queue of mq.IMQ in \<open>Kafka\<close>, what the node relies on
  when it pauses a shard (\<open>pausing_queue\<close> in \<open>NodeQueue\<close>, with the node's lemmas proved inside it and
  interpreted on the adapter), and the snapshot store of storage.IStore, which \<open>Mongo\<close> and \<open>Postgres\<close> provide under hypotheses on their drivers.

  \<^bold>\<open>What the lemmas show.\<close> The containers refine lists (ring, window, heap: every sequence of
  operations returns what the list returns). The window of offsets commits only what is safe, in any
  order of delivery and completion; as long as the queue delivers in order its commits only advance. The
  node panics on exactly one kind of message, a record of the queue that poses as the report of an
  actor; it commits below everything in flight, lets an offset leave only when a stored snapshot covers
  it, and keeps its maps consistent, in every interleaving. An actor ignores messages that are
  redelivered within its window, announces its exit and the room in its mailbox, is woken in time for its
  timers and delivers them in order. Published messages with valid UTF-8 in their metadata come back unchanged,
  every polled record is a message or a reported failure, dead letters keep their message.
  With the adapter behind the node, a partition that the client holds is one the node has paused and
  still has work for, and a resumed one continues where it was paused. Both stores
  fence the owner before a load. Further theorems state behaviour the code hardly intends, such as an
  unhandled first message whose offset is committed, a batch lost with one bad record, snapshots that are
  never accepted again after a load, or a shard that stays paused for ever.

  \<^bold>\<open>Parameters.\<close> Code outside the repository is an argument. The Kafka client answers through
  \<open>kafka_env\<close>, given the calls so far; the calls are recorded. The MongoDB and PostgreSQL drivers are
  records of operations with their documented effect on single documents and rows as the hypotheses
  \<open>collection_ok\<close>, \<open>find_ok\<close> and \<open>postgres_ok\<close>; they hold of a map. Marshalling of application values
  (payloads, states) by reflection is a function. A state that was stored comes back as what the decoder
  makes of it, which need not be the same value (\<open>decoded\<close>, \<open>pg_decoded\<close>); \<open>state_json_ok\<close> says that its
  text can be read. The Unicode classes of letters and digits are predicates. Random numbers and
  the clock are arguments.

  \<^bold>\<open>Bounds and fuel.\<close> \<open>poll_rounds\<close> and \<open>drain_rounds\<close> bound the rounds of a loop by an argument; the
  lemma on draining gives a number of rounds that is enough, and the theorem on the cancelled poll holds
  for every number; \<open>demo_left\<close> bounds the steps of the demonstration program after its cancel. The heap properties assume fewer than \<open>2 ^ 63\<close> items. All other recursions are
  total functions.

  \<^bold>\<open>Not modelled.\<close> message.pb.go is generated and used by no package; generate.go has no code. Log output,
  flags, signals and exit codes are I/O without effect on the state. Texts of errors are replaced by their
  kinds (\<open>Error\<close> of \<open>DecodeError\<close> is such a text). Data races are outside of the model: every piece of
  state belongs to one goroutine, as in the code, and \<open>structs.SyncMap\<close> is modelled per operation.
\<close>

section \<open>The queue and the node\<close>

text \<open>
  C32: a record of the queue whose metadata names the type of memory messages and a command of the
  actors' reports is accepted by the adapter, and the node panics when it handles the message: a
  polled payload is always raw bytes, and the assertion on its type fails.
\<close>

theorem foreign_report_panics:
  assumes "ToMMMessage k = Inr m" and "Type m = MessageTypeMemory"
    and "Command m \<in> {CmdActorIdle, CmdActorSnapshot, CmdActorAlive, CmdActorReady, CmdActorStopped}"
  shows "node_handle w e m n = Inl Panic"
proof -
  have "Payload m = PRaw (km_Value k)" using assms(1) by (auto simp: ToMMMessage_Inr)
  then show ?thesis using assms(2,3) by (auto simp: node_handle_def Let_def)
qed

definition foreign_meta :: shared_metadata where
  "foreign_meta = example_meta\<lparr>md_Type := 0, md_Command := ''actor/ready''\<rparr>"

definition foreign_record :: kmessage where
  "foreign_record = example_record\<lparr>km_Headers :=
     [\<lparr>hdr_Key = sharedMetadataHeader, hdr_Value = bytes_of (marshal_metadata foreign_meta)\<rparr>]\<rparr>"

theorem foreign_report_panics_witness:
  "\<exists>m. ToMMMessage foreign_record = Inr m \<and>
     node_handle example_wall example_env m example_idle = Inl Panic"
proof -
  have "case (ToMMMessage foreign_record :: _ + int message) of
      Inr m \<Rightarrow> Type m = MessageTypeMemory \<and> Command m = CmdActorReady | _ \<Rightarrow> False"
    by code_simp
  then obtain m :: "int message" where m: "ToMMMessage foreign_record = Inr m" "Type m = MessageTypeMemory"
    "Command m = CmdActorReady"
    by (auto split: sum.splits)
  then show ?thesis using foreign_report_panics [OF m(1,2)] by blast
qed

text \<open>
  A message that an actor creates for another actor has the type of memory messages, so when it
  comes back from the queue the node ignores it: it is not dispatched and not in flight.
\<close>

lemma created_messages_never_dispatched:
  fixes m :: "'v::default message" and n :: "'v node"
  assumes "NewMessage rid rtype cmd payload c = (c', m)" and "utf8_meta (metadata_of m)"
    and "FromMMMessage J m topic = Inr k"
    and "cmd \<notin> {CmdActorIdle, CmdActorSnapshot, CmdActorAlive, CmdActorReady, CmdActorStopped}"
  shows "\<exists>m'. ToMMMessage (k\<lparr>km_Offset := off\<rparr>) = Inr m' \<and> node_handle w e m' n = Inr n"
proof -
  have "Type m = MessageTypeMemory" "Command m = cmd"
    using assms(1) by (auto simp: NewMessage_def zero_message_def Let_def split: prod.splits)
  then show ?thesis
    using publish_then_poll' [OF assms(2,3), of off] assms(4) by (simp add: node_handle_def Let_def)
qed

section \<open>The actor and the store\<close>

lemma trigger_loop_version: "version (fst (trigger_loop w a)) = version a"
  using trigger_loop_frame [of w a] by auto

lemma finish_version [simp]: "version (fst (finish a)) = version a"
  by (simp add: finish_def Let_def)

lemma actor_step_version: "version (fst (actor_step w ev a)) = version a"
  by (cases ev) (auto simp: unwind_handle Let_def resetIdle_def alive_def handleTimerTrigger_def
      startStopping_def actor_beforeStop_def trigger_loop_version case_prod_beta)

definition unversioned :: "'v message list \<Rightarrow> bool" where
  "unversioned out \<longleftrightarrow> (\<forall>m \<in> set out. \<forall>s. Payload m = PSnapshot s \<longrightarrow> snap_Version s = 0)"

lemma unversioned_signals [simp]:
  "unversioned []" "unversioned (xs @ ys) \<longleftrightarrow> unversioned xs \<and> unversioned ys"
  "version a = 0 \<Longrightarrow> unversioned [signalSnapshot a]"
  "version a = 0 \<Longrightarrow> unversioned [signalSnapshot a, signalIdle a]"
  "version a = 0 \<Longrightarrow> unversioned [signalSnapshot a, signalAlive w b]"
  "version a = 0 \<Longrightarrow> unversioned (snd (finish a))"
  "unversioned [signalReady a]" "unversioned [signalAlive w a]"
  by (auto simp: unversioned_def signal_defs snapshot_of_def zero_message_def finish_def Let_def)

lemma actor_step_unversioned:
  assumes "version a = 0"
  shows "unversioned (snd (actor_step w ev a))"
proof (cases ev)
  case OnMailbox
  have "unversioned (snd (mail_level c))" for c :: "'a actor"
    using mail_level_out [of c] by auto
  then show ?thesis
    using assms OnMailbox by (simp add: unwind_handle Let_def resetIdle_def split: if_split)
next
  case OnAlive
  then show ?thesis using assms by (simp add: alive_def Let_def split: if_split)
next
  case OnDrained
  then show ?thesis using assms by (simp add: actor_beforeStop_def)
qed (use assms in \<open>simp_all add: Let_def resetIdle_def\<close>)

lemma actor_run_unversioned: "actor_run h cfg w a out \<Longrightarrow> version a = 0 \<and> unversioned out"
proof (induction rule: actor_run.induct)
  case (run_step w a out ev b new)
  then show ?case
    using actor_step_version [of w ev a] actor_step_unversioned [of a w ev] by simp
next
  case (run_send w a out m b)
  then show ?case by (auto simp: try_send_def split: if_splits)
qed (simp_all add: FactoryWarp_def NewActor_def actor_Start_def actor_prepare_def actor_beforeStart_def
    actor_afterStart_def actor_Stop_def Let_def)

definition reported :: "'v::default actor_snapshot \<Rightarrow> bool" where
  "reported t \<longleftrightarrow> (\<exists>h cfg w a out. actor_run h cfg w a out \<and> (\<exists>m \<in> set out. Payload m = PSnapshot t))"

lemma reported_version: "reported t \<Longrightarrow> snap_Version t = 0"
  using actor_run_unversioned unfolding reported_def unversioned_def by blast

text \<open>
  C19: on the MongoDB store. The version of an actor is never set or raised, so once a snapshot has been
  loaded, under a version above zero, no later save of snapshots that any incarnations of any actors
  report ever replaces it or is confirmed for its actor, in every later history of saves and loads by
  any nodes: only the version of the document rises, with further loads.
\<close>

theorem saves_after_load_never_succeed:
  assumes "collection_ok C" and "find_ok C" and "mongo_Load C st db i = (db1, Inr s)" and "0 < snap_Version s"
    and "\<forall>st ss t. Saves st ss \<in> set ops \<longrightarrow> t \<in> set ss \<longrightarrow> reported t"
    and "store_history (mongo_Save C) (mongo_Load C) ops db1 = (db2, ids)"
  shows "(\<exists>v \<ge> snap_Version s. mongo_at C db2 i = Some (s\<lparr>snap_Version := v\<rparr>)) \<and> i \<notin> set ids"
proof -
  have "mongo_at C db1 i = Some s"
    using snapshot_store.load_loaded [OF mongo_collection.store_contract [OF mongo_collection.intro
      [OF assms(1)]] assms(3)] by blast
  then have held: "held_since C db1 i s" by (auto simp: held_since_def)
  have "\<forall>st ss t. Saves st ss \<in> set ops \<longrightarrow> t \<in> set ss \<longrightarrow> snap_Version t < snap_Version s"
    using assms(4,5) reported_version by fastforce
  then show ?thesis
    using history_keeps_held [OF assms(1,2) held, of ops] assms(6) by (simp add: held_since_def)
qed

definition final_snapshot :: "int actor_snapshot" where
  "final_snapshot = snapshot_of (example_stopped NewHandlers)"

text \<open>Saved once by its first incarnation, loaded by the next one.\<close>

definition taken_over :: "int documents" where
  "taken_over = fst (mongo_Load map_collection example_store
     (fst (mongo_Save map_collection example_store (\<lambda>_. None) [final_snapshot])) ''a1'')"

definition later :: "(mongo_store option, int) store_op list" where
  "later = [Saves example_store [final_snapshot], Loads example_store ''a1'', Saves example_store [final_snapshot]]"

theorem saves_after_load_never_succeed_witness:
  "\<exists>v \<ge> 1. mongo_at map_collection (fst (store_history (mongo_Save map_collection) (mongo_Load map_collection) later taken_over)) ''a1'' =
     Some (final_snapshot\<lparr>snap_Version := v\<rparr>)"
proof -
  let ?db = "fst (mongo_Save map_collection example_store (\<lambda>_. None) [final_snapshot])"
  have "case snd (mongo_Load map_collection example_store ?db ''a1'') of
      Inr s \<Rightarrow> s = final_snapshot\<lparr>snap_Version := 1\<rparr> | _ \<Rightarrow> False"
    by code_simp
  then have s: "mongo_Load map_collection example_store ?db ''a1'' =
      (taken_over, Inr (final_snapshot\<lparr>snap_Version := 1\<rparr>))"
    by (cases "mongo_Load map_collection example_store ?db ''a1''") (auto simp: taken_over_def split: sum.splits)
  obtain out where run: "actor_run (NewHandlers :: int handlers) example_config example_wall
      (example_stopped NewHandlers) out"
    using example_stopped_run(1) by blast
  have "phase (example_stopped NewHandlers :: int actor) = Exited" by (rule example_stopped_run(2))
  then have "signalSnapshot (example_stopped NewHandlers :: int actor) \<in> set out"
    using actor_run_announced [OF run] by (auto simp: announced_def)
  then have "\<exists>m \<in> set out. Payload m = PSnapshot final_snapshot"
    by (intro bexI) (simp_all add: final_snapshot_def signal_defs)
  then have "reported final_snapshot" using run unfolding reported_def by blast
  then have all: "\<forall>st ss t. Saves st ss \<in> set later \<longrightarrow> t \<in> set ss \<longrightarrow> reported t" by (simp add: later_def)
  show ?thesis
    using saves_after_load_never_succeed [OF map_collection_ok map_find_ok s _ all prod.collapse [symmetric]] by simp
qed

end
